(* ===== verification/Prelude.thy ===== *)
theory Prelude
  imports Main "HOL-Library.Word" "HOL-Library.Monad_Syntax" "HOL-Library.Sublist"
    "HOL-Library.Extended_Nat"
begin

text \<open>
  What every component shares: the names of the characters the JSON code tests for, the C++
  memory idioms (copying into a fixed array, \<open>string_view::substr\<close>), and the lemmas about
  them that the component proofs rewrite with. A C++ \<open>char\<close> is a HOL \<^typ>\<open>char\<close> (one byte), a
  \<open>std::string_view\<close> the list of its bytes, and a \<open>size_t\<close> a natural number: sizes of objects
  in memory never reach the wrap-around of the type, and where the code does wrap a counter the
  model of that counter is a word.
\<close>

named_theorems mem_simps \<open>rewriting of copies into and slices out of arrays\<close>

type_synonym bytes = "char list"

section \<open>Characters\<close>

abbreviation ch_quote :: char where "ch_quote \<equiv> CHR 0x22"
abbreviation ch_bslash :: char where "ch_bslash \<equiv> CHR 0x5C"
abbreviation ch_nul :: char where "ch_nul \<equiv> CHR 0x00"
abbreviation ch_bs :: char where "ch_bs \<equiv> CHR 0x08"
abbreviation ch_tab :: char where "ch_tab \<equiv> CHR 0x09"
abbreviation ch_lf :: char where "ch_lf \<equiv> CHR 0x0A"
abbreviation ch_ff :: char where "ch_ff \<equiv> CHR 0x0C"
abbreviation ch_cr :: char where "ch_cr \<equiv> CHR 0x0D"

text \<open>\<open>static_cast<uint8_t>(ch)\<close>.\<close>

abbreviation byte_of :: "char \<Rightarrow> nat" where
  "byte_of c \<equiv> (of_char c :: nat)"

lemma byte_of_less [simp]: "byte_of c < 256"
  by simp

lemma byte_of_eq_iff: "byte_of c = n \<longleftrightarrow> n < 256 \<and> c = char_of n"
  by (auto simp: of_char_of)

section \<open>Digits\<close>

text \<open>\<open>static_cast<char>('0' + d)\<close> for a decimal digit, and the lower-case hexadecimal digit
  of \<open>printf\<close>'s \<open>%x\<close>.\<close>

definition dec_digit :: "nat \<Rightarrow> char" where
  "dec_digit d = char_of (48 + d)"

definition hex_digit :: "nat \<Rightarrow> char" where
  "hex_digit d = (if d < 10 then char_of (48 + d) else char_of (87 + d))"

text \<open>\<open>%04x\<close> for a value below \<open>0x10000\<close>.\<close>

definition hex4 :: "nat \<Rightarrow> bytes" where
  "hex4 n = [hex_digit (n div 4096 mod 16), hex_digit (n div 256 mod 16),
             hex_digit (n div 16 mod 16), hex_digit (n mod 16)]"

lemma length_hex4 [simp]: "length (hex4 n) = 4"
  by (simp add: hex4_def)

section \<open>Copying into arrays\<close>

text \<open>
  \<open>std::copy\<close> or \<open>memcpy\<close> of \<open>src\<close> to offset \<open>off\<close> of the array \<open>dst\<close>. The callers show
  that the copied range lies inside the array; the lemmas below carry that condition.
\<close>

definition blit :: "'a list \<Rightarrow> nat \<Rightarrow> 'a list \<Rightarrow> 'a list" where
  "blit dst off src = take off dst @ src @ drop (off + length src) dst"

lemma length_blit [mem_simps]:
  "off + length src \<le> length dst \<Longrightarrow> length (blit dst off src) = length dst"
  by (simp add: blit_def)

lemma take_blit [mem_simps]:
  "off + length src \<le> length dst \<Longrightarrow> take (off + length src) (blit dst off src) = take off dst @ src"
  by (simp add: blit_def)

lemma take_blit_prefix:
  "off + length src \<le> length dst \<Longrightarrow> n \<le> length src \<Longrightarrow>
    take (off + n) (blit dst off src) = take off dst @ take n src"
  by (simp add: blit_def)

lemma take_blit_before [mem_simps]:
  "n \<le> off \<Longrightarrow> off \<le> length dst \<Longrightarrow> take n (blit dst off src) = take n dst"
  by (simp add: blit_def)

lemma nth_blit:
  "off + length src \<le> length dst \<Longrightarrow> k < length dst \<Longrightarrow>
    blit dst off src ! k =
      (if k < off then dst ! k else if k < off + length src then src ! (k - off) else dst ! k)"
  by (auto simp: blit_def nth_append)

lemma blit_0 [simp]: "length src \<le> length dst \<Longrightarrow> blit dst 0 src = src @ drop (length src) dst"
  by (simp add: blit_def)

lemma blit_Nil [simp]: "off \<le> length dst \<Longrightarrow> blit dst off [] = dst"
  by (simp add: blit_def)

section \<open>Slices\<close>

text \<open>\<open>string_view::substr(pos, n)\<close>: the count is cut at the end of the view.\<close>

definition substr :: "'a list \<Rightarrow> nat \<Rightarrow> nat \<Rightarrow> 'a list" where
  "substr s pos n = take n (drop pos s)"

lemma length_substr [mem_simps]: "pos + n \<le> length s \<Longrightarrow> length (substr s pos n) = n"
  by (simp add: substr_def)

lemma substr_snoc:
  "pos \<le> i \<Longrightarrow> i < length s \<Longrightarrow> substr s pos (Suc i - pos) = substr s pos (i - pos) @ [s ! i]"
  by (simp add: substr_def take_Suc_conv_app_nth Suc_diff_le)

lemma substr_0 [simp]: "substr s pos 0 = []"
  by (simp add: substr_def)

lemma take_substr_append:
  "pos \<le> i \<Longrightarrow> take pos s @ substr s pos (i - pos) = take i s"
  by (metis le_add_diff_inverse substr_def take_add)

lemma substr_to_end: "length s - pos \<le> n \<Longrightarrow> substr s pos n = drop pos s"
  by (simp add: substr_def)

lemma substr_append_exact [simp]:
  "substr (pre @ s @ post) (length pre) (length s) = s"
  by (simp add: substr_def)

lemma takeWhile_stop: "\<not> P x \<Longrightarrow> takeWhile P (xs @ x # ys) = takeWhile P xs"
  by (induction xs) auto

section \<open>Machine words\<close>

lemma unat_ucast_small:
  "unat (x :: 'a::len word) < 2 ^ LENGTH('b) \<Longrightarrow> unat (ucast x :: 'b::len word) = unat x"
  by (simp add: unsigned_ucast_eq take_bit_nat_eq_self)

lemma unat_less_pow: "LENGTH('a::len) \<le> n \<Longrightarrow> unat (x :: 'a word) < 2 ^ n"
  using unsigned_less[of x] by (meson order_less_le_trans power_increasing one_le_numeral)

lemma unat_of_nat_32: "n < 2 ^ 32 \<Longrightarrow> unat (of_nat n :: 32 word) = n"
  by (simp add: unsigned_of_nat take_bit_nat_eq_self)

lemma unat_eq_1_iff: "unat (x :: 'a::len word) = 1 \<longleftrightarrow> x = 1"
  by (metis unat_1 word_eq_iff_unsigned)

end
