(* ===== verification/Buffers.thy ===== *)
theory Buffers
  imports Prelude
begin

text \<open>
  The output buffers of StackJson (\<open>stack_json/buffer.hpp\<close>, \<open>buffer.cpp\<close>,
  \<open>dynamic_buffer.hpp\<close>). \<open>Buffer\<close> is an abstract class: the serialiser only calls its virtual
  methods, so the model of the class is the record \<open>buffer_ops\<close> of these methods (its virtual
  table) over a state type, and everything that writes to a \<open>Buffer&\<close> takes such a record. The
  locale \<open>buffer\<close> states what a buffer that stores characters promises, and \<open>StackBuffer\<close> and
  \<open>DynamicBuffer\<close> are shown to keep the promise. A result of \<^const>\<open>None\<close> is an execution that has
  no defined result: a read outside of an array, or a loop that never ends.
\<close>

section \<open>The virtual methods\<close>

text \<open>
  \<open>op_span\<close> is \<open>get_write_span()\<close>: the new state and the characters now in the window; the
  caller changes them through the span, which is \<open>op_store\<close>, and makes them part of the output
  with \<open>op_commit\<close>. \<open>op_before b n\<close> reads the \<open>n\<close> characters before \<open>head()\<close>.
\<close>

record 'b buffer_ops =
  op_write :: "'b \<Rightarrow> bytes \<Rightarrow> ('b \<times> nat) option"
  op_span :: "'b \<Rightarrow> 'b \<times> bytes"
  op_store :: "'b \<Rightarrow> bytes \<Rightarrow> 'b"
  op_commit :: "'b \<Rightarrow> nat \<Rightarrow> 'b"
  op_before :: "'b \<Rightarrow> nat \<Rightarrow> bytes option"
  op_length :: "'b \<Rightarrow> nat"
  op_bad :: "'b \<Rightarrow> bool"
  op_set_bad :: "'b \<Rightarrow> bool \<Rightarrow> 'b"

text \<open>The non-virtual methods of \<open>Buffer\<close>: \<open>last_write\<close>, \<open>clear_fail\<close>, \<open>fail\<close>.\<close>

definition last_write :: "'b buffer_ops \<Rightarrow> 'b \<Rightarrow> nat \<Rightarrow> bytes option" where
  "last_write ops b written = op_before ops b written"

definition clear_fail :: "'b buffer_ops \<Rightarrow> 'b \<Rightarrow> 'b" where
  "clear_fail ops b = op_set_bad ops b False"

definition buf_fail :: "'b buffer_ops \<Rightarrow> 'b \<Rightarrow> 'b \<times> nat" where
  "buf_fail ops b = (op_set_bad ops b True, 0)"

section \<open>StackBuffer\<close>

text \<open>\<open>sb_max\<close> is the template parameter \<open>MaxSize\<close>; the array has one more character, for
  \<open>c_str()\<close>.\<close>

record stack_buffer =
  sb_max :: nat
  sb_buf :: bytes
  sb_head :: nat
  sb_bad :: bool

definition stack_buffer_new :: "nat \<Rightarrow> stack_buffer" where
  "stack_buffer_new n = \<lparr>sb_max = n, sb_buf = replicate (n + 1) ch_nul, sb_head = 0, sb_bad = False\<rparr>"

definition sb_reset :: "stack_buffer \<Rightarrow> stack_buffer" where
  "sb_reset b = b\<lparr>sb_bad := False, sb_head := 0\<rparr>"

definition sb_write :: "stack_buffer \<Rightarrow> bytes \<Rightarrow> stack_buffer \<times> nat" where
  "sb_write b s =
     (if sb_head b + length s > sb_max b then (b\<lparr>sb_bad := True\<rparr>, 0)
      else (b\<lparr>sb_buf := blit (sb_buf b) (sb_head b) s, sb_head := sb_head b + length s\<rparr>, length s))"

definition sb_view :: "stack_buffer \<Rightarrow> bytes" where
  "sb_view b = take (sb_head b) (sb_buf b)"

text \<open>\<open>c_str()\<close>: the buffer with the terminator stored, and the C string the returned pointer
  denotes (up to the first NUL); storing outside of the array has no defined result.\<close>

definition sb_c_str :: "stack_buffer \<Rightarrow> (stack_buffer \<times> bytes) option" where
  "sb_c_str b =
     (if sb_head b < length (sb_buf b) then
        let buf = (sb_buf b)[sb_head b := ch_nul]
        in Some (b\<lparr>sb_buf := buf\<rparr>, takeWhile (\<lambda>c. c \<noteq> ch_nul) buf)
      else None)"

definition sb_span :: "stack_buffer \<Rightarrow> bytes" where
  "sb_span b = (if sb_head b \<ge> sb_max b then [] else substr (sb_buf b) (sb_head b) (sb_max b - sb_head b))"

definition sb_store :: "stack_buffer \<Rightarrow> bytes \<Rightarrow> stack_buffer" where
  "sb_store b cs = b\<lparr>sb_buf := blit (sb_buf b) (sb_head b) cs\<rparr>"

definition sb_commit :: "stack_buffer \<Rightarrow> nat \<Rightarrow> stack_buffer" where
  "sb_commit b n = b\<lparr>sb_head := sb_head b + n\<rparr>"

definition sb_before :: "stack_buffer \<Rightarrow> nat \<Rightarrow> bytes option" where
  "sb_before b n = (if n \<le> sb_head b then Some (substr (sb_buf b) (sb_head b - n) n) else None)"

definition stack_ops :: "stack_buffer buffer_ops" where
  "stack_ops =
     \<lparr>op_write = (\<lambda>b s. Some (sb_write b s)), op_span = (\<lambda>b. (b, sb_span b)),
      op_store = sb_store, op_commit = sb_commit, op_before = sb_before, op_length = sb_head,
      op_bad = sb_bad, op_set_bad = (\<lambda>b v. b\<lparr>sb_bad := v\<rparr>)\<rparr>"

definition sb_ok :: "stack_buffer \<Rightarrow> bool" where
  "sb_ok b \<longleftrightarrow> length (sb_buf b) = sb_max b + 1 \<and> sb_head b \<le> sb_max b"

section \<open>DynamicBuffer\<close>

text \<open>
  \<open>db_expand\<close> is the template parameter \<open>ExpandSize\<close>. \<open>resize\<close> keeps the characters and fills
  with NUL; the vector is allocated in PSRAM, where running out of memory is a panic of the
  allocator, so that an execution that returns has resized.
\<close>

record dynamic_buffer =
  db_expand :: nat
  db_buf :: bytes
  db_head :: nat
  db_bad :: bool

definition resize :: "bytes \<Rightarrow> nat \<Rightarrow> bytes" where
  "resize v n = take n v @ replicate (n - length v) ch_nul"

definition dynamic_buffer_new :: "nat \<Rightarrow> dynamic_buffer" where
  "dynamic_buffer_new e = \<lparr>db_expand = e, db_buf = resize [] e, db_head = 0, db_bad = False\<rparr>"

definition db_reset :: "dynamic_buffer \<Rightarrow> dynamic_buffer" where
  "db_reset b = b\<lparr>db_bad := False, db_head := 0\<rparr>"

definition db_write :: "dynamic_buffer \<Rightarrow> bytes \<Rightarrow> dynamic_buffer \<times> nat" where
  "db_write b s =
     (let buf = (if db_head b + length s > length (db_buf b)
                 then resize (db_buf b) (db_head b + length s + db_expand b) else db_buf b)
      in (b\<lparr>db_buf := blit buf (db_head b) s, db_head := db_head b + length s\<rparr>, length s))"

definition db_span :: "dynamic_buffer \<Rightarrow> dynamic_buffer \<times> bytes" where
  "db_span b =
     (let buf = (if length (db_buf b) - db_head b < db_expand b
                 then resize (db_buf b) (db_head b + db_expand b) else db_buf b)
      in (b\<lparr>db_buf := buf\<rparr>, drop (db_head b) buf))"

definition db_store :: "dynamic_buffer \<Rightarrow> bytes \<Rightarrow> dynamic_buffer" where
  "db_store b cs = b\<lparr>db_buf := blit (db_buf b) (db_head b) cs\<rparr>"

definition db_commit :: "dynamic_buffer \<Rightarrow> nat \<Rightarrow> dynamic_buffer" where
  "db_commit b n = b\<lparr>db_head := db_head b + n\<rparr>"

definition db_view :: "dynamic_buffer \<Rightarrow> bytes" where
  "db_view b = take (db_head b) (db_buf b)"

definition db_c_str :: "dynamic_buffer \<Rightarrow> (dynamic_buffer \<times> bytes) option" where
  "db_c_str b =
     (let buf = (if db_head b = length (db_buf b) then resize (db_buf b) (db_head b + 1) else db_buf b)
      in if db_head b < length buf then
           let buf' = buf[db_head b := ch_nul]
           in Some (b\<lparr>db_buf := buf'\<rparr>, takeWhile (\<lambda>c. c \<noteq> ch_nul) buf')
         else None)"

definition db_before :: "dynamic_buffer \<Rightarrow> nat \<Rightarrow> bytes option" where
  "db_before b n = (if n \<le> db_head b then Some (substr (db_buf b) (db_head b - n) n) else None)"

definition dynamic_ops :: "dynamic_buffer buffer_ops" where
  "dynamic_ops =
     \<lparr>op_write = (\<lambda>b s. Some (db_write b s)), op_span = db_span,
      op_store = db_store, op_commit = db_commit, op_before = db_before, op_length = db_head,
      op_bad = db_bad, op_set_bad = (\<lambda>b v. b\<lparr>db_bad := v\<rparr>)\<rparr>"

definition db_ok :: "dynamic_buffer \<Rightarrow> bool" where
  "db_ok b \<longleftrightarrow> db_head b \<le> length (db_buf b)"

lemma length_resize [simp]: "length (resize v n) = n"
  by (simp add: resize_def)

lemma take_resize [mem_simps]: "n \<le> length v \<Longrightarrow> n \<le> m \<Longrightarrow> take n (resize v m) = take n v"
  by (simp add: resize_def)

section \<open>The contract of a storing buffer\<close>

text \<open>
  \<open>content\<close> is the text produced so far, \<open>cap\<close> the number of characters the buffer can ever hold
  and \<open>window\<close> the length of write span that is available whenever the capacity allows it.
  \<open>outcome slack b out b'\<close> is what producing the text \<open>out\<close> may do: what was there stays, \<open>b'\<close> is
  free of failure only if \<open>b\<close> was and exactly \<open>out\<close> has been added, and there is no failure when
  \<open>out\<close> and \<open>slack\<close> more characters fit.
\<close>

definition outcome ::
  "'b buffer_ops \<Rightarrow> ('b \<Rightarrow> bool) \<Rightarrow> ('b \<Rightarrow> bytes) \<Rightarrow> ('b \<Rightarrow> enat) \<Rightarrow> ('b \<Rightarrow> enat)
    \<Rightarrow> nat \<Rightarrow> 'b \<Rightarrow> bytes \<Rightarrow> 'b \<Rightarrow> bool" where
  "outcome ops ok content cap window slack b out b' \<longleftrightarrow>
     ok b' \<and> cap b' = cap b \<and> window b' = window b \<and> prefix (content b) (content b')
     \<and> (\<not> op_bad ops b' \<longrightarrow> \<not> op_bad ops b \<and> content b' = content b @ out)
     \<and> (\<not> op_bad ops b \<longrightarrow> enat (length (content b) + length out + slack) \<le> cap b
         \<longrightarrow> \<not> op_bad ops b')"

locale buffer =
  fixes ops :: "'b buffer_ops"
    and ok :: "'b \<Rightarrow> bool"
    and content :: "'b \<Rightarrow> bytes"
    and cap :: "'b \<Rightarrow> enat"
    and window :: "'b \<Rightarrow> enat"
  assumes within_cap: "ok b \<Longrightarrow> enat (length (content b)) \<le> cap b"
    and op_length: "ok b \<Longrightarrow> op_length ops b = length (content b)"
    and write_fits: "ok b \<Longrightarrow> enat (length (content b) + length s) \<le> cap b \<Longrightarrow>
      \<exists>b'. op_write ops b s = Some (b', length s) \<and> ok b' \<and> content b' = content b @ s
        \<and> op_bad ops b' = op_bad ops b \<and> cap b' = cap b \<and> window b' = window b"
    and write_full: "ok b \<Longrightarrow> \<not> enat (length (content b) + length s) \<le> cap b \<Longrightarrow>
      \<exists>b'. op_write ops b s = Some (b', 0) \<and> ok b' \<and> content b' = content b
        \<and> op_bad ops b' \<and> cap b' = cap b \<and> window b' = window b"
    and span_state: "ok b \<Longrightarrow> op_span ops b = (b', cs) \<Longrightarrow>
      ok b' \<and> content b' = content b \<and> op_bad ops b' = op_bad ops b \<and> cap b' = cap b
        \<and> window b' = window b \<and> enat (length (content b) + length cs) \<le> cap b"
    and span_window: "ok b \<Longrightarrow> op_span ops b = (b', cs) \<Longrightarrow> enat n \<le> window b \<Longrightarrow>
      enat (length (content b) + n) \<le> cap b \<Longrightarrow> n \<le> length cs"
    and store_commit: "ok b \<Longrightarrow> op_span ops b = (b', cs) \<Longrightarrow> length cs' = length cs \<Longrightarrow>
      n \<le> length cs \<Longrightarrow> b'' = op_commit ops (op_store ops b' cs') n \<Longrightarrow>
      ok b'' \<and> content b'' = content b @ take n cs' \<and> op_bad ops b'' = op_bad ops b
        \<and> cap b'' = cap b \<and> window b'' = window b"
    and store_only: "ok b \<Longrightarrow> op_span ops b = (b', cs) \<Longrightarrow> length cs' = length cs \<Longrightarrow>
      b'' = op_store ops b' cs' \<Longrightarrow>
      ok b'' \<and> content b'' = content b \<and> op_bad ops b'' = op_bad ops b
        \<and> cap b'' = cap b \<and> window b'' = window b"
    and store_store: "ok b \<Longrightarrow> op_span ops b = (b', cs) \<Longrightarrow> length cs1 = length cs \<Longrightarrow>
      length cs2 = length cs \<Longrightarrow> op_store ops (op_store ops b' cs1) cs2 = op_store ops b' cs2"
    and set_bad: "ok b \<Longrightarrow> ok (op_set_bad ops b v) \<and> content (op_set_bad ops b v) = content b
        \<and> op_bad ops (op_set_bad ops b v) = v \<and> cap (op_set_bad ops b v) = cap b
        \<and> window (op_set_bad ops b v) = window b"
    and before_head: "ok b \<Longrightarrow> n \<le> length (content b) \<Longrightarrow>
      op_before ops b n = Some (drop (length (content b) - n) (content b))"
begin

lemma last_write_content:
  "ok b \<Longrightarrow> n \<le> length (content b) \<Longrightarrow>
    last_write ops b n = Some (drop (length (content b) - n) (content b))"
  by (simp add: last_write_def before_head)

abbreviation emits :: "nat \<Rightarrow> 'b \<Rightarrow> bytes \<Rightarrow> 'b \<Rightarrow> bool" where
  "emits \<equiv> outcome ops ok content cap window"

abbreviation bad :: "'b \<Rightarrow> bool" where
  "bad \<equiv> op_bad ops"

lemmas emits_def = outcome_def [of ops ok content cap window]

lemma emitsD:
  assumes "emits k b out b'"
  shows "ok b'" "cap b' = cap b" "window b' = window b" "\<not> bad b' \<Longrightarrow> content b' = content b @ out"
    "bad b \<Longrightarrow> bad b'"
  using assms by (auto simp: emits_def)

lemma emits_ok: "emits k b out b' \<Longrightarrow> ok b'"
  by (rule emitsD(1))

lemma emits_window: "emits k b out b' \<Longrightarrow> window b = W \<Longrightarrow> window b' = W"
  by (simp add: emitsD(3))

lemma emits_refl: "ok b \<Longrightarrow> emits k b [] b"
  by (simp add: emits_def)

lemma enat_le_mono: "enat m \<le> c \<Longrightarrow> n \<le> m \<Longrightarrow> enat n \<le> c"
  by (cases c) auto

lemma emitsI:
  assumes "ok b'" "cap b' = cap b" "window b' = window b" "prefix (content b) (content b')"
    and "\<not> bad b' \<Longrightarrow> \<not> bad b \<and> content b' = content b @ out"
    and "\<not> bad b \<Longrightarrow> enat (length (content b) + length out + k) \<le> cap b \<Longrightarrow> \<not> bad b'"
  shows "emits k b out b'"
  using assms by (auto simp: emits_def)

lemma emits_fits:
  "emits k b out b' \<Longrightarrow> \<not> bad b \<Longrightarrow> enat n \<le> cap b \<Longrightarrow> length (content b) + length out + k \<le> n \<Longrightarrow>
    \<not> bad b' \<and> content b' = content b @ out"
  by (auto simp: emits_def dest: enat_le_mono)

lemma emits_prefix: "emits k b out b' \<Longrightarrow> prefix (content b) (content b')"
  by (simp add: emits_def)

lemma emits_mono:
  assumes e: "emits k b out b'" and "k \<le> k'"
  shows "emits k' b out b'"
proof (rule emitsI)
  show "\<not> bad b'" if "\<not> bad b" "enat (length (content b) + length out + k') \<le> cap b"
    using emits_fits[OF e that] assms(2) by simp
qed (use e in \<open>auto simp: emits_def\<close>)

text \<open>Producing one text and then another produces both.\<close>

lemma emits_append:
  assumes s: "emits k b s b1" and t: "emits k b1 t b2"
  shows "emits k b (s @ t) b2"
proof (rule emitsI)
  show "prefix (content b) (content b2)"
    using emits_prefix[OF s] emits_prefix[OF t] by (rule prefix_order.trans)
  show "\<not> bad b \<and> content b2 = content b @ s @ t" if "\<not> bad b2"
    using that emitsD(4,5)[OF s] emitsD(4,5)[OF t] by fastforce
  show "\<not> bad b2" if nb: "\<not> bad b" and room: "enat (length (content b) + length (s @ t) + k) \<le> cap b"
  proof -
    have "\<not> bad b1 \<and> content b1 = content b @ s"
      using emits_fits[OF s nb room] by simp
    with emits_fits[OF t, of "length (content b) + length (s @ t) + k"] room emitsD(2)[OF s]
    show ?thesis by simp
  qed
qed (use emitsD[OF s] emitsD[OF t] in auto)

text \<open>The spare room that the first text needs is there when the second one fits and is long enough.\<close>

lemma emits_close:
  assumes s: "emits k b s b1" and t: "emits 0 b1 t b2" and "k \<le> length t"
  shows "emits 0 b (s @ t) b2"
proof (rule emitsI)
  show "prefix (content b) (content b2)"
    using emits_prefix[OF s] emits_prefix[OF t] by (rule prefix_order.trans)
  show "\<not> bad b \<and> content b2 = content b @ s @ t" if "\<not> bad b2"
    using that emitsD(4,5)[OF s] emitsD(4,5)[OF t] by fastforce
  show "\<not> bad b2" if nb: "\<not> bad b" and room: "enat (length (content b) + length (s @ t) + 0) \<le> cap b"
  proof -
    have "\<not> bad b1 \<and> content b1 = content b @ s"
      using emits_fits[OF s nb room] assms(3) by simp
    with emits_fits[OF t, of "length (content b) + length (s @ t) + 0"] room emitsD(2)[OF s]
    show ?thesis by simp
  qed
qed (use emitsD[OF s] emitsD[OF t] in auto)

text \<open>Stopping after a failure: the rest of the text is not produced and need not be.\<close>

lemma emits_stop:
  assumes e: "emits k b s b'" and "bad b'"
  shows "emits k b (s @ t) b'"
proof (rule emitsI)
  show "\<not> bad b'" if "\<not> bad b" "enat (length (content b) + length (s @ t) + k) \<le> cap b"
    using emits_fits[OF e that] by simp
qed (use assms in \<open>auto simp: emits_def\<close>)

lemma emits_fail: "ok b \<Longrightarrow> \<not> enat (length (content b) + length out + k) \<le> cap b \<Longrightarrow>
    emits k b out (op_set_bad ops b True)"
  using set_bad[of b True] by (auto simp: emits_def)

lemma emits_bad: "ok b \<Longrightarrow> bad b \<Longrightarrow> emits k b out b"
  by (auto simp: emits_def)

text \<open>One call of \<open>write\<close>. It returns 0 for a non-empty text exactly when the text does not fit,
  and then the failure flag is set.\<close>

lemma write_cases [consumes 1, case_names written full]:
  assumes "ok b"
  obtains b' where "op_write ops b s = Some (b', length s)" "emits 0 b s b'" "bad b' = bad b"
    | b' where "op_write ops b s = Some (b', 0)" "emits 0 b s b'" "bad b'" "s \<noteq> []"
proof (cases "enat (length (content b) + length s) \<le> cap b")
  case True
  with write_fits[OF assms True] that(1) show ?thesis by (fastforce simp: emits_def)
next
  case False
  with within_cap[OF assms] have "s \<noteq> []" by auto
  with write_full[OF assms False] False that(2) show ?thesis by (fastforce simp: emits_def)
qed

text \<open>Storing through the write span and committing.\<close>

lemma commit_emits:
  assumes "ok b" "\<not> bad b" "op_span ops b = (b', cs)" "length cs' = length cs" "n \<le> length cs"
    and "take n cs' = out"
  shows "emits k b out (op_commit ops (op_store ops b' cs') n)"
    and "\<not> bad (op_commit ops (op_store ops b' cs') n)"
  using store_commit[OF assms(1,3,4,5) refl] assms(2,6) by (auto simp: emits_def)

lemma commit_text_emits:
  assumes "ok b" "\<not> bad b" "op_span ops b = (b', cs)" "length out \<le> length cs"
  shows "emits k b out (op_commit ops (op_store ops b' (out @ drop (length out) cs)) (length out))"
  by (rule commit_emits(1)[OF assms(1-3)]) (use assms(4) in auto)

text \<open>Asking for the write span changes nothing that is observable; when the span is too short for
  a text within the promised window, the text does not fit at all.\<close>

lemma emits_after_span:
  "ok b \<Longrightarrow> op_span ops b = (b1, cs) \<Longrightarrow> emits k b1 out b' \<Longrightarrow> emits k b out b'"
  using span_state[of b b1 cs] by (simp add: emits_def)

lemma fail_emits:
  assumes "ok b" "op_span ops b = (b1, cs)" "enat (length out + k) \<le> window b" "length cs < length out + k"
  shows "emits k b out (fst (buf_fail ops b1))"
proof -
  have "\<not> enat (length (content b) + length out + k) \<le> cap b"
    using span_window[OF assms(1,2,3)] assms(4) by (auto simp: add.assoc)
  then show ?thesis
    using emits_fail[of b1 out k] emits_after_span[OF assms(1,2)] span_state[OF assms(1,2)]
    by (simp add: buf_fail_def)
qed

text \<open>A failure is always reported: if the flag is still clear, the whole text has been produced
  and so it fitted.\<close>

lemma emits_overflow:
  assumes "emits k b out b'" "\<not> enat (length (content b) + length out) \<le> cap b"
  shows "bad b'"
proof (rule ccontr)
  assume "\<not> bad b'"
  with assms(1) have "content b' = content b @ out" "ok b'" "cap b' = cap b"
    by (auto simp: emits_def)
  with within_cap[of b'] assms(2) show False by simp
qed

end

section \<open>StackBuffer and DynamicBuffer keep the contract\<close>

lemmas sb_defs = sb_ok_def sb_view_def sb_write_def sb_span_def sb_store_def sb_commit_def
  sb_before_def stack_ops_def

lemma blit_blit: "off + length a \<le> length dst \<Longrightarrow> length a = length b \<Longrightarrow>
    blit (blit dst off a) off b = blit dst off b"
  by (simp add: blit_def)

lemmas db_defs = db_ok_def db_view_def db_write_def db_span_def db_store_def db_commit_def
  db_before_def dynamic_ops_def

interpretation stackb: buffer stack_ops sb_ok sb_view "\<lambda>b. enat (sb_max b)" "\<lambda>_. \<infinity>"
  by unfold_locales
    (auto simp: sb_defs substr_def mem_simps take_blit_prefix blit_blit drop_take split: if_splits)

interpretation dynb: buffer dynamic_ops db_ok db_view "\<lambda>_. \<infinity>" "\<lambda>b. enat (db_expand b)"
  by unfold_locales
    (auto simp: db_defs substr_def mem_simps take_blit_prefix blit_blit drop_take Let_def split: if_splits)

section \<open>Reading an outcome on the two buffers\<close>

lemma length_sb_view [simp]: "sb_ok b \<Longrightarrow> length (sb_view b) = sb_head b"
  by (simp add: sb_ok_def sb_view_def)

lemma length_db_view [simp]: "db_ok b \<Longrightarrow> length (db_view b) = db_head b"
  by (simp add: db_ok_def db_view_def)

lemma stack_buffer_new_ok [simp]:
  "sb_ok (stack_buffer_new n)" "sb_max (stack_buffer_new n) = n" "sb_head (stack_buffer_new n) = 0"
  "\<not> sb_bad (stack_buffer_new n)" "sb_view (stack_buffer_new n) = []"
  by (simp_all add: sb_ok_def stack_buffer_new_def sb_view_def)

lemma dynamic_buffer_new_ok [simp]:
  "db_ok (dynamic_buffer_new n)" "db_expand (dynamic_buffer_new n) = n" "db_head (dynamic_buffer_new n) = 0"
  "\<not> db_bad (dynamic_buffer_new n)" "db_view (dynamic_buffer_new n) = []"
  by (simp_all add: db_ok_def dynamic_buffer_new_def db_view_def)

lemma stack_ops_bad [simp]: "op_bad stack_ops = sb_bad"
  by (simp add: stack_ops_def)

lemma dynamic_ops_bad [simp]: "op_bad dynamic_ops = db_bad"
  by (simp add: dynamic_ops_def)

lemma stack_outcome:
  assumes "stackb.emits k b out b'" "sb_ok b" "\<not> sb_bad b"
  shows "sb_ok b'" "sb_max b' = sb_max b"
    and "sb_head b + length out + k \<le> sb_max b \<Longrightarrow> \<not> sb_bad b' \<and> sb_view b' = sb_view b @ out"
    and "sb_max b < sb_head b + length out \<Longrightarrow> sb_bad b'"
    and "\<not> sb_bad b' \<Longrightarrow> sb_view b' = sb_view b @ out"
  using stackb.emitsD[OF assms(1)] stackb.emits_fits[OF assms(1), of "sb_head b + length out + k"]
    stackb.emits_overflow[OF assms(1)] assms(2,3) by auto

lemma dynamic_outcome:
  assumes "dynb.emits k b out b'" "\<not> db_bad b"
  shows "db_ok b'" "db_expand b' = db_expand b" "\<not> db_bad b'" "db_view b' = db_view b @ out"
  using dynb.emitsD[OF assms(1)] dynb.emits_fits[OF assms(1)] assms(2) by auto

section \<open>Properties\<close>

text \<open>The invariant of \<open>StackBuffer\<close> (the head stays inside the array, which keeps its size) is
  kept by every method, and the view only ever grows by what a successful write was given; a write
  that does not fit leaves the view alone, returns 0 and sets the failure flag.\<close>

theorem stack_buffer_write:
  assumes "sb_ok b"
  shows "case sb_write b s of (b', n) \<Rightarrow> sb_ok b' \<and> sb_max b' = sb_max b \<and>
    (if sb_head b + length s \<le> sb_max b
     then sb_view b' = sb_view b @ s \<and> n = length s \<and> sb_bad b' = sb_bad b
     else sb_view b' = sb_view b \<and> n = 0 \<and> sb_bad b')"
  using assms by (auto simp: sb_defs mem_simps)

theorem stack_buffer_write_witness:
  "sb_ok (stack_buffer_new 4) \<and>
   (case sb_write (stack_buffer_new 4) ''abc'' of (b', n) \<Rightarrow> sb_view b' = ''abc'' \<and> n = 3)"
  using stack_buffer_write[of "stack_buffer_new 4" "''abc''"] by auto

text \<open>\<open>last_write(written)\<close> after writing \<open>s\<close> to a buffer with room gives back \<open>s\<close>, and \<open>c_str()\<close>
  is the view up to its first NUL.\<close>

theorem stack_last_write:
  assumes "sb_ok b" "sb_head b + length s \<le> sb_max b" "sb_write b s = (b', n)"
  shows "last_write stack_ops b' n = Some s \<and>
    (\<exists>b''. sb_c_str b' = Some (b'', takeWhile (\<lambda>c. c \<noteq> ch_nul) (sb_view b @ s)) \<and> sb_view b'' = sb_view b')"
proof
  have b': "sb_ok b'" "sb_view b' = sb_view b @ s" "n = length s"
    using assms by (auto simp: sb_defs mem_simps)
  show "last_write stack_ops b' n = Some s"
    using stackb.last_write_content[OF b'(1), of n] b'(2,3) by simp
  have buf: "(sb_buf b')[sb_head b' := ch_nul] = sb_view b' @ ch_nul # drop (sb_head b' + 1) (sb_buf b')"
    using b'(1) by (simp add: sb_ok_def sb_view_def upd_conv_take_nth_drop)
  have "sb_c_str b' = Some (b'\<lparr>sb_buf := (sb_buf b')[sb_head b' := ch_nul]\<rparr>,
      takeWhile (\<lambda>c. c \<noteq> ch_nul) (sb_view b @ s))"
    using b'(1) by (simp add: sb_c_str_def sb_ok_def buf b'(2) takeWhile_stop del: append_assoc)
  moreover have "sb_view (b'\<lparr>sb_buf := (sb_buf b')[sb_head b' := ch_nul]\<rparr>) = sb_view b'"
    by (simp add: sb_view_def)
  ultimately show "\<exists>b''. sb_c_str b' = Some (b'', takeWhile (\<lambda>c. c \<noteq> ch_nul) (sb_view b @ s)) \<and>
      sb_view b'' = sb_view b'" by blast
qed

theorem stack_last_write_witness:
  "\<exists>b' n. sb_write (stack_buffer_new 4) ''abc'' = (b', n) \<and> last_write stack_ops b' n = Some ''abc''"
proof -
  obtain b' n where w: "sb_write (stack_buffer_new 4) ''abc'' = (b', n)" by fastforce
  have "last_write stack_ops b' n = Some ''abc'' \<and> (\<exists>b''. sb_c_str b' =
      Some (b'', takeWhile (\<lambda>c. c \<noteq> ch_nul) (sb_view (stack_buffer_new 4) @ ''abc'')) \<and> sb_view b'' = sb_view b')"
    by (rule stack_last_write[OF _ _ w]) simp_all
  with w show ?thesis by blast
qed

end
