(* ===== verification/Escape.thy ===== *)
theory Escape
  imports Buffers
begin

text \<open>
  \<open>Buffer::write_escaped\<close> (\<open>stack_json/buffer.cpp\<close>): a JSON string literal for arbitrary bytes.
  \<open>quoted\<close> is the literal it has to produce; the routine scans for runs of safe characters and
  has a fast path for strings without a character to escape.
\<close>

section \<open>The reference: escaping one character at a time\<close>

definition needs_escape :: "char \<Rightarrow> bool" where
  "needs_escape c \<longleftrightarrow> c = ch_quote \<or> c = ch_bslash \<or> byte_of c \<le> 31"

text \<open>The \<open>switch\<close> of the slow path; \<open>hex4\<close> is \<open>snprintf\<close>'s \<open>%04x\<close>.\<close>

definition escape_seq :: "char \<Rightarrow> bytes" where
  "escape_seq c =
     (if c = ch_quote then [ch_bslash, ch_quote]
      else if c = ch_bslash then [ch_bslash, ch_bslash]
      else if c = ch_bs then [ch_bslash, CHR ''b'']
      else if c = ch_ff then [ch_bslash, CHR ''f'']
      else if c = ch_lf then [ch_bslash, CHR ''n'']
      else if c = ch_cr then [ch_bslash, CHR ''r'']
      else if c = ch_tab then [ch_bslash, CHR ''t'']
      else ch_bslash # CHR ''u'' # hex4 (byte_of c))"

definition escape_char :: "char \<Rightarrow> bytes" where
  "escape_char c = (if needs_escape c then escape_seq c else [c])"

definition escape :: "bytes \<Rightarrow> bytes" where
  "escape s = concat (map escape_char s)"

definition quoted :: "bytes \<Rightarrow> bytes" where
  "quoted s = ch_quote # escape s @ [ch_quote]"

lemma escape_Nil [simp]: "escape [] = []"
  by (simp add: escape_def)

lemma escape_Cons [simp]: "escape (c # s) = escape_char c @ escape s"
  by (simp add: escape_def)

lemma escape_append [simp]: "escape (s @ t) = escape s @ escape t"
  by (simp add: escape_def)

lemma escape_safe: "\<forall>c\<in>set s. \<not> needs_escape c \<Longrightarrow> escape s = s"
  by (induction s) (auto simp: escape_char_def)

lemma escape_seq_nonempty [simp]: "escape_seq c \<noteq> []"
  by (auto simp: escape_seq_def)

lemma length_quoted: "length (quoted s) = length (escape s) + 2"
  by (simp add: quoted_def)

lemma length_escape_char: "1 \<le> length (escape_char c) \<and> length (escape_char c) \<le> 6"
  by (simp add: escape_char_def escape_seq_def)

lemma length_escape: "length s \<le> length (escape s) \<and> length (escape s) \<le> 6 * length s"
proof (induction s)
  case (Cons c s)
  then show ?case using length_escape_char[of c] by simp
qed simp

section \<open>The routine\<close>

text \<open>
  The loop of the slow path: \<open>i\<close> is the scan position, \<open>start\<close> the first character not yet
  written. It ends with \<open>start\<close>, or with \<^const>\<open>None\<close> inside the pair when a write returned 0 and
  the routine returns 0.
\<close>

function esc_loop :: "'b buffer_ops \<Rightarrow> bytes \<Rightarrow> nat \<Rightarrow> nat \<Rightarrow> 'b \<Rightarrow> ('b \<times> nat option) option" where
  "esc_loop ops str i start b =
     (if i < length str then
        let c = str ! i in
        if needs_escape c then
          do {
            (b, flushed) \<leftarrow> (if i > start
               then do { (b, n) \<leftarrow> op_write ops b (substr str start (i - start)); Some (b, n \<noteq> 0) }
               else Some (b, True));
            if \<not> flushed then Some (b, None)
            else do {
              (b, ok) \<leftarrow> op_write ops b (escape_seq c);
              if ok = 0 then Some (b, None)
              else esc_loop ops str (i + 1) (i + 1) b
            }
          }
        else esc_loop ops str (i + 1) start b
      else Some (b, Some start))"
  by pat_completeness auto
termination
  by (relation "measure (\<lambda>(ops, str, i, start, b). length str - i)") auto

declare esc_loop.simps [simp del]

definition write_escaped_slow ::
  "'b buffer_ops \<Rightarrow> nat \<Rightarrow> bytes \<Rightarrow> 'b \<Rightarrow> ('b \<times> nat) option" where
  "write_escaped_slow ops before_len str b =
     do {
       (b, n) \<leftarrow> op_write ops b [ch_quote];
       if n = 0 then Some (b, 0)
       else do {
         (b, st) \<leftarrow> esc_loop ops str 0 0 b;
         case st of
           None \<Rightarrow> Some (b, 0)
         | Some start \<Rightarrow>
             do {
               (b, flushed) \<leftarrow> (if start < length str
                  then do { (b, n) \<leftarrow> op_write ops b (drop start str); Some (b, n \<noteq> 0) }
                  else Some (b, True));
               if \<not> flushed then Some (b, 0)
               else do {
                 (b, n) \<leftarrow> op_write ops b [ch_quote];
                 if n = 0 then Some (b, 0) else Some (b, op_length ops b - before_len)
               }
             }
       }
     }"

definition write_escaped :: "'b buffer_ops \<Rightarrow> 'b \<Rightarrow> bytes \<Rightarrow> ('b \<times> nat) option" where
  "write_escaped ops b str =
     (if op_bad ops b then Some (b, 0)
      else
        let before_len = op_length ops b in
        if \<not> list_ex needs_escape str then
          let (b, span) = op_span ops b; total = length str + 2 in
          if total \<le> length span then
            let b = op_store ops b (blit span 0 (ch_quote # str @ [ch_quote]))
            in Some (op_commit ops b total, total)
          else write_escaped_slow ops before_len str b
        else write_escaped_slow ops before_len str b)"

section \<open>The routine writes the literal\<close>

lemma escape_unsafe_drop:
  assumes "start \<le> i" "i < length str" "needs_escape (str ! i)"
    and "\<forall>c\<in>set (substr str start (i - start)). \<not> needs_escape c"
  shows "escape (drop start str) =
    substr str start (i - start) @ escape_seq (str ! i) @ escape (drop (i + 1) str)"
proof -
  have "drop start str = substr str start (i - start) @ str ! i # drop (i + 1) str"
    using assms(1,2)
    by (simp add: substr_def Cons_nth_drop_Suc)
      (metis add_diff_inverse_nat append_take_drop_id drop_drop add.commute not_le)
  then show ?thesis using assms by (simp add: escape_safe escape_char_def)
qed

context buffer
begin

text \<open>The optional flush of the safe run before an escape or before the closing quote.\<close>

lemma flush_cases:
  assumes "ok b" and "s \<noteq> [] \<longleftrightarrow> p"
  obtains b' where "(if p then do { (b, n) \<leftarrow> op_write ops b s; Some (b, n \<noteq> 0) } else Some (b, True))
        = Some (b', True)" "emits 0 b s b'" "bad b' = bad b"
    | b' where "(if p then do { (b, n) \<leftarrow> op_write ops b s; Some (b, n \<noteq> 0) } else Some (b, True))
        = Some (b', False)" "emits 0 b s b'" "bad b'"
proof (cases p)
  case True
  with assms have "s \<noteq> []" by simp
  with assms(1) show ?thesis
    by (cases rule: write_cases[where s = s]) (use True that in auto)
next
  case False
  with assms that(1)[of b] show ?thesis by (simp add: emits_refl)
qed

text \<open>What the loop gives: a failure, or the position \<open>s\<close> from where the text is still to be written.\<close>

definition esc_emits :: "bytes \<Rightarrow> nat \<Rightarrow> 'b \<Rightarrow> ('b \<times> nat option) option \<Rightarrow> bool" where
  "esc_emits str start b r \<longleftrightarrow> (\<exists>b' st. r = Some (b', st) \<and>
     (case st of
        None \<Rightarrow> bad b' \<and> emits 0 b (escape (drop start str)) b'
      | Some s \<Rightarrow> \<not> bad b' \<and> s \<le> length str \<and>
          (\<exists>out. emits 0 b out b' \<and> out @ drop s str = escape (drop start str))))"

lemma esc_emits_step:
  assumes "emits 0 b s b1" "escape (drop start str) = s @ escape (drop start' str)" "esc_emits str start' b1 r"
  shows "esc_emits str start b r"
  using assms(2,3) emits_append[OF assms(1)] unfolding esc_emits_def by (fastforce split: option.splits)

lemma esc_emits_stop:
  assumes "emits 0 b s b1" "bad b1" "escape (drop start str) = s @ t"
  shows "esc_emits str start b (Some (b1, None))"
  using assms emits_stop[OF assms(1,2)] by (simp add: esc_emits_def)

lemma esc_loop_escape:
  assumes "ok b" "\<not> bad b" "start \<le> i" "i < length str" "needs_escape (str ! i)"
    and "\<forall>c\<in>set (substr str start (i - start)). \<not> needs_escape c"
    and rest: "\<And>b2. ok b2 \<Longrightarrow> \<not> bad b2 \<Longrightarrow> esc_emits str (i + 1) b2 (esc_loop ops str (i + 1) (i + 1) b2)"
  shows "esc_emits str start b (esc_loop ops str i start b)"
proof -
  let ?run = "substr str start (i - start)"
  note split = escape_unsafe_drop[OF assms(3-6)]
  have run: "?run \<noteq> [] \<longleftrightarrow> i > start" using assms(3,4) by (auto simp: substr_def)
  show ?thesis
  proof (cases rule: flush_cases[OF assms(1) run])
    case (2 b1)
    with assms(4,5) esc_emits_stop[OF 2(2,3) split] show ?thesis by (simp add: esc_loop.simps[of ops str i] Let_def)
  next
    case (1 b1)
    note flushed = 1
    show ?thesis
    proof (cases rule: write_cases[OF emitsD(1)[OF flushed(2)], of "escape_seq (str ! i)", case_names written full])
      case (full b2)
      with assms(4,5) flushed esc_emits_stop[OF emits_append[OF flushed(2) full(2)] full(3)] split show ?thesis
        by (simp add: esc_loop.simps[of ops str i] Let_def)
    next
      case (written b2)
      have "\<not> bad b2" using written(3) flushed(3) assms(2) by simp
      from esc_emits_step[OF emits_append[OF flushed(2) written(2)] _ rest[OF emitsD(1)[OF written(2)] this]] split
      have "esc_emits str start b (esc_loop ops str (i + 1) (i + 1) b2)" by simp
      with assms(4,5) flushed written show ?thesis by (simp add: esc_loop.simps[of ops str i] Let_def)
    qed
  qed
qed

lemma esc_loop_emits:
  assumes "ok b" "\<not> bad b" "start \<le> i" "i \<le> length str"
    and "\<forall>c\<in>set (substr str start (i - start)). \<not> needs_escape c"
  shows "esc_emits str start b (esc_loop ops str i start b)"
  using assms
proof (induction "length str - i" arbitrary: i start b rule: less_induct)
  case less
  consider (stop) "i = length str" | (safe) "i < length str" "\<not> needs_escape (str ! i)"
    | (esc) "i < length str" "needs_escape (str ! i)" using less.prems(4) by linarith
  then show ?case
  proof cases
    case stop
    then have "drop start str = substr str start (i - start)" using less.prems(3) by (simp add: substr_def)
    then have "escape (drop start str) = drop start str" using less.prems(5) by (simp add: escape_safe)
    moreover have "esc_loop ops str i start b = Some (b, Some start)" using stop by (subst esc_loop.simps) simp
    moreover have "\<exists>out. emits 0 b out b \<and> out @ drop start str = drop start str" using emits_refl[OF less.prems(1)] by blast
    ultimately show ?thesis using less.prems(2-4) by (simp add: esc_emits_def)
  next
    case safe
    have "\<forall>c\<in>set (substr str start (i + 1 - start)). \<not> needs_escape c"
      using safe less.prems(3,5) substr_snoc[of start i str] by auto
    with less.hyps[of "i + 1" b start] safe less.prems show ?thesis by (simp add: esc_loop.simps[of ops str i])
  next
    case esc
    from less.prems(1-3) esc less.prems(5) show ?thesis by (rule esc_loop_escape) (use less.hyps[of "i + 1"] esc in auto)
  qed
qed

text \<open>The result of the routine, and its last part: the rest of the text and the closing quote.\<close>

definition writes_literal :: "'b \<Rightarrow> bytes \<Rightarrow> ('b \<times> nat) option \<Rightarrow> bool" where
  "writes_literal b str r \<longleftrightarrow> (\<exists>b' n. r = Some (b', n) \<and> emits 0 b (quoted str) b' \<and>
     (n = length (quoted str) \<and> \<not> bad b' \<or> n = 0 \<and> bad b'))"

lemma literal_stop:
  assumes "emits 0 b s b1" "bad b1" "quoted str = s @ t"
  shows "writes_literal b str (Some (b1, 0))"
  using assms emits_stop[OF assms(1,2)] by (simp add: writes_literal_def)

lemma literal_closes:
  assumes e: "emits 0 b (ch_quote # escape str) b3" and "ok b" "\<not> bad b3"
  shows "writes_literal b str
    (do { (b', n) \<leftarrow> op_write ops b3 [ch_quote];
          if n = 0 then Some (b', 0) else Some (b', op_length ops b' - length (content b)) })"
proof (cases rule: write_cases[OF emitsD(1)[OF e], of "[ch_quote]", case_names closed full])
  case (full b4)
  with literal_stop[OF emits_append[OF e full(2)] full(3), of str "[]"] show ?thesis by (simp add: quoted_def)
next
  case (closed b4)
  have e4: "emits 0 b (quoted str) b4" "\<not> bad b4"
    using emits_append[OF e closed(2)] closed(3) assms(3) by (auto simp: quoted_def)
  have "op_length ops b4 - length (content b) = length (quoted str)"
    using op_length[OF emitsD(1)[OF e4(1)]] emitsD(4)[OF e4] by simp
  with e4 closed show ?thesis by (simp add: writes_literal_def)
qed

lemma literal_rest:
  assumes e: "emits 0 b (ch_quote # out) b2" "\<not> bad b2" and "ok b" "out @ drop s str = escape str"
  shows "writes_literal b str
    (do { (b', flushed) \<leftarrow> (if s < length str
            then do { (b', n) \<leftarrow> op_write ops b2 (drop s str); Some (b', n \<noteq> 0) } else Some (b2, True));
          if \<not> flushed then Some (b', 0)
          else do { (b', n) \<leftarrow> op_write ops b' [ch_quote];
                    if n = 0 then Some (b', 0) else Some (b', op_length ops b' - length (content b)) } })"
proof -
  have p: "drop s str \<noteq> [] \<longleftrightarrow> s < length str" by auto
  have q: "quoted str = (ch_quote # out @ drop s str) @ [ch_quote]" using assms(4) by (simp add: quoted_def)
  show ?thesis
  proof (cases rule: flush_cases[OF emitsD(1)[OF e(1)] p, case_names flushed full])
    case (full b3)
    with literal_stop[OF emits_append[OF e(1) full(2)] full(3)] q show ?thesis by simp
  next
    case (flushed b3)
    with literal_closes[of b str b3] emits_append[OF e(1) flushed(2)] assms(2-4) show ?thesis by simp
  qed
qed

lemma write_escaped_slow_emits:
  assumes "ok b" "\<not> bad b"
  shows "writes_literal b str (write_escaped_slow ops (length (content b)) str b)"
proof (cases rule: write_cases[OF assms(1), of "[ch_quote]", case_names opened full])
  case (full b1)
  with literal_stop[OF full(2,3), of str] show ?thesis by (simp add: write_escaped_slow_def quoted_def)
next
  case (opened b1)
  have 1: "ok b1" "\<not> bad b1" using emitsD(1)[OF opened(2)] opened(3) assms(2) by auto
  obtain b2 st where loop: "esc_loop ops str 0 0 b1 = Some (b2, st)"
    and st: "case st of None \<Rightarrow> bad b2 \<and> emits 0 b1 (escape str) b2
      | Some s \<Rightarrow> \<not> bad b2 \<and> s \<le> length str \<and> (\<exists>out. emits 0 b1 out b2 \<and> out @ drop s str = escape str)"
    using esc_loop_emits[OF 1, of 0 0 str, unfolded esc_emits_def drop_0] by auto
  show ?thesis
  proof (cases st)
    case None
    with st opened loop literal_stop[OF emits_append[OF opened(2)], of "escape str" b2 str "[ch_quote]"]
    show ?thesis by (simp add: write_escaped_slow_def quoted_def)
  next
    case (Some s)
    with st obtain out where 2: "\<not> bad b2" "emits 0 b1 out b2" "out @ drop s str = escape str" by auto
    with literal_rest[OF _ 2(1) assms(1) 2(3)] emits_append[OF opened(2) 2(2)] opened loop Some
    show ?thesis by (simp add: write_escaped_slow_def)
  qed
qed

lemma write_escaped_emits:
  assumes "ok b"
  shows "\<exists>b' n. write_escaped ops b str = Some (b', n) \<and> emits 0 b (quoted str) b' \<and>
    (n = length (quoted str) \<and> \<not> bad b' \<or> n = 0 \<and> bad b')"
proof (cases "bad b")
  case True
  with assms show ?thesis by (simp add: write_escaped_def emits_bad)
next
  case nb: False
  obtain b1 span where span: "op_span ops b = (b1, span)" by fastforce
  note b1 = span_state[OF assms span]
  show ?thesis
  proof (cases "\<not> list_ex needs_escape str \<and> length str + 2 \<le> length span")
    case fast: True
    let ?lit = "ch_quote # str @ [ch_quote]"
    have lit: "quoted str = ?lit"
      using fast by (simp add: quoted_def escape_safe list_ex_iff)
    have l: "length (blit span 0 ?lit) = length span"
      using fast by (intro length_blit) simp
    have t: "take (length str + 2) (blit span 0 ?lit) = ?lit"
      using fast by (simp add: blit_def)
    show ?thesis
      using nb fast span commit_emits[OF assms nb span l _ t]
      by (simp add: write_escaped_def lit Let_def)
  next
    case slow: False
    with nb span b1 emits_after_span[OF assms span] write_escaped_slow_emits[OF assms nb, of str]
      write_escaped_slow_emits[of b1 str] op_length[OF assms]
    show ?thesis by (auto simp: write_escaped_def writes_literal_def Let_def)
  qed
qed

end

section \<open>Properties\<close>

text \<open>C15: \<open>write_escaped\<close> on a \<open>StackBuffer\<close> appends exactly the JSON string literal of the bytes and
  returns its length when it fits; otherwise it returns 0 with the failure flag set. Fast and slow
  path agree with the character-by-character reference.\<close>

theorem stack_write_escaped:
  assumes "sb_ok b" "\<not> sb_bad b"
  shows "\<exists>b' n. write_escaped stack_ops b s = Some (b', n) \<and> sb_ok b' \<and> sb_max b' = sb_max b \<and>
    (if sb_head b + length (quoted s) \<le> sb_max b
     then \<not> sb_bad b' \<and> sb_view b' = sb_view b @ quoted s \<and> n = length (quoted s)
     else sb_bad b' \<and> n = 0)"
proof -
  obtain b' n where w: "write_escaped stack_ops b s = Some (b', n)" "stackb.emits 0 b (quoted s) b'"
    "n = length (quoted s) \<and> \<not> sb_bad b' \<or> n = 0 \<and> sb_bad b'"
    using stackb.write_escaped_emits[OF assms(1), of s] by auto
  show ?thesis using w stack_outcome[OF w(2) assms] by (auto simp: not_le)
qed

theorem stack_write_escaped_witness:
  "\<exists>b' n. write_escaped stack_ops (stack_buffer_new 8) [ch_quote, ch_lf] = Some (b', n) \<and>
    sb_view b' = [ch_quote, ch_bslash, ch_quote, ch_bslash, CHR ''n'', ch_quote] \<and> n = 6"
  using stack_write_escaped[of "stack_buffer_new 8" "[ch_quote, ch_lf]"]
  by (auto simp: quoted_def escape_char_def needs_escape_def escape_seq_def)

end
