(* ===== verification/Numbers.thy ===== *)
theory Numbers
  imports Buffers
begin

text \<open>
  Integers as decimal text: the emitters \<open>write_unsigned\<close> and \<open>write_signed\<close> of
  \<open>stack_json/document.cpp\<close>, which count the digits first and then fill the write span from the
  right, and \<open>coerce_int\<close> of \<open>stack_json/parser.cpp\<close>, which reads integers with
  \<open>std::from_chars\<close>. The reference is \<open>dec_string\<close>; reading what was written gives the value back
  at every width.
\<close>

section \<open>The reference: decimal notation\<close>

fun dec_string :: "nat \<Rightarrow> bytes" where
  "dec_string n = (if n < 10 then [dec_digit n] else dec_string (n div 10) @ [dec_digit (n mod 10)])"

declare dec_string.simps [simp del]

definition int_string :: "int \<Rightarrow> bytes" where
  "int_string i = (if i < 0 then CHR ''-'' # dec_string (nat (- i)) else dec_string (nat i))"

lemma dec_string_nonempty [simp]: "dec_string n \<noteq> []"
  by (subst dec_string.simps) simp

lemma length_dec_string_pos [simp]: "0 < length (dec_string n)"
  by simp

text \<open>A number has at most \<open>k\<close> digits exactly when it is below \<open>10^k\<close>.\<close>

lemma length_dec_string_le: "0 < k \<Longrightarrow> length (dec_string n) \<le> k \<longleftrightarrow> n < 10 ^ k"
proof (induction n arbitrary: k rule: dec_string.induct)
  case (1 n)
  show ?case
  proof (cases "n < 10")
    case True
    moreover have "10 ^ 1 \<le> (10 :: nat) ^ k" using 1(2) by (intro power_increasing) auto
    ultimately show ?thesis using 1(2) by (subst dec_string.simps) auto
  next
    case False
    show ?thesis
    proof (cases "k = 1")
      case True
      with False show ?thesis
        by (subst dec_string.simps) (auto simp: not_le)
    next
      case k: False
      with 1(2) obtain m where m: "k = Suc m" "0 < m" by (cases k) auto
      have "length (dec_string (n div 10)) \<le> m \<longleftrightarrow> n div 10 < 10 ^ m"
        by (rule 1(1)[OF False m(2)])
      also have "\<dots> \<longleftrightarrow> n < 10 ^ k"
        using m(1) by (simp add: div_less_iff_less_mult mult.commute)
      finally show ?thesis using False m(1) by (subst dec_string.simps) simp
    qed
  qed
qed

lemma length_dec_string_eq:
  assumes "n < 10 ^ Suc k" "10 ^ k \<le> n"
  shows "length (dec_string n) = Suc k"
proof -
  have "length (dec_string n) \<le> Suc k" using assms(1) length_dec_string_le[of "Suc k" n] by simp
  moreover have "\<not> length (dec_string n) \<le> k" if "0 < k"
    using assms(2) length_dec_string_le[OF that, of n] by simp
  moreover have "length (dec_string n) \<noteq> 0" by simp
  ultimately show ?thesis by (cases "k = 0") linarith+
qed

lemma length_dec_string_small: "n < 10 \<Longrightarrow> length (dec_string n) = 1"
  by (subst dec_string.simps) simp

section \<open>Counting digits\<close>

definition num_digits_u32 :: "32 word \<Rightarrow> nat" where
  "num_digits_u32 x =
     (if x < 10 then 1 else if x < 100 then 2 else if x < 1000 then 3
      else if x < 10000 then 4 else if x < 100000 then 5 else if x < 1000000 then 6
      else if x < 10000000 then 7 else if x < 100000000 then 8
      else if x < 1000000000 then 9 else 10)"

definition num_digits_u64 :: "64 word \<Rightarrow> nat" where
  "num_digits_u64 x =
     (if x \<le> 0xFFFFFFFF then num_digits_u32 (ucast x)
      else if x < 10000000000 then 10 else if x < 100000000000 then 11
      else if x < 1000000000000 then 12 else if x < 10000000000000 then 13
      else if x < 100000000000000 then 14 else if x < 1000000000000000 then 15
      else if x < 10000000000000000 then 16 else if x < 100000000000000000 then 17
      else if x < 1000000000000000000 then 18 else if x < 10000000000000000000 then 19
      else 20)"

text \<open>\<open>num_digits<UIntT>\<close>: \<open>if constexpr (sizeof(UIntT) <= 4)\<close>.\<close>

definition num_digits :: "'a::len word \<Rightarrow> nat" where
  "num_digits x = (if LENGTH('a) \<le> 32 then num_digits_u32 (ucast x) else num_digits_u64 (ucast x))"

lemmas dec_lengths = length_dec_string_small
  length_dec_string_eq[of _ 1, simplified] length_dec_string_eq[of _ 2, simplified]
  length_dec_string_eq[of _ 3, simplified] length_dec_string_eq[of _ 4, simplified]
  length_dec_string_eq[of _ 5, simplified] length_dec_string_eq[of _ 6, simplified]
  length_dec_string_eq[of _ 7, simplified] length_dec_string_eq[of _ 8, simplified]
  length_dec_string_eq[of _ 9, simplified]

lemmas dec_lengths_long =
  length_dec_string_eq[of _ 9, simplified] length_dec_string_eq[of _ 10, simplified]
  length_dec_string_eq[of _ 11, simplified] length_dec_string_eq[of _ 12, simplified]
  length_dec_string_eq[of _ 13, simplified] length_dec_string_eq[of _ 14, simplified]
  length_dec_string_eq[of _ 15, simplified] length_dec_string_eq[of _ 16, simplified]
  length_dec_string_eq[of _ 17, simplified] length_dec_string_eq[of _ 18, simplified]
  length_dec_string_eq[of _ 19, simplified]

lemma num_digits_u32_length: "num_digits_u32 x = length (dec_string (unat x))"
proof -
  have "unat x < 2 ^ 32" using unsigned_less[of x] by simp
  then have "unat x < 10000000000" by simp
  then show ?thesis
    by (simp add: num_digits_u32_def word_less_nat_alt not_less dec_lengths)
qed

lemma num_digits_u64_length: "num_digits_u64 x = length (dec_string (unat x))"
proof (cases "x \<le> 0xFFFFFFFF")
  case True
  then have "unat x < 2 ^ LENGTH(32)"
    by (simp add: word_le_nat_alt)
  with True show ?thesis
    by (simp only: num_digits_u64_def num_digits_u32_length unat_ucast_small if_True)
next
  case False
  have "unat x < 2 ^ 64" by (rule unat_less_pow) simp
  then have "unat x < 100000000000000000000" "1000000000 \<le> unat x"
    using False by (simp_all add: word_le_nat_alt)
  with False show ?thesis
    by (simp add: num_digits_u64_def word_less_nat_alt not_less dec_lengths_long)
qed

lemma num_digits_length:
  assumes "LENGTH('a::len) \<le> 64"
  shows "num_digits (x :: 'a word) = length (dec_string (unat x))"
proof (cases "LENGTH('a) \<le> 32")
  case True
  with unat_less_pow[of 32 x] show ?thesis
    by (simp add: num_digits_def num_digits_u32_length unat_ucast_small)
next
  case False
  with assms unat_less_pow[of 64 x] show ?thesis
    by (simp add: num_digits_def num_digits_u64_length unat_ucast_small)
qed

lemma num_digits_le_20:
  assumes "LENGTH('a::len) \<le> 64"
  shows "num_digits (x :: 'a word) \<le> 20"
  using unat_less_pow[OF assms, of x] num_digits_length[OF assms, of x]
    length_dec_string_le[of 20 "unat x"] by simp

section \<open>Writing\<close>

text \<open>
  The \<open>do\<close>-loop of both emitters: store the last digit at \<open>*--p\<close> until the value is 0. \<open>p\<close> is the
  offset in the span; storing before its start has no defined result.
\<close>

function fill_digits :: "bytes \<Rightarrow> nat \<Rightarrow> 'a::len word \<Rightarrow> bytes option" where
  "fill_digits cs p value =
     (if p = 0 then None
      else
        let cs = cs[p - 1 := dec_digit (unat (value mod 10))]; value = value div 10
        in if value > 0 then fill_digits cs (p - 1) value else Some cs)"
  by pat_completeness auto
termination
  by (relation "measure (\<lambda>(cs, p, value). p)") auto

declare fill_digits.simps [simp del]

definition write_unsigned :: "'b buffer_ops \<Rightarrow> 'b \<Rightarrow> 'a::len word \<Rightarrow> 'b option" where
  "write_unsigned ops b value =
     (if op_bad ops b then Some b
      else
        let (b, span) = op_span ops b; len = num_digits value in
        if len > length span then Some (fst (buf_fail ops b))
        else do {
          cs \<leftarrow> fill_digits span len value;
          Some (op_commit ops (op_store ops b cs) len)
        })"

text \<open>\<open>value < 0\<close> is the sign bit; \<open>0 - static_cast<UIntT>(value)\<close> is the two's complement negation.\<close>

definition write_signed :: "'b buffer_ops \<Rightarrow> 'b \<Rightarrow> 'a::len word \<Rightarrow> 'b option" where
  "write_signed ops b value =
     (if op_bad ops b then Some b
      else
        let (b, span) = op_span ops b;
            neg = sint value < 0;
            uval = (if neg then 0 - value else value);
            digits = num_digits uval;
            len = digits + (if neg then 1 else 0) in
        if len > length span then Some (fst (buf_fail ops b))
        else do {
          cs \<leftarrow> fill_digits span len uval;
          let cs = (if neg then cs[0 := CHR ''-''] else cs);
          Some (op_commit ops (op_store ops b cs) len)
        })"

section \<open>The emitters write decimal notation\<close>

lemma unat_digit:
  assumes "8 \<le> LENGTH('a::len)"
  shows "unat ((x :: 'a word) mod 10) = unat x mod 10" "unat (x div 10) = unat x div 10"
proof -
  have "(2 :: nat) ^ 8 \<le> 2 ^ LENGTH('a)" using assms by (intro power_increasing) auto
  then have "unat (10 :: 'a word) = 10"
    by (simp add: unsigned_numeral take_bit_nat_eq_self)
  then show "unat (x mod 10) = unat x mod 10" "unat (x div 10) = unat x div 10"
    by (simp_all add: unat_mod unat_div)
qed

lemma fill_digits_dec:
  fixes v :: "'a::len word"
  assumes "8 \<le> LENGTH('a)" "length (dec_string (unat v)) \<le> p" "p \<le> length cs"
  shows "fill_digits cs p v =
    Some (take (p - length (dec_string (unat v))) cs @ dec_string (unat v) @ drop p cs)"
  using assms(2,3)
proof (induction cs p v rule: fill_digits.induct)
  case (1 cs p v)
  let ?n = "unat v" and ?cs = "cs[p - 1 := dec_digit (unat (v mod 10))]"
  have p: "0 < p" using "1.prems" length_dec_string_pos[of ?n] by linarith
  note d = unat_digit[OF assms(1), of v]
  have last: "drop (p - 1) ?cs = dec_digit (?n mod 10) # drop p cs"
    using p "1.prems"(2) d by (simp add: drop_update_swap Cons_nth_drop_Suc[symmetric])
  show ?case
  proof (cases "?n < 10")
    case True
    then have "\<not> v div 10 > 0" using d(2) by (simp add: word_less_nat_alt)
    moreover have "dec_string ?n = [dec_digit ?n]"
      using True by (subst dec_string.simps) simp
    moreover have "?cs = take (p - 1) cs @ drop (p - 1) ?cs"
      by (metis append_take_drop_id take_update_cancel order_refl)
    ultimately show ?thesis
      using p True last by (subst fill_digits.simps) simp
  next
    case False
    then have gt: "v div 10 > 0" using d(2) by (simp add: word_less_nat_alt div_greater_zero_iff)
    have dec: "dec_string ?n = dec_string (unat (v div 10)) @ [dec_digit (?n mod 10)]"
      using False d(2) by (subst dec_string.simps) simp
    have "fill_digits ?cs (p - 1) (v div 10) =
        Some (take (p - 1 - length (dec_string (unat (v div 10)))) ?cs
          @ dec_string (unat (v div 10)) @ drop (p - 1) ?cs)"
      using "1.prems" dec p gt by (intro "1.IH") auto
    with p gt dec last show ?thesis
      by (subst fill_digits.simps) (simp add: Let_def)
  qed
qed

text \<open>The magnitude of a negative value, in two's complement, and its number of digits.\<close>

lemma unat_of_int_small:
  "0 \<le> k \<Longrightarrow> k < 2 ^ LENGTH('a::len) \<Longrightarrow> unat (word_of_int k :: 'a word) = nat k"
  by (simp add: unat_eq_nat_uint uint_word_of_int_eq take_bit_int_eq_self)

lemma sint_bound: "\<bar>sint (v :: 'a::len word)\<bar> \<le> 2 ^ (LENGTH('a) - 1)"
  using sint_ge[of v] sint_lt[of v] by linarith

lemma unat_magnitude:
  fixes v :: "'a::len word"
  shows "unat (if sint v < 0 then 0 - v else v) = nat \<bar>sint v\<bar>"
proof -
  have "(2 :: int) ^ (LENGTH('a) - 1) < 2 ^ LENGTH('a)"
    by (intro power_strict_increasing) (auto simp: Suc_leI)
  then have "\<bar>sint v\<bar> < 2 ^ LENGTH('a)" using sint_bound[of v] by linarith
  then have "unat (word_of_int \<bar>sint v\<bar> :: 'a word) = nat \<bar>sint v\<bar>"
    by (intro unat_of_int_small) auto
  moreover have "word_of_int \<bar>sint v\<bar> = (if sint v < 0 then 0 - v else v)"
    by (simp add: abs_if)
  ultimately show ?thesis by simp
qed

lemma num_digits_magnitude:
  fixes v :: "'a::len word"
  assumes "LENGTH('a) \<le> 64"
  shows "num_digits (if sint v < 0 then 0 - v else v) \<le> 19"
proof -
  have "(2 :: int) ^ (LENGTH('a) - 1) \<le> 2 ^ 63" using assms by (intro power_increasing) auto
  then have "nat \<bar>sint v\<bar> < 10 ^ 19" using sint_bound[of v] by simp
  then show ?thesis
    using length_dec_string_le[of 19 "nat \<bar>sint v\<bar>"]
    by (simp only: num_digits_length[OF assms] unat_magnitude)
qed

context buffer
begin

lemma write_unsigned_emits:
  fixes v :: "'a::len word"
  assumes "ok b" "8 \<le> LENGTH('a)" "LENGTH('a) \<le> 64" "20 \<le> window b"
  shows "\<exists>b'. write_unsigned ops b v = Some b' \<and> emits 0 b (dec_string (unat v)) b'"
proof (cases "bad b")
  case True
  with assms(1) show ?thesis by (simp add: write_unsigned_def emits_bad)
next
  case nb: False
  let ?out = "dec_string (unat v)"
  note len = num_digits_length[OF assms(3), of v] num_digits_le_20[OF assms(3), of v]
  obtain b1 cs where sp: "op_span ops b = (b1, cs)" by fastforce
  have win: "enat (length ?out + 0) \<le> window b"
    using assms(4) len by (cases "window b") (auto simp: numeral_eq_enat)
  show ?thesis
  proof (cases "num_digits v > length cs")
    case True
    with nb sp fail_emits[OF assms(1) sp win] len show ?thesis by (simp add: write_unsigned_def)
  next
    case False
    then have fits: "length ?out \<le> length cs" using len by simp
    with fill_digits_dec[OF assms(2), of v "num_digits v" cs] len
    have fill: "fill_digits cs (num_digits v) v = Some (?out @ drop (length ?out) cs)" by simp
    then have "write_unsigned ops b v =
        Some (op_commit ops (op_store ops b1 (?out @ drop (length ?out) cs)) (length ?out))"
      using nb sp False len by (simp add: write_unsigned_def Let_def)
    then show ?thesis using commit_text_emits[OF assms(1) nb sp fits] by blast
  qed
qed

lemma write_signed_emits:
  fixes v :: "'a::len word"
  assumes "ok b" "8 \<le> LENGTH('a)" "LENGTH('a) \<le> 64" "20 \<le> window b"
  shows "\<exists>b'. write_signed ops b v = Some b' \<and> emits 0 b (int_string (sint v)) b'"
proof (cases "bad b")
  case True
  with assms(1) show ?thesis by (simp add: write_signed_def emits_bad)
next
  case nb: False
  let ?neg = "sint v < 0" and ?out = "int_string (sint v)"
  let ?uval = "if ?neg then 0 - v else v" and ?sign = "if ?neg then 1 else 0 :: nat"
  let ?len = "num_digits ?uval + ?sign"
  have out: "?out = (if ?neg then [CHR ''-''] else []) @ dec_string (unat ?uval)"
    using unat_magnitude[of v] by (auto simp: int_string_def)
  have len: "length ?out = ?len" "length ?out \<le> 20"
    using num_digits_length[OF assms(3), of ?uval] num_digits_magnitude[OF assms(3), of v]
    by (auto simp: out)
  obtain b1 cs where sp: "op_span ops b = (b1, cs)" by fastforce
  have win: "enat (length ?out + 0) \<le> window b"
    using assms(4) len by (cases "window b") (auto simp: numeral_eq_enat)
  show ?thesis
  proof (cases "?len > length cs")
    case True
    with nb sp fail_emits[OF assms(1) sp win] len show ?thesis
      by (simp add: write_signed_def Let_def)
  next
    case False
    then have fits: "length ?out \<le> length cs" using len by simp
    have "fill_digits cs ?len ?uval = Some (take ?sign cs @ dec_string (unat ?uval) @ drop ?len cs)"
      using fill_digits_dec[OF assms(2), of ?uval ?len cs] num_digits_length[OF assms(3), of ?uval] False
      by simp
    moreover have "(take 1 cs @ s)[0 := CHR ''-''] = CHR ''-'' # s" if "?neg" for s
      using fits len that by (cases cs) auto
    ultimately have "write_signed ops b v =
        Some (op_commit ops (op_store ops b1 (?out @ drop (length ?out) cs)) (length ?out))"
      using nb sp False len by (auto simp: write_signed_def Let_def out)
    then show ?thesis using commit_text_emits[OF assms(1) nb sp fits] by blast
  qed
qed

end

section \<open>Reading\<close>

text \<open>The integral target types of \<open>coerce_int\<close>: signedness and width in bits.\<close>

datatype int_type = Signed nat | Unsigned nat

fun in_range :: "int_type \<Rightarrow> int \<Rightarrow> bool" where
  "in_range (Signed w) i \<longleftrightarrow> - (2 ^ (w - 1)) \<le> i \<and> i < 2 ^ (w - 1)"
| "in_range (Unsigned w) i \<longleftrightarrow> 0 \<le> i \<and> i < 2 ^ w"

definition is_digit :: "char \<Rightarrow> bool" where
  "is_digit c \<longleftrightarrow> 48 \<le> byte_of c \<and> byte_of c \<le> 57"

definition dec_value :: "bytes \<Rightarrow> nat" where
  "dec_value ds = foldl (\<lambda>a c. 10 * a + (byte_of c - 48)) 0 ds"

text \<open>
  \<open>std::from_chars\<close> for base 10: a minus sign is accepted for signed types only, no plus sign and
  no white space; the longest run of digits counts. \<^const>\<open>None\<close> is an error return (no digits, or a
  value outside of the type), which leaves the target unmodified.
\<close>

definition from_chars_int :: "int_type \<Rightarrow> bytes \<Rightarrow> int option" where
  "from_chars_int ty s =
     (let neg = (case ty of Signed _ \<Rightarrow> (case s of c # _ \<Rightarrow> c = CHR ''-'' | [] \<Rightarrow> False)
                 | Unsigned _ \<Rightarrow> False);
          ds = takeWhile is_digit (if neg then tl s else s);
          v = (if neg then - int (dec_value ds) else int (dec_value ds))
      in if ds = [] then None else if in_range ty v then Some v else None)"

definition coerce_int :: "int_type \<Rightarrow> bytes \<Rightarrow> bool \<Rightarrow> int \<Rightarrow> int" where
  "coerce_int ty raw_val is_null target =
     (if is_null then 0
      else case from_chars_int ty raw_val of Some v \<Rightarrow> v | None \<Rightarrow> target)"

lemma dec_value_snoc: "dec_value (s @ [c]) = 10 * dec_value s + (byte_of c - 48)"
  by (simp add: dec_value_def)

lemma byte_of_dec_digit: "d < 10 \<Longrightarrow> byte_of (dec_digit d) = 48 + d"
  by (simp add: dec_digit_def)

lemma dec_value_dec_string [simp]: "dec_value (dec_string n) = n"
proof (induction n rule: dec_string.induct)
  case (1 n)
  then show ?case
    by (cases "n < 10"; subst dec_string.simps)
      (simp_all add: dec_value_snoc byte_of_dec_digit, simp add: dec_value_def byte_of_dec_digit)
qed

lemma is_digit_dec_string: "\<forall>c\<in>set (dec_string n). is_digit c"
proof (induction n rule: dec_string.induct)
  case (1 n)
  then show ?case
    by (subst dec_string.simps) (auto simp: is_digit_def byte_of_dec_digit)
qed

text \<open>What \<open>from_chars\<close> sees of a printed number that is followed by a delimiter.\<close>

lemma takeWhile_dec_string:
  "rest = [] \<or> \<not> is_digit (hd rest) \<Longrightarrow> takeWhile is_digit (dec_string n @ rest) = dec_string n"
  using is_digit_dec_string[of n] by (cases rest) (simp_all add: takeWhile_append2)

lemma dec_string_no_sign: "dec_string n \<noteq> CHR ''-'' # s"
  using is_digit_dec_string[of n] by (auto simp: is_digit_def)

lemma from_chars_int_string:
  assumes "in_range ty i" "rest = [] \<or> \<not> is_digit (hd rest)"
  shows "from_chars_int ty (int_string i @ rest) = Some i"
proof (cases "i < 0")
  case True
  with assms(1) obtain w where "ty = Signed w" by (cases ty) auto
  with True assms show ?thesis
    by (simp add: from_chars_int_def int_string_def takeWhile_dec_string)
next
  case False
  have "\<not> (case dec_string (nat i) @ rest of c # _ \<Rightarrow> c = CHR ''-'' | [] \<Rightarrow> False)"
    using dec_string_no_sign[of "nat i"] by (cases "dec_string (nat i)") auto
  with False assms show ?thesis
    by (auto simp: from_chars_int_def int_string_def takeWhile_dec_string split: int_type.splits)
qed

section \<open>Properties\<close>

lemma int_string_word_length:
  fixes v :: "'a::len word"
  assumes "LENGTH('a) \<le> 64"
  shows "length (int_string (sint v)) \<le> 20"
proof -
  have "(2 :: int) ^ (LENGTH('a) - 1) \<le> 2 ^ 63" using assms by (intro power_increasing) auto
  then have "nat \<bar>sint v\<bar> < 10 ^ 19" using sint_bound[of v] by simp
  then have "length (dec_string (nat \<bar>sint v\<bar>)) \<le> 19"
    using length_dec_string_le[of 19 "nat \<bar>sint v\<bar>"] by simp
  then show ?thesis by (auto simp: int_string_def abs_if split: if_splits)
qed

text \<open>The digit counters of 32 and 64 bits, nested comparisons with the powers of ten, give the
  length of the decimal notation of every value of the type.\<close>

theorem num_digits_decimal:
  "num_digits_u32 x = length (dec_string (unat x)) \<and> num_digits_u64 y = length (dec_string (unat y))"
  using num_digits_u32_length num_digits_u64_length by blast

text \<open>C17: \<open>write_signed\<close> at every width from 8 to 64 bits appends the decimal notation of the value, the
  most negative one included, to a \<open>StackBuffer\<close> with room for it, and otherwise reports the failure;
  the digits are stored inside the write span, so that there is always a defined result.\<close>

theorem stack_write_signed:
  fixes v :: "'a::len word"
  assumes "sb_ok b" "\<not> sb_bad b" "8 \<le> LENGTH('a)" "LENGTH('a) \<le> 64"
  shows "\<exists>b'. write_signed stack_ops b v = Some b' \<and> sb_ok b' \<and>
    (if sb_head b + length (int_string (sint v)) \<le> sb_max b
     then \<not> sb_bad b' \<and> sb_view b' = sb_view b @ int_string (sint v) else sb_bad b')"
proof -
  obtain b' where w: "write_signed stack_ops b v = Some b'" "stackb.emits 0 b (int_string (sint v)) b'"
    using stackb.write_signed_emits[OF assms(1,3,4)] by auto
  show ?thesis using w(1) stack_outcome[OF w(2) assms(1,2)] by (auto simp: not_le)
qed

theorem stack_write_signed_witness:
  "\<exists>b'. write_signed stack_ops (stack_buffer_new 4) (-128 :: 8 word) = Some b' \<and> sb_view b' = ''-128''"
  using stack_write_signed[of "stack_buffer_new 4" "-128 :: 8 word"]
  by (auto simp: int_string_def dec_string.simps dec_digit_def char_of_def bit_0)

text \<open>Reading back with \<open>coerce_int\<close> the text that \<open>write_signed\<close> has put into an empty
  \<open>StackBuffer\<close> gives the value, for every value of every width.\<close>

theorem signed_round_trip:
  fixes v :: "'a::len word"
  assumes "8 \<le> LENGTH('a)" "LENGTH('a) \<le> 64" "20 \<le> n"
  shows "\<exists>b'. write_signed stack_ops (stack_buffer_new n) v = Some b' \<and>
    coerce_int (Signed LENGTH('a)) (sb_view b') False t = sint v"
proof -
  obtain b' where w: "write_signed stack_ops (stack_buffer_new n) v = Some b'"
    "stackb.emits 0 (stack_buffer_new n) (int_string (sint v)) b'"
    using stackb.write_signed_emits[of "stack_buffer_new n" v] assms(1,2) by auto
  have "length (int_string (sint v)) \<le> 20"
    by (rule int_string_word_length[OF assms(2)])
  then have "sb_view b' = int_string (sint v)"
    using stack_outcome(3)[OF w(2)] assms(3) by simp
  moreover have "in_range (Signed LENGTH('a)) (sint v)"
    using sint_ge[of v] sint_lt[of v] by simp
  ultimately show ?thesis
    using w(1) from_chars_int_string[of "Signed LENGTH('a)" "sint v" "[]"] by (simp add: coerce_int_def)
qed

theorem signed_round_trip_witness:
  "\<exists>b'. write_signed stack_ops (stack_buffer_new 20) (- 9223372036854775808 :: 64 word) = Some b' \<and>
    coerce_int (Signed 64) (sb_view b') False 0 = - 9223372036854775808"
  using signed_round_trip[of 20 "- 9223372036854775808 :: 64 word" 0] by simp

end
