(* ===== verification/Printer.thy ===== *)
theory Printer
  imports Escape Numbers
begin

text \<open>
  \<open>Printer\<close> (\<open>stack_json/printer.hpp\<close>, \<open>printer.cpp\<close>): \<open>printf\<close>-style output straight into the
  unused tail of a buffer. \<open>vprint\<close> lets \<open>vsnprintf\<close> write into the span, counts the characters
  that escaping adds and then expands the text in place, from its end backwards. The expansion is
  shown to be the reference \<^const>\<open>escape\<close> and never to overwrite a character it still has to
  read.

  What \<open>vsnprintf\<close> renders is a parameter: the text that the format and its arguments denote, or
  \<^const>\<open>None\<close> for an encoding error. What it stores for a given text is modelled.
\<close>

section \<open>vsnprintf into a span\<close>

definition vsnprintf :: "bytes \<Rightarrow> bytes option \<Rightarrow> bytes \<times> int" where
  "vsnprintf cs formatted =
     (case formatted of
        None \<Rightarrow> (cs, -1)
      | Some s \<Rightarrow> (blit cs 0 (take (length cs - 1) s @ [ch_nul]), int (length s)))"

section \<open>Expansion in place\<close>

text \<open>The characters with a two-character escape, and the letter of that escape.\<close>

definition has_short_escape :: "char \<Rightarrow> bool" where
  "has_short_escape c \<longleftrightarrow> c = ch_quote \<or> c = ch_bslash \<or> c = ch_bs \<or> c = ch_ff \<or> c = ch_lf
     \<or> c = ch_cr \<or> c = ch_tab"

definition short_letter :: "char \<Rightarrow> char" where
  "short_letter c =
     (if c = ch_quote then ch_quote else if c = ch_bslash then ch_bslash
      else if c = ch_bs then CHR ''b'' else if c = ch_ff then CHR ''f''
      else if c = ch_lf then CHR ''n'' else if c = ch_cr then CHR ''r'' else CHR ''t'')"

text \<open>First pass: the extra characters.\<close>

definition extra_of :: "char \<Rightarrow> nat" where
  "extra_of c = (if has_short_escape c then 1 else if byte_of c \<le> 31 then 5 else 0)"

fun count_extra :: "bytes \<Rightarrow> nat \<Rightarrow> nat \<Rightarrow> nat" where
  "count_extra cs i 0 = 0"
| "count_extra cs i (Suc n) = extra_of (cs ! i) + count_extra cs (i + 1) n"

text \<open>
  Second pass. \<open>span[write_idx--] = c\<close> is \<open>put\<close>; an index outside of the span has no defined
  result. (After the last store \<open>write_idx\<close> may go below 0; in C++ it wraps, and is not used.)
\<close>

definition put :: "bytes \<Rightarrow> int \<Rightarrow> char \<Rightarrow> bytes option" where
  "put cs i c = (if 0 \<le> i \<and> i < int (length cs) then Some (cs[nat i := c]) else None)"

fun put_back :: "bytes \<Rightarrow> int \<Rightarrow> bytes \<Rightarrow> (bytes \<times> int) option" where
  "put_back cs w [] = Some (cs, w)"
| "put_back cs w (c # s) = do { cs \<leftarrow> put cs w c; put_back cs (w - 1) s }"

fun expand_loop :: "bytes \<Rightarrow> nat \<Rightarrow> int \<Rightarrow> bytes option" where
  "expand_loop cs r w =
     (if r \<ge> length cs then None
      else
        let c = cs ! r in
        do {
          (cs, w) \<leftarrow>
            (if has_short_escape c then put_back cs w [short_letter c, ch_bslash]
             else if byte_of c \<le> 31 then put_back cs w (rev (ch_bslash # CHR ''u'' # hex4 (byte_of c)))
             else put_back cs w [c]);
          if r = 0 then Some cs else expand_loop cs (r - 1) w
        })"

declare expand_loop.simps [simp del]

definition vprint :: "'b buffer_ops \<Rightarrow> bool \<Rightarrow> 'b \<Rightarrow> bytes option \<Rightarrow> ('b \<times> nat) option" where
  "vprint ops escaped b formatted =
     (if op_bad ops b then Some (b, 0)
      else
        let (b, cs) = op_span ops b in
        if cs = [] then Some (buf_fail ops b)
        else
          let (cs, written) = vsnprintf cs formatted; b = op_store ops b cs in
          if written < 0 \<or> nat written \<ge> length cs then Some (buf_fail ops b)
          else if \<not> escaped then Some (op_commit ops b (nat written), nat written)
          else
            let L = nat written; E = count_extra cs 0 L in
            if E > 0 then
              if L + E > length cs then Some (buf_fail ops b)
              else do {
                cs \<leftarrow> expand_loop cs (L - 1) (int (L + E) - 1);
                Some (op_commit ops (op_store ops b cs) (L + E), L + E)
              }
            else Some (op_commit ops b (L + E), L + E))"

text \<open>\<open>Printer::operator()\<close>, \<open>write_raw\<close> and the static helpers.\<close>

definition print_call :: "'b buffer_ops \<Rightarrow> 'b \<Rightarrow> bytes option \<Rightarrow> ('b \<times> nat) option" where
  "print_call ops b formatted = vprint ops True b formatted"

definition write_raw :: "'b buffer_ops \<Rightarrow> 'b \<Rightarrow> bytes option \<Rightarrow> ('b \<times> nat) option" where
  "write_raw ops b formatted = vprint ops False b formatted"

definition printq :: "'b buffer_ops \<Rightarrow> 'b \<Rightarrow> bytes option \<Rightarrow> ('b \<times> nat) option" where
  "printq ops b formatted = vprint ops True b formatted"

definition printx :: "'b buffer_ops \<Rightarrow> 'b \<Rightarrow> bytes option \<Rightarrow> ('b \<times> nat) option" where
  "printx ops b formatted = vprint ops False b formatted"

text \<open>\<open>print_utctime\<close>: the broken-down time is \<open>gmtime_r\<close>'s and the text \<open>strftime\<close>'s, so the
  text is a parameter; \<^const>\<open>None\<close> is a failed \<open>gmtime_r\<close>.\<close>

definition print_utctime :: "'b buffer_ops \<Rightarrow> 'b \<Rightarrow> bytes option \<Rightarrow> ('b \<times> nat) option" where
  "print_utctime ops b formatted =
     (case formatted of None \<Rightarrow> Some (b, 0) | Some s \<Rightarrow> op_write ops b s)"

text \<open>\<open>printt\<close> by the type of its argument; \<open>%g\<close> is rendered by the C library.\<close>

datatype print_arg = PrintString bytes | PrintIntegral int | PrintFloating "bytes option"

fun printt :: "'b buffer_ops \<Rightarrow> 'b \<Rightarrow> print_arg \<Rightarrow> ('b \<times> nat) option" where
  "printt ops b (PrintString s) = op_write ops b s"
| "printt ops b (PrintIntegral i) = printx ops b (Some (int_string i))"
| "printt ops b (PrintFloating formatted) = printx ops b formatted"

section \<open>The expansion is the reference escape\<close>

lemma short_escape_char:
  "has_short_escape c \<Longrightarrow> escape_char c = [ch_bslash, short_letter c]"
  by (auto simp: has_short_escape_def escape_char_def needs_escape_def escape_seq_def short_letter_def)

lemma long_escape_char:
  "\<not> has_short_escape c \<Longrightarrow>
    escape_char c = (if byte_of c \<le> 31 then ch_bslash # CHR ''u'' # hex4 (byte_of c) else [c])"
  by (auto simp: has_short_escape_def escape_char_def needs_escape_def escape_seq_def)

lemma length_escape_char_extra: "length (escape_char c) = 1 + extra_of c"
  by (simp add: extra_of_def short_escape_char long_escape_char)

lemma put_back_append:
  "length s = length ys \<Longrightarrow>
    put_back (xs @ ys @ zs) (int (length xs + length ys) - 1) s = Some (xs @ rev s @ zs, int (length xs) - 1)"
proof (induction s arbitrary: ys zs)
  case (Cons c s)
  then obtain ys' y where ys: "ys = ys' @ [y]" by (cases ys rule: rev_cases) auto
  have "put (xs @ ys @ zs) (int (length xs + length ys) - 1) c = Some (xs @ ys' @ c # zs)"
    by (simp add: put_def ys nat_add_distrib list_update_append)
  with Cons.IH[of ys' "c # zs"] Cons.prems show ?case by (simp add: ys)
qed simp

lemma expand_step:
  "(if has_short_escape c then put_back cs w [short_letter c, ch_bslash]
    else if byte_of c \<le> 31 then put_back cs w (rev (ch_bslash # CHR ''u'' # hex4 (byte_of c)))
    else put_back cs w [c]) = put_back cs w (rev (escape_char c))"
  by (simp add: short_escape_char long_escape_char)

lemma expand_loop_escape:
  assumes "pre \<noteq> []" "length pre + length mid = length (escape pre)"
  shows "expand_loop (pre @ mid @ suf) (length pre - 1) (int (length (escape pre)) - 1) =
    Some (escape pre @ suf)"
  using assms
proof (induction pre arbitrary: mid suf rule: rev_induct)
  case (snoc c p)
  let ?e = "escape_char c"
  have len: "length p + 1 + length mid = length (escape p) + length ?e"
    using snoc.prems(2) by simp
  have ge: "length p \<le> length (escape p)" using length_escape by blast
  define mid' where "mid' = take (length (escape p) - length p) (c # mid)"
  define ys where "ys = drop (length (escape p) - length p) (c # mid)"
  have ys: "c # mid = mid' @ ys" "length mid' = length (escape p) - length p" "length ys = length ?e"
    using len ge by (auto simp: mid'_def ys_def)
  have "put_back ((p @ mid') @ ys @ suf) (int (length (p @ mid') + length ys) - 1) (rev ?e) =
      Some ((p @ mid') @ ?e @ suf, int (length (p @ mid')) - 1)"
    using put_back_append[of "rev ?e" ys "p @ mid'" suf] ys(3) by simp
  moreover have "mid' @ ys @ suf = c # mid @ suf"
    using ys(1) by (metis append_Cons append_assoc)
  moreover have "int (length p) + int (length mid') = int (length (escape p))" using ys(2) ge by simp
  ultimately have step: "put_back (p @ c # mid @ suf) (int (length (escape p) + length ?e) - 1) (rev ?e)
      = Some (p @ mid' @ ?e @ suf, int (length (escape p)) - 1)"
    using ys(3) by simp
  show ?case
  proof (cases "p = []")
    case True
    with step show ?thesis
      by (subst expand_loop.simps) (simp add: expand_step True mid'_def)
  next
    case False
    with snoc.IH[OF False, of mid' "?e @ suf"] ys(2) ge step show ?thesis
      by (subst expand_loop.simps) (simp add: expand_step)
  qed
qed simp

lemma count_extra_eq:
  "i + n \<le> length cs \<Longrightarrow> n + count_extra cs i n = length (escape (substr cs i n))"
proof (induction cs i n rule: count_extra.induct)
  case (2 cs i n)
  then have "substr cs i (Suc n) = cs ! i # substr cs (i + 1) n"
    by (simp add: substr_def Cons_nth_drop_Suc[symmetric])
  with 2 show ?case by (simp add: length_escape_char_extra)
qed simp

lemma escape_no_extra: "length (escape s) = length s \<Longrightarrow> escape s = s"
proof (induction s)
  case (Cons c s)
  have "length (escape_char c) = 1" "length (escape s) = length s"
    using Cons.prems length_escape_char[of c] length_escape[of s] by auto
  moreover from this(1) have "escape_char c = [c]"
    by (cases "needs_escape c") (simp_all add: escape_char_def escape_seq_def split: if_splits)
  ultimately show ?case using Cons.IH by simp
qed simp

text \<open>A span that begins with the text is expanded in place when the expansion fits.\<close>

lemma expand_in_span:
  assumes "cs = s @ rest" "s \<noteq> []" "length (escape s) \<le> length cs"
  shows "expand_loop cs (length s - 1) (int (length (escape s)) - 1) = Some (escape s @ drop (length (escape s)) cs)"
proof -
  have "cs = s @ take (length (escape s) - length s) rest @ drop (length (escape s)) cs"
    using assms(1,3) length_escape[of s]
    by (metis append_eq_conv_conj append_take_drop_id drop_drop le_add_diff_inverse2)
  with expand_loop_escape[OF assms(2), of "take (length (escape s) - length s) rest" "drop (length (escape s)) cs"]
  show ?thesis using assms(1,3) length_escape[of s] by simp
qed

context buffer
begin

lemma fail_after_store_emits:
  assumes "ok b" "op_span ops b = (b1, cs)" "length cs' = length cs"
    and "enat (length out + k) \<le> window b" "length cs < length out + k"
  shows "emits k b out (fst (buf_fail ops (op_store ops b1 cs')))"
proof -
  have "\<not> enat (length (content b) + length out + k) \<le> cap b"
    using span_window[OF assms(1,2,4)] assms(5) by (auto simp: add.assoc)
  then show ?thesis
    using emits_fail[of "op_store ops b1 cs'" out k] store_only[OF assms(1-3) refl]
      span_state[OF assms(1,2)] by (simp add: buf_fail_def emits_def)
qed

text \<open>
  \<open>vsnprintf\<close> needs room for its terminator, so that one more character than the text must fit:
  the slack is 1.
\<close>

lemma vprint_fails:
  assumes "ok b" "\<not> bad b" "op_span ops b = (b1, cs)" "enat (length (if escaped then escape s else s) + 1) \<le> window b"
    and "cs = [] \<or> length cs \<le> length s \<or> escaped \<and> length cs < length (escape s)"
  shows "\<exists>b'. vprint ops escaped b (Some s) = Some (b', 0) \<and> emits 1 b (if escaped then escape s else s) b' \<and> bad b'"
proof (cases "cs = []")
  case True
  with assms(2,3) fail_emits[OF assms(1,3,4)] span_state[OF assms(1,3)] set_bad[of b1 True]
  show ?thesis by (simp add: vprint_def buf_fail_def)
next
  case False
  define cs1 where "cs1 = blit cs 0 (take (length cs - 1) s @ [ch_nul])"
  have vs: "vsnprintf cs (Some s) = (cs1, int (length s))" by (simp add: vsnprintf_def cs1_def)
  have l: "length cs1 = length cs" using False by (cases cs) (auto simp: cs1_def)
  have "length cs < length (if escaped then escape s else s) + 1" using assms(5) False length_escape[of s] by auto
  then have failed: "emits 1 b (if escaped then escape s else s) (fst (buf_fail ops (op_store ops b1 cs1)))"
      "bad (fst (buf_fail ops (op_store ops b1 cs1)))"
    using fail_after_store_emits[OF assms(1,3) l assms(4)] store_only[OF assms(1,3) l refl] set_bad
    by (simp_all add: buf_fail_def)
  have "length s + count_extra cs1 0 (length s) = length (escape s)" if "length s < length cs"
    using count_extra_eq[of 0 "length s" cs1] that l by (simp add: cs1_def substr_def)
  then have "vprint ops escaped b (Some s) = Some (buf_fail ops (op_store ops b1 cs1))"
    using assms(2,3,5) False vs l length_escape[of s] by (auto simp: vprint_def Let_def)
  with failed show ?thesis by (simp add: buf_fail_def)
qed

lemma vprint_stores:
  assumes "ok b" "\<not> bad b" "op_span ops b = (b1, cs)" "length s < length cs" "escaped \<longrightarrow> length (escape s) \<le> length cs"
  shows "\<exists>b'. vprint ops escaped b (Some s) = Some (b', length (if escaped then escape s else s)) \<and>
    emits 1 b (if escaped then escape s else s) b' \<and> \<not> bad b'"
proof -
  let ?out = "if escaped then escape s else s"
  define cs1 where "cs1 = blit cs 0 (take (length cs - 1) s @ [ch_nul])"
  define cs2 where "cs2 = (if escaped then escape s @ drop (length (escape s)) cs1 else cs1)"
  have vs: "vsnprintf cs (Some s) = (cs1, int (length s))" by (simp add: vsnprintf_def cs1_def)
  have cs1: "cs1 = s @ ch_nul # drop (length s + 1) cs" "length cs1 = length cs"
    using assms(4) by (auto simp: cs1_def)
  have E: "length s + count_extra cs1 0 (length s) = length (escape s)"
    using count_extra_eq[of 0 "length s" cs1] cs1 assms(4) by (simp add: substr_def)
  have cs2: "length cs2 = length cs" "length ?out \<le> length cs" "take (length ?out) cs2 = ?out"
    using cs1 assms(4,5) by (auto simp: cs2_def)
  have "s @ drop (length s) cs1 = cs1" by (simp add: cs1(1))
  then have plain: "cs2 = cs1 \<and> length ?out = length s" if "count_extra cs1 0 (length s) = 0"
    using escape_no_extra[of s] E that by (simp add: cs2_def)
  have loop: "escaped \<Longrightarrow> count_extra cs1 0 (length s) > 0 \<Longrightarrow>
      expand_loop cs1 (length s - 1) (int (length (escape s)) - 1) = Some cs2"
    using expand_in_span[OF cs1(1)] assms(5) cs1(2) by (cases s) (auto simp: cs2_def)
  have "op_store ops (op_store ops b1 cs1) cs2 = op_store ops b1 cs2"
    using store_store[OF assms(1,3)] cs1 cs2(1) by simp
  moreover have "\<not> escaped \<Longrightarrow> cs2 = cs1" by (simp add: cs2_def)
  ultimately have "vprint ops escaped b (Some s) = Some (op_commit ops (op_store ops b1 cs2) (length ?out), length ?out)"
    using assms(2-5) vs cs1(2) E loop plain
    by (cases escaped; cases "count_extra cs1 0 (length s) = 0") (auto simp: vprint_def Let_def)
  with commit_emits[OF assms(1-3) cs2] show ?thesis by blast
qed

lemma vprint_emits:
  assumes "ok b" "enat (length (if escaped then escape s else s) + 1) \<le> window b"
  shows "\<exists>b' n. vprint ops escaped b (Some s) = Some (b', n) \<and>
    emits 1 b (if escaped then escape s else s) b' \<and>
    (n = length (if escaped then escape s else s) \<and> \<not> bad b' \<or> n = 0 \<and> bad b')"
proof (cases "bad b")
  case True
  with assms(1) show ?thesis by (simp add: vprint_def emits_bad)
next
  case nb: False
  obtain b1 cs where sp: "op_span ops b = (b1, cs)" by fastforce
  consider "cs = [] \<or> length cs \<le> length s \<or> escaped \<and> length cs < length (escape s)"
    | "length s < length cs" "escaped \<longrightarrow> length (escape s) \<le> length cs" by fastforce
  then show ?thesis using vprint_fails[OF assms(1) nb sp assms(2)] vprint_stores[OF assms(1) nb sp] by cases blast+
qed

end

section \<open>Properties\<close>

text \<open>C16: The in-place expansion of a \<open>Printer\<close>: for a text of \<open>L\<close> characters at the start of the span
  whose escaped form fits, the backward pass ends with the escaped form at the start of the span; it
  never stores outside of the span and never overwrites a character that it has not read yet.\<close>

theorem expansion_in_place:
  assumes "s \<noteq> []" "length (escape s) \<le> length cs" "take (length s) cs = s"
  shows "count_extra cs 0 (length s) = length (escape s) - length s \<and>
    expand_loop cs (length s - 1) (int (length s + count_extra cs 0 (length s)) - 1) =
      Some (escape s @ drop (length (escape s)) cs)"
proof -
  let ?mid = "take (length (escape s) - length s) (drop (length s) cs)"
  have le: "length s \<le> length (escape s)" using length_escape by blast
  have split: "cs = s @ ?mid @ drop (length (escape s)) cs"
    using assms(3) le by (metis append_take_drop_id drop_drop le_add_diff_inverse2)
  have extra: "length s + count_extra cs 0 (length s) = length (escape s)"
    using count_extra_eq[of 0 "length s" cs] assms(2,3) le by (simp add: substr_def)
  have "length s + length ?mid = length (escape s)" using assms(2) le by simp
  from expand_loop_escape[OF assms(1) this, of "drop (length (escape s)) cs"] extra
  show ?thesis by (metis split diff_add_inverse)
qed

theorem expansion_in_place_witness:
  "expand_loop [CHR ''a'', ch_lf, ch_nul, CHR ''x''] 1 2 =
     Some [CHR ''a'', ch_bslash, CHR ''n'', CHR ''x'']"
  using expansion_in_place[of "[CHR ''a'', ch_lf]" "[CHR ''a'', ch_lf, ch_nul, CHR ''x'']"]
  by (simp add: escape_char_def needs_escape_def escape_seq_def extra_of_def has_short_escape_def)

text \<open>\<open>Printer::operator()\<close> on a \<open>DynamicBuffer\<close>: the escaped text is appended whenever it and the
  terminator of \<open>vsnprintf\<close> fit into \<open>ExpandSize\<close>; a text of more than the free tail of the vector
  fails, although \<open>write\<close> of the same text would have grown the buffer.\<close>

theorem dynamic_print:
  assumes "db_ok b" "\<not> db_bad b" "0 < db_expand b"
  shows "if length (escape s) < db_expand b
    then \<exists>b'. print_call dynamic_ops b (Some s) = Some (b', length (escape s)) \<and> \<not> db_bad b' \<and>
      db_view b' = db_view b @ escape s
    else if db_expand b \<le> length s \<and> length (db_buf b) - db_head b \<le> length s
    then \<exists>b'. print_call dynamic_ops b (Some s) = Some (b', 0) \<and> db_bad b'
    else True"
proof -
  have fits: "\<exists>b'. print_call dynamic_ops b (Some s) = Some (b', length (escape s)) \<and> \<not> db_bad b' \<and>
      db_view b' = db_view b @ escape s" if "length (escape s) < db_expand b"
  proof -
    from that dynb.vprint_emits[OF assms(1), of True s] obtain b' n where
      v: "vprint dynamic_ops True b (Some s) = Some (b', n)" "dynb.emits 1 b (escape s) b'"
      "n = length (escape s) \<and> \<not> db_bad b' \<or> n = 0 \<and> db_bad b'" by auto
    with dynamic_outcome[OF v(2) assms(2)] show ?thesis by (auto simp: print_call_def)
  qed
  have fails: "\<exists>b'. print_call dynamic_ops b (Some s) = Some (b', 0) \<and> db_bad b'"
    if "db_expand b \<le> length s" "length (db_buf b) - db_head b \<le> length s"
  proof -
    obtain b1 cs where cs: "op_span dynamic_ops b = (b1, cs)" by fastforce
    then have len: "length cs \<le> length s" "cs \<noteq> []"
      using assms(1,3) that by (auto simp: dynamic_ops_def db_span_def db_ok_def Let_def split: if_splits)
    then have "length (fst (vsnprintf cs (Some s))) = length cs"
      by (cases cs) (auto simp: vsnprintf_def)
    with cs len assms(2) show ?thesis
      by (auto simp: print_call_def vprint_def vsnprintf_def buf_fail_def dynamic_ops_def)
  qed
  from fits fails show ?thesis by simp
qed

theorem dynamic_print_witness:
  "(\<exists>b'. print_call dynamic_ops (dynamic_buffer_new 4) (Some ''ok'') = Some (b', 2) \<and> db_view b' = ''ok'') \<and>
   (\<exists>b'. print_call dynamic_ops (dynamic_buffer_new 4) (Some ''long'') = Some (b', 0) \<and> db_bad b')"
proof -
  have e: "escape ''ok'' = ''ok''" "escape ''long'' = ''long''"
    by (simp_all add: escape_char_def needs_escape_def)
  have l: "length (db_buf (dynamic_buffer_new 4)) = 4"
    by (simp add: dynamic_buffer_new_def resize_def)
  show ?thesis
    using dynamic_print[of "dynamic_buffer_new 4" "''ok''"] dynamic_print[of "dynamic_buffer_new 4" "''long''"]
    unfolding e by (auto simp: l)
qed

end
