(* ===== verification/Document.thy ===== *)
theory Document
  imports Printer
begin

text \<open>
  Documents (\<open>stack_json/path.hpp\<close>, \<open>node.hpp\<close>, \<open>document.cpp\<close>): a document is a flat list
  of nodes, each with a path and a virtual \<open>emit_value\<close>, and \<open>emit_json_nodes\<close> turns it into
  nested JSON objects in one pass per object, marking the nodes it has written. The reference is a
  tree: \<open>build\<close> groups the nodes by the first element of their paths and \<open>render\<close> prints the
  tree.
\<close>

section \<open>Paths\<close>

type_synonym path = "bytes list"

text \<open>\<open>detail::safe_string_view\<close>: a null pointer (\<^const>\<open>None\<close>) gets a visible name.\<close>

definition safe_string_view :: "bytes option \<Rightarrow> bytes" where
  "safe_string_view arg = (case arg of None \<Rightarrow> ''null_path_error'' | Some s \<Rightarrow> s)"

text \<open>\<open>path(args...)\<close> and \<open>StaticPath::operator()\<close>, which extends a path.\<close>

definition make_path :: "bytes option list \<Rightarrow> path" where
  "make_path args = map safe_string_view args"

definition extend_path :: "path \<Rightarrow> bytes option list \<Rightarrow> path" where
  "extend_path p args = p @ map safe_string_view args"

text \<open>\<open>get_element\<close> outside of the path reads past the array.\<close>

definition get_element :: "path \<Rightarrow> nat \<Rightarrow> bytes option" where
  "get_element p i = (if i < length p then Some (p ! i) else None)"

definition matches_parent :: "path \<Rightarrow> path \<Rightarrow> bool" where
  "matches_parent p parent \<longleftrightarrow>
     \<not> length p < length parent \<and> list_all (\<lambda>i. p ! i = parent ! i) [0..<length parent]"

text \<open>\<open>depth\<close>, and the conversion of a \<open>StaticPath\<close> to the \<open>PathBase\<close> that refers to its elements, through which
  \<open>StaticPath::matches_parent\<close> goes.\<close>

definition path_depth :: "path \<Rightarrow> nat" where
  "path_depth p = length p"

definition to_path :: "path \<Rightarrow> path" where
  "to_path elements = elements"

definition static_matches_parent :: "path \<Rightarrow> path \<Rightarrow> bool" where
  "static_matches_parent p parent = matches_parent (to_path p) parent"

text \<open>\<open>PathView(orig, limit)\<close>.\<close>

definition path_view :: "path \<Rightarrow> nat \<Rightarrow> path" where
  "path_view orig limit = take limit orig"

lemma matches_parent_prefix: "matches_parent p parent \<longleftrightarrow> prefix parent p"
proof
  assume "matches_parent p parent"
  then have "length parent \<le> length p" and "\<And>i. i < length parent \<Longrightarrow> p ! i = parent ! i"
    by (simp_all add: matches_parent_def list_all_iff)
  then have "take (length parent) p = parent" by (intro nth_equalityI) auto
  then show "prefix parent p" using take_is_prefix[of "length parent" p] by simp
next
  assume "prefix parent p"
  then obtain q where "p = parent @ q" by (auto simp: prefix_def)
  then show "matches_parent p parent"
    by (simp add: matches_parent_def list_all_iff nth_append)
qed

section \<open>Nodes\<close>

text \<open>
  \<open>NodeBase\<close>: the address of the object, its path, the flag \<open>omitted_\<close> and the virtual \<open>emit_value\<close>. The
  flag \<open>emitted_\<close> is the part that the traversal changes; it is passed along as a list, one flag per
  pointer of the span, which \<open>reset()\<close> clears before every nested traversal. The pointers to one object
  share its flag: \<open>on_emit\<close> sets it for all of them.
\<close>

record 'b node =
  node_id :: nat
  node_path :: path
  omitted :: bool
  emit_node :: "'b \<Rightarrow> 'b option"

text \<open>\<open>node(p, val)\<close>, \<open>node_if(condition, p, val)\<close> and the overload that omits null strings.\<close>

definition node_of :: "path \<Rightarrow> ('b \<Rightarrow> 'b option) \<Rightarrow> 'b node" where
  "node_of p e = \<lparr>node_id = 0, node_path = p, omitted = False, emit_node = e\<rparr>"

definition node_if :: "bool \<Rightarrow> path \<Rightarrow> ('b \<Rightarrow> 'b option) \<Rightarrow> 'b node" where
  "node_if condition p e = (node_of p e)\<lparr>omitted := \<not> condition\<rparr>"

definition on_emit :: "'b node list \<Rightarrow> nat \<Rightarrow> bool list \<Rightarrow> bool list" where
  "on_emit nodes i fl = map (\<lambda>(n, f). f \<or> node_id n = node_id (nodes ! i)) (zip nodes fl)"

text \<open>The nodes of a document are members of its tuple, objects at addresses of their own.\<close>

definition placed :: "'b node list \<Rightarrow> 'b node list" where
  "placed nodes = map (\<lambda>i. (nodes ! i)\<lparr>node_id := i\<rparr>) [0..<length nodes]"

lemma on_emit_distinct:
  assumes "distinct (map node_id nodes)" "i < length nodes" "length fl = length nodes"
  shows "on_emit nodes i fl = fl[i := True]"
proof (rule nth_equalityI)
  fix j assume "j < length (on_emit nodes i fl)"
  then have j: "j < length nodes" using assms(3) by (simp add: on_emit_def)
  then have "node_id (nodes ! j) = node_id (nodes ! i) \<longleftrightarrow> j = i"
    using nth_eq_iff_index_eq[OF assms(1), of j i] assms(2) by simp
  with j assms(2,3) show "on_emit nodes i fl ! j = fl[i := True] ! j" by (simp add: on_emit_def nth_list_update)
qed (use assms(3) in \<open>simp add: on_emit_def\<close>)

lemma placed_simps [simp]:
  "length (placed nodes) = length nodes" "placed nodes = [] \<longleftrightarrow> nodes = []"
  "i < length nodes \<Longrightarrow> placed nodes ! i = (nodes ! i)\<lparr>node_id := i\<rparr>"
  "map node_id (placed nodes) = [0..<length nodes]"
  by (auto simp: placed_def intro: nth_equalityI)

section \<open>Traversal\<close>

text \<open>A write whose result 0 ends the routine with the result \<open>stop\<close>.\<close>

definition write_or ::
  "('b \<times> nat) option \<Rightarrow> ('b \<Rightarrow> 'r) \<Rightarrow> ('b \<Rightarrow> 'r option) \<Rightarrow> 'r option" where
  "write_or w stop k = do { (b, n) \<leftarrow> w; if n = 0 then Some (stop b) else k b }"

lemma write_or_cong [fundef_cong]:
  "w = w' \<Longrightarrow> stop = stop' \<Longrightarrow> (\<And>b n. w' = Some (b, n) \<Longrightarrow> k b = k' b) \<Longrightarrow>
    write_or w stop k = write_or w' stop' k'"
  by (cases w') (auto simp: write_or_def)

definition max_depth :: "'b node list \<Rightarrow> nat" where
  "max_depth nodes = foldr max (map (length \<circ> node_path) nodes) 0"

lemma max_depth_ge: "n \<in> set nodes \<Longrightarrow> length (node_path n) \<le> max_depth nodes"
  by (induction nodes) (auto simp: max_depth_def)

lemma depth_decreases:
  assumes "i < length nodes" "d < length (node_path (nodes ! i))"
  shows "max_depth nodes - length (path_view (node_path (nodes ! i)) (Suc d)) < max_depth nodes - d"
  using assms max_depth_ge[OF nth_mem[OF assms(1)]] by (simp add: path_view_def)

text \<open>
  \<open>emit_level\<close>: \<open>i\<close> is the position in the node list, \<open>first\<close> the local \<open>is_first_child\<close>, \<open>fl\<close>
  the \<open>emitted_\<close> flags; the Boolean of the result is the C++ result.
\<close>

function emit_level ::
  "'b buffer_ops \<Rightarrow> 'b node list \<Rightarrow> path \<Rightarrow> nat \<Rightarrow> bool \<Rightarrow> bool list \<Rightarrow> 'b \<Rightarrow> ('b \<times> bool list \<times> bool) option"
where
  "emit_level ops nodes cur i first fl b =
     (if i < length nodes then
        let n = nodes ! i; n_path = node_path n; stop = (\<lambda>b. (b, fl, False)) in
        if fl ! i \<or> omitted n then emit_level ops nodes cur (i + 1) first fl b
        else if length cur > 0 \<and> \<not> matches_parent n_path cur
        then emit_level ops nodes cur (i + 1) first fl b
        else
          write_or (if first then Some (b, 1) else op_write ops b '','') stop (\<lambda>b.
          (case get_element n_path (length cur) of
             None \<Rightarrow> None
           | Some key \<Rightarrow>
             write_or (write_escaped ops b key) stop (\<lambda>b.
             write_or (op_write ops b '':'') stop (\<lambda>b.
             if length n_path = length cur + 1 then
               do { b \<leftarrow> emit_node n b;
                    emit_level ops nodes cur (i + 1) False (on_emit nodes i fl) b }
             else
               write_or (op_write ops b ''{'') stop (\<lambda>b.
               do { (b, fl, ok) \<leftarrow> emit_level ops nodes (path_view n_path (length cur + 1)) 0 True fl b;
                    if \<not> ok then Some (b, fl, False)
                    else
                      write_or (op_write ops b ''}'') (\<lambda>b. (b, fl, False)) (\<lambda>b.
                      emit_level ops nodes cur (i + 1) False fl b) })))))
      else Some (b, fl, True))"
  by pat_completeness auto
termination
  by (relation "measures [\<lambda>(ops, nodes, cur, i, first, fl, b). max_depth nodes - length cur,
                          \<lambda>(ops, nodes, cur, i, first, fl, b). length nodes - i]")
    (auto simp: get_element_def depth_decreases depth_decreases[where d = 0, simplified]
      split: if_splits)

declare emit_level.simps [simp del]

text \<open>The fast path of \<open>emit_json_nodes\<close>, for documents without nested paths.\<close>

fun emit_flat :: "'b buffer_ops \<Rightarrow> 'b node list \<Rightarrow> bool \<Rightarrow> 'b \<Rightarrow> ('b \<times> bool) option" where
  "emit_flat ops [] first b = Some (b, True)"
| "emit_flat ops (n # nodes) first b =
     (if omitted n then emit_flat ops nodes first b
      else
        write_or (if first then Some (b, 1) else op_write ops b '','') (\<lambda>b. (b, False)) (\<lambda>b.
        (case get_element (node_path n) 0 of
           None \<Rightarrow> None
         | Some key \<Rightarrow>
           write_or (write_escaped ops b key) (\<lambda>b. (b, False)) (\<lambda>b.
           write_or (op_write ops b '':'') (\<lambda>b. (b, False)) (\<lambda>b.
           do { b \<leftarrow> emit_node n b; emit_flat ops nodes False b })))))"

definition emit_json_nodes :: "'b buffer_ops \<Rightarrow> 'b node list \<Rightarrow> 'b \<Rightarrow> ('b \<times> nat) option" where
  "emit_json_nodes ops nodes b =
     (let before_len = op_length ops b in
      if nodes = [] then op_write ops b ''{}''
      else if \<not> list_ex (\<lambda>n. length (node_path n) > 1) nodes then
        write_or (op_write ops b ''{'') (\<lambda>b. (b, 0)) (\<lambda>b.
        do { (b, ok) \<leftarrow> emit_flat ops nodes True b;
             if \<not> ok then Some (b, 0)
             else write_or (op_write ops b ''}'') (\<lambda>b. (b, 0)) (\<lambda>b.
               Some (b, op_length ops b - before_len)) })
      else
        write_or (op_write ops b ''{'') (\<lambda>b. (b, 0)) (\<lambda>b.
        do { (b, fl, ok) \<leftarrow> emit_level ops nodes (path_view (node_path (nodes ! 0)) 0) 0 True
               (replicate (length nodes) False) b;
             if \<not> ok then Some (b, 0)
             else write_or (op_write ops b ''}'') (\<lambda>b. (b, 0)) (\<lambda>b.
               Some (b, op_length ops b - before_len)) }))"

section \<open>Properties\<close>

text \<open>When a node's path is a proper prefix of the path of a node before it, the nested traversal
  reads the shorter path past its end: the emission has no defined result.\<close>

theorem prefix_path_undefined:
  "emit_json_nodes stack_ops
     [\<lparr>node_id = 0, node_path = [''a'', ''b''], omitted = False, emit_node = Some\<rparr>,
      \<lparr>node_id = 1, node_path = [''a''], omitted = False, emit_node = Some\<rparr>] (stack_buffer_new 64) = None"
  by code_simp

text \<open>An object that is listed twice (a document that a \<open>Builder\<close> was given twice) is written once by the
  nested traversal and twice by the fast path, which does not look at the flag.\<close>

lemma node_listed_twice:
  "(let n = \<lparr>node_id = 0, node_path = [''a''], omitted = False, emit_node = Some\<rparr>;
        m = \<lparr>node_id = 1, node_path = [''b'', ''c''], omitted = False, emit_node = Some\<rparr>;
        text = (\<lambda>ns. map_option (sb_view \<circ> fst) (emit_json_nodes stack_ops ns (stack_buffer_new 64)))
    in text [n, n] = Some ([CHR ''{''] @ quoted ''a'' @ '':,'' @ quoted ''a'' @ '':}'') \<and>
       text [n, m, n] = Some ([CHR ''{''] @ quoted ''a'' @ '':,'' @ quoted ''b'' @ '':{'' @ quoted ''c'' @ '':}}''))"
  by code_simp

end
