(* ===== verification/Doc_Tree.thy ===== *)
theory Doc_Tree
  imports Document
begin

text \<open>
  The reference for document emission: the tree of a list of paths with values, its text, and the
  proof that \<^const>\<open>emit_json_nodes\<close> writes exactly that text, on the fast path as on the
  nested one. The flags \<open>emitted_\<close> are accounted for by the list of nodes a level still has to
  write (\<open>todo\<close>).
\<close>

section \<open>Trees\<close>

datatype 'v jtree = Leaf 'v | Branch "(bytes \<times> 'v jtree) list"

text \<open>Members separated by commas; \<open>first\<close> says whether the next member is the first.\<close>

fun commas :: "bool \<Rightarrow> bytes list \<Rightarrow> bytes" where
  "commas first [] = []"
| "commas first (m # ms) = (if first then [] else '','') @ m @ commas False ms"

fun render :: "bytes jtree \<Rightarrow> bytes" where
  "render (Leaf t) = t"
| "render (Branch ms) = ''{'' @ commas True (map (\<lambda>(k, t). quoted k @ '':'' @ render t) ms) @ ''}''"

definition members :: "(bytes \<times> bytes jtree) list \<Rightarrow> bytes list" where
  "members ms = map (\<lambda>(k, t). quoted k @ '':'' @ render t) ms"

lemma members_simps [simp]:
  "members [] = []" "members ((k, t) # ms) = (quoted k @ '':'' @ render t) # members ms"
  by (simp_all add: members_def)

lemma render_Branch: "render (Branch ms) = ''{'' @ commas True (members ms) @ ''}''"
  by (simp add: members_def)

text \<open>
  Grouping: the first entry determines the first member; if its path goes on, all later entries
  below the same key move into that member.
\<close>

definition below :: "bytes \<Rightarrow> (path \<times> 'v) list \<Rightarrow> (path \<times> 'v) list" where
  "below k ns = map (\<lambda>(q, w). (tl q, w)) (filter (\<lambda>(q, w). q \<noteq> [] \<and> hd q = k) ns)"

definition beside :: "bytes \<Rightarrow> (path \<times> 'v) list \<Rightarrow> (path \<times> 'v) list" where
  "beside k ns = filter (\<lambda>(q, w). \<not> (q \<noteq> [] \<and> hd q = k)) ns"

definition weight :: "(path \<times> 'v) list \<Rightarrow> nat" where
  "weight ns = sum_list (map (\<lambda>(q, w). length q + 1) ns)"

lemma weight_below: "weight (below k ns) \<le> weight ns"
  by (induction ns) (auto simp: below_def weight_def)

lemma weight_beside: "weight (beside k ns) \<le> weight ns"
  by (induction ns) (auto simp: beside_def weight_def)

lemma weight_Cons [simp]: "weight ((p, v) # ns) = length p + 1 + weight ns"
  by (simp add: weight_def)

function build :: "(path \<times> 'v) list \<Rightarrow> (bytes \<times> 'v jtree) list" where
  "build [] = []"
| "build (([], v) # ns) = build ns"
| "build (([k], v) # ns) = (k, Leaf v) # build ns"
| "build ((k # k' # ks, v) # ns) =
     (k, Branch (build ((k' # ks, v) # below k ns))) # build (beside k ns)"
  by pat_completeness auto
termination
proof (relation "measure weight", goal_cases)
  case (4 k k' ks v ns)
  then show ?case using weight_below[of k ns] by simp
next
  case (5 k k' ks v ns)
  then show ?case using weight_beside[of k ns] by simp
qed auto

text \<open>
  A list of paths that the traversal can handle: no path is empty, and no path is a proper prefix
  of an earlier one (there the traversal would read a path beyond its end).
\<close>

definition paths_ok :: "path list \<Rightarrow> bool" where
  "paths_ok ps \<longleftrightarrow> [] \<notin> set ps \<and> sorted_wrt (\<lambda>p q. \<not> strict_prefix q p) ps"

lemma paths_ok_Cons:
  "paths_ok (p # ps) \<longleftrightarrow> p \<noteq> [] \<and> (\<forall>q\<in>set ps. \<not> strict_prefix q p) \<and> paths_ok ps"
  by (auto simp: paths_ok_def)

lemma paths_ok_filter: "paths_ok (map fst ns) \<Longrightarrow> paths_ok (map fst (filter P ns))"
  by (induction ns) (auto simp: paths_ok_Cons)

lemma paths_ok_beside: "paths_ok (map fst ns) \<Longrightarrow> paths_ok (map fst (beside k ns))"
  by (simp add: beside_def paths_ok_filter)

lemma paths_ok_below:
  assumes "paths_ok (map fst ((k # k' # ks, v) # ns))"
  shows "paths_ok (map fst ((k' # ks, v) # below k ns))"
proof -
  have sub: "strict_prefix (tl q) (tl q') \<Longrightarrow> strict_prefix q q'"
    if "q \<noteq> []" "q' \<noteq> []" "hd q = hd q'" for q q' :: path
    using that by (cases q; cases q') auto
  have long: "tl q \<noteq> []" if "q \<in> fst ` set ns" "q \<noteq> []" "hd q = k" for q
    using that assms by (cases q) (fastforce simp: paths_ok_Cons strict_prefix_def)+
  have "paths_ok (map fst (below k ns))"
    if "paths_ok (map fst ns)" "\<forall>q\<in>fst ` set ns. q \<noteq> [] \<longrightarrow> hd q = k \<longrightarrow> tl q \<noteq> []"
    using that
  proof (induction ns)
    case (Cons n ns)
    then show ?case
      using sub by (cases n) (fastforce simp: below_def paths_ok_Cons)
  qed (simp add: below_def paths_ok_def)
  from this[of] assms long have "paths_ok (map fst (below k ns))" by (auto simp: paths_ok_Cons)
  moreover have "\<not> strict_prefix (tl q) (k' # ks)" if "q \<in> fst ` set ns" "q \<noteq> []" "hd q = k" for q
    using that assms by (cases q) (fastforce simp: paths_ok_Cons)+
  ultimately show ?thesis
    using long by (fastforce simp: paths_ok_Cons below_def)
qed

section \<open>The tree as a map from paths to values\<close>

fun lookup :: "(bytes \<times> 'v jtree) list \<Rightarrow> path \<Rightarrow> 'v option" where
  "lookup ms [] = None"
| "lookup ms (k # ks) =
     (case map_of ms k of
        None \<Rightarrow> None
      | Some (Leaf t) \<Rightarrow> (if ks = [] then Some t else None)
      | Some (Branch ms') \<Rightarrow> lookup ms' ks)"

text \<open>No path is a prefix of another one.\<close>

definition prefix_free :: "path list \<Rightarrow> bool" where
  "prefix_free ps \<longleftrightarrow> [] \<notin> set ps \<and> sorted_wrt (\<lambda>p q. \<not> prefix p q \<and> \<not> prefix q p) ps"

lemma prefix_free_Cons: "prefix_free (p # ps) \<longleftrightarrow>
    p \<noteq> [] \<and> (\<forall>q\<in>set ps. \<not> prefix p q \<and> \<not> prefix q p) \<and> prefix_free ps"
  by (auto simp: prefix_free_def)

lemma prefix_free_paths_ok: "prefix_free ps \<Longrightarrow> paths_ok ps"
  by (induction ps) (auto simp: prefix_free_Cons paths_ok_Cons strict_prefix_def prefix_free_def paths_ok_def)

lemma prefix_free_beside: "prefix_free (map fst ns) \<Longrightarrow> prefix_free (map fst (beside k ns))"
proof (induction ns)
  case (Cons n ns)
  then show ?case by (cases n) (auto simp: prefix_free_Cons beside_def)
qed (simp add: beside_def)

lemma prefix_hd_tl: "p \<noteq> [] \<Longrightarrow> q \<noteq> [] \<Longrightarrow> hd p = hd q \<Longrightarrow> prefix (tl p) (tl q) \<longleftrightarrow> prefix p q"
  by (cases p; cases q) auto

lemma below_Cons: "below k ((p, v) # ns) =
    (if p \<noteq> [] \<and> hd p = k then (tl p, v) # below k ns else below k ns)"
  by (simp add: below_def)

lemma fst_below: "fst ` set (below k ns) = {tl p | p. p \<in> fst ` set ns \<and> p \<noteq> [] \<and> hd p = k}"
  by (force simp: below_def)

lemma prefix_free_below:
  "prefix_free (map fst ns) \<Longrightarrow> [k] \<notin> fst ` set ns \<Longrightarrow> prefix_free (map fst (below k ns))"
proof (induction ns)
  case (Cons n ns)
  obtain p v where n: "n = (p, v)" by (cases n)
  have IH: "prefix_free (map fst (below k ns))"
    using Cons by (simp add: n prefix_free_Cons)
  show ?case
  proof (cases "p \<noteq> [] \<and> hd p = k")
    case True
    have "\<not> prefix (tl p) q \<and> \<not> prefix q (tl p)" if q: "q \<in> fst ` set (below k ns)" for q
    proof -
      obtain p' where p': "p' \<in> fst ` set ns" "p' \<noteq> []" "hd p' = k" "q = tl p'"
        using q unfolding fst_below by blast
      then have "\<not> prefix p p' \<and> \<not> prefix p' p"
        using Cons.prems(1) by (auto simp: n prefix_free_Cons)
      then show ?thesis
        using p' True prefix_hd_tl[of p p'] prefix_hd_tl[of p' p] by simp
    qed
    moreover have "tl p \<noteq> []" using True Cons.prems(2) by (cases p) (auto simp: n)
    ultimately show ?thesis using True IH by (simp add: n below_Cons prefix_free_Cons)
  next
    case False
    then have "below k (n # ns) = below k ns" by (auto simp: n below_Cons)
    with IH show ?thesis by simp
  qed
qed (simp add: below_def prefix_free_def)

lemma map_of_below: "map_of (below k ns) q = map_of ns (k # q)"
proof (induction ns)
  case (Cons n ns)
  then show ?case by (cases n; cases "fst n") (auto simp: below_def)
qed (simp add: below_def)

lemma map_of_beside: "\<not> (p \<noteq> [] \<and> hd p = k) \<Longrightarrow> map_of (beside k ns) p = map_of ns p"
proof (induction ns)
  case (Cons n ns)
  then show ?case by (cases n) (auto simp: beside_def)
qed (simp add: beside_def)

text \<open>Grouping is natural in the values, and the keys of a level are distinct.\<close>

lemma below_map: "below k (map (map_prod id f) ns) = map (map_prod id f) (below k ns)"
  by (induction ns) (auto simp: below_def)

lemma beside_map: "beside k (map (map_prod id f) ns) = map (map_prod id f) (beside k ns)"
  by (induction ns) (auto simp: beside_def)

lemma build_map: "build (map (map_prod id f) ns) = map (map_prod id (map_jtree f)) (build ns)"
proof (induction ns rule: build.induct)
  case (4 k k' ks v ns)
  then show ?case by (simp add: below_map[unfolded id_def] beside_map[unfolded id_def] id_def)
qed simp_all

lemma build_keys: "map_of (build ns) k \<noteq> None \<Longrightarrow> \<exists>p\<in>fst ` set ns. p \<noteq> [] \<and> hd p = k"
  by (induction ns rule: build.induct) (force simp: beside_def split: if_splits)+

text \<open>No two members of an object have the same key.\<close>

fun keys_distinct :: "'v jtree \<Rightarrow> bool" where
  "keys_distinct (Leaf v) = True"
| "keys_distinct (Branch ms) = (distinct (map fst ms) \<and> list_all (\<lambda>(k, t). keys_distinct t) ms)"

lemma build_distinct: "prefix_free (map fst ns) \<Longrightarrow> keys_distinct (Branch (build ns))"
proof (induction ns rule: build.induct)
  case (2 v ns)
  then show ?case by (simp add: prefix_free_Cons)
next
  case (3 k v ns)
  have "k \<notin> fst ` set (build ns)"
  proof
    assume "k \<in> fst ` set (build ns)"
    then obtain p where "p \<in> fst ` set ns" "p \<noteq> []" "hd p = k"
      using build_keys[of ns k] by (auto simp: map_of_eq_None_iff)
    with "3.prems" show False by (cases p) (force simp: prefix_free_Cons)+
  qed
  with 3 show ?case by (auto simp: prefix_free_Cons)
next
  case (4 k k' ks v ns)
  have "[k] \<notin> fst ` set ((k # k' # ks, v) # ns)"
    using "4.prems" by (force simp: prefix_free_Cons)
  from prefix_free_below[OF "4.prems" this]
  have inner: "prefix_free (map fst ((k' # ks, v) # below k ns))"
    by (simp add: below_Cons)
  have outer: "prefix_free (map fst (beside k ns))"
    using "4.prems" by (intro prefix_free_beside) (simp add: prefix_free_Cons)
  have "k \<notin> fst ` set (build (beside k ns))"
    using build_keys[of "beside k ns" k] by (auto simp: map_of_eq_None_iff beside_def)
  with "4.IH"(1)[OF inner] "4.IH"(2)[OF outer] show ?case by auto
qed simp

lemma lookup_build: "prefix_free (map fst ns) \<Longrightarrow> lookup (build ns) p = map_of ns p"
proof (induction ns arbitrary: p rule: build.induct)
  case 1
  then show ?case by (cases p) auto
next
  case (2 v ns)
  then show ?case by (simp add: prefix_free_Cons)
next
  case (3 k v ns)
  then have "map_of ns (k # q) = None" for q
    by (fastforce simp: prefix_free_Cons map_of_eq_None_iff)
  moreover have "map_of ns [] = None" "prefix_free (map fst ns)"
    using "3.prems" by (auto simp: prefix_free_Cons prefix_free_def map_of_eq_None_iff)
  ultimately show ?case
    using "3.IH"[of p] by (cases p) auto
next
  case (4 k k' ks v ns)
  have "[k] \<notin> fst ` set ((k # k' # ks, v) # ns)"
    using "4.prems" by (force simp: prefix_free_Cons)
  from prefix_free_below[OF "4.prems" this]
  have "prefix_free (map fst ((k' # ks, v) # below k ns))"
    by (simp add: below_Cons)
  note inner = "4.IH"(1)[OF this]
  note outer = "4.IH"(2)[OF prefix_free_beside[of ns k]]
  show ?case
  proof (cases p)
    case Nil
    moreover have "map_of ns [] = None"
      using "4.prems" by (auto simp: prefix_free_Cons prefix_free_def map_of_eq_None_iff)
    ultimately show ?thesis by simp
  next
    case (Cons a q)
    show ?thesis
    proof (cases "a = k")
      case True
      then show ?thesis using Cons inner[of q] by (simp add: map_of_below)
    next
      case False
      then show ?thesis
        using Cons outer[of p] "4.prems" map_of_beside[of p k ns] by (simp add: prefix_free_Cons)
    qed
  qed
qed

section \<open>What a level still has to write\<close>

definition pending :: "'b node list \<Rightarrow> path \<Rightarrow> bool list \<Rightarrow> nat \<Rightarrow> bool" where
  "pending nodes cur fl j \<longleftrightarrow> \<not> fl ! j \<and> \<not> omitted (nodes ! j) \<and> prefix cur (node_path (nodes ! j))"

definition entry :: "'b node list \<Rightarrow> 'v list \<Rightarrow> path \<Rightarrow> nat \<Rightarrow> path \<times> 'v" where
  "entry nodes txt cur j = (drop (length cur) (node_path (nodes ! j)), txt ! j)"

definition todo :: "'b node list \<Rightarrow> 'v list \<Rightarrow> path \<Rightarrow> nat \<Rightarrow> bool list \<Rightarrow> (path \<times> 'v) list" where
  "todo nodes txt cur i fl =
     map (entry nodes txt cur) (filter (pending nodes cur fl) [i..<length nodes])"

lemma prefix_snoc_drop: "prefix (cur @ [k]) p \<longleftrightarrow>
    prefix cur p \<and> drop (length cur) p \<noteq> [] \<and> hd (drop (length cur) p) = k"
proof (cases "prefix cur p")
  case True
  then obtain q where "p = cur @ q" by (auto simp: prefix_def)
  then show ?thesis by (cases q) auto
qed (auto dest: append_prefixD)

lemma todo_end: "length nodes \<le> i \<Longrightarrow> todo nodes txt cur i fl = []"
  by (simp add: todo_def)

lemma todo_step: "i < length nodes \<Longrightarrow> todo nodes txt cur i fl =
    (if pending nodes cur fl i then [entry nodes txt cur i] else []) @ todo nodes txt cur (Suc i) fl"
  by (simp add: todo_def upt_conv_Cons)

lemma todo_mark: "length fl = length nodes \<Longrightarrow>
    todo nodes txt cur (Suc i) (fl[i := True]) = todo nodes txt cur (Suc i) fl"
  by (auto simp: todo_def pending_def intro!: arg_cong[where f = "map _"] filter_cong)

lemma todo_beside:
  assumes "\<forall>j<length nodes. fl' ! j \<longleftrightarrow> fl ! j \<or> \<not> omitted (nodes ! j) \<and> prefix (cur @ [k]) (node_path (nodes ! j))"
  shows "todo nodes txt cur i fl' = beside k (todo nodes txt cur i fl)"
proof -
  have "map (entry nodes txt cur) (filter (pending nodes cur fl') js) =
      beside k (map (entry nodes txt cur) (filter (pending nodes cur fl) js))"
    if "\<forall>j\<in>set js. j < length nodes" for js
    using that assms
    by (induction js) (auto simp: beside_def pending_def entry_def prefix_snoc_drop)
  then show ?thesis by (simp add: todo_def)
qed

lemma todo_below:
  assumes "\<forall>j<i. prefix cur (node_path (nodes ! j)) \<longrightarrow> fl ! j \<or> omitted (nodes ! j)"
    and "i < length nodes" "pending nodes cur fl i" "node_path (nodes ! i) = cur @ k # ks"
  shows "todo nodes txt (cur @ [k]) 0 fl = (ks, txt ! i) # below k (todo nodes txt cur (Suc i) fl)"
proof -
  have "filter (pending nodes (cur @ [k]) fl) [0..<i] = []"
    using assms(1) by (auto simp: filter_empty_conv pending_def dest: append_prefixD)
  moreover have "map (entry nodes txt (cur @ [k])) (filter (pending nodes (cur @ [k]) fl) js) =
      below k (map (entry nodes txt cur) (filter (pending nodes cur fl) js))" for js
    by (induction js) (auto simp: below_def pending_def entry_def prefix_snoc_drop tl_drop drop_Suc)
  moreover have "[0..<length nodes] = [0..<i] @ i # [Suc i..<length nodes]"
    using assms(2) upt_add_eq_append[of 0 i "length nodes - i"] by (simp add: upt_conv_Cons)
  moreover have "pending nodes (cur @ [k]) fl i" "entry nodes txt (cur @ [k]) i = (ks, txt ! i)"
    using assms(3,4) by (auto simp: pending_def entry_def)
  ultimately show ?thesis by (simp add: todo_def)
qed

definition live :: "bytes list \<Rightarrow> 'b node list \<Rightarrow> (path \<times> bytes) list" where
  "live txt nodes = map (\<lambda>(n, t). (node_path n, t)) (filter (\<lambda>(n, t). \<not> omitted n) (zip nodes txt))"

lemma live_simps [simp]: "live [] [] = []"
  "live (t # txt) (n # nodes) = (if omitted n then [] else [(node_path n, t)]) @ live txt nodes"
  by (simp_all add: live_def)

text \<open>The whole document.\<close>

definition document_text :: "(path \<times> bytes) list \<Rightarrow> bytes" where
  "document_text ns = render (Branch (build ns))"

lemma todo_all:
  assumes "length txt = length nodes"
  shows "todo nodes txt [] 0 (replicate (length nodes) False) = live txt nodes"
proof -
  have "filter (pending nodes [] (replicate (length nodes) False)) [0..<length nodes] =
      filter (\<lambda>i. \<not> omitted (nodes ! i)) [0..<length nodes]"
    by (rule filter_cong) (auto simp: pending_def)
  moreover have "zip nodes txt = map (\<lambda>i. (nodes ! i, txt ! i)) [0..<length nodes]"
    using assms by (intro nth_equalityI) auto
  ultimately show ?thesis
    by (simp add: todo_def live_def entry_def comp_def filter_map)
qed

lemma pending_iff: "pending nodes cur fl i \<longleftrightarrow> \<not> (fl ! i \<or> omitted (nodes ! i)) \<and>
    \<not> (length cur > 0 \<and> \<not> matches_parent (node_path (nodes ! i)) cur)"
  by (auto simp: pending_def matches_parent_prefix)

text \<open>The body of the loop, for a node that is skipped and for one that is written.\<close>

lemma emit_level_skip: "i < length nodes \<Longrightarrow> \<not> pending nodes cur fl i \<Longrightarrow>
    emit_level ops nodes cur i first fl b = emit_level ops nodes cur (Suc i) first fl b"
  by (subst emit_level.simps) (auto simp: pending_iff Let_def)

lemma emit_level_leaf: "i < length nodes \<Longrightarrow> pending nodes cur fl i \<Longrightarrow>
    node_path (nodes ! i) = cur @ [k] \<Longrightarrow> distinct (map node_id nodes) \<Longrightarrow> length fl = length nodes \<Longrightarrow>
    emit_level ops nodes cur i first fl b =
      write_or (if first then Some (b, 1) else op_write ops b '','') (\<lambda>b. (b, fl, False)) (\<lambda>b.
      write_or (write_escaped ops b k) (\<lambda>b. (b, fl, False)) (\<lambda>b.
      write_or (op_write ops b '':'') (\<lambda>b. (b, fl, False)) (\<lambda>b.
      do { b \<leftarrow> emit_node (nodes ! i) b;
           emit_level ops nodes cur (Suc i) False (fl[i := True]) b })))"
  unfolding Suc_eq_plus1 by (subst emit_level.simps) (auto simp: pending_iff Let_def get_element_def on_emit_distinct)

lemma emit_level_branch: "i < length nodes \<Longrightarrow> pending nodes cur fl i \<Longrightarrow>
    node_path (nodes ! i) = cur @ k # k' # ks \<Longrightarrow>
    emit_level ops nodes cur i first fl b =
      write_or (if first then Some (b, 1) else op_write ops b '','') (\<lambda>b. (b, fl, False)) (\<lambda>b.
      write_or (write_escaped ops b k) (\<lambda>b. (b, fl, False)) (\<lambda>b.
      write_or (op_write ops b '':'') (\<lambda>b. (b, fl, False)) (\<lambda>b.
      write_or (op_write ops b ''{'') (\<lambda>b. (b, fl, False)) (\<lambda>b.
      do { (b, fl, ok) \<leftarrow> emit_level ops nodes (cur @ [k]) 0 True fl b;
           if \<not> ok then Some (b, fl, False)
           else write_or (op_write ops b ''}'') (\<lambda>b. (b, fl, False)) (\<lambda>b.
             emit_level ops nodes cur (Suc i) False fl b) }))))"
  unfolding Suc_eq_plus1
  by (subst emit_level.simps) (auto simp: pending_iff Let_def get_element_def path_view_def)

section \<open>The traversal writes the tree\<close>

text \<open>The flags after a level: every pending node below the path is marked.\<close>

definition marked :: "'b node list \<Rightarrow> path \<Rightarrow> bool list \<Rightarrow> bool list \<Rightarrow> bool" where
  "marked nodes cur fl fl' \<longleftrightarrow>
     (\<forall>j<length nodes. fl' ! j \<longleftrightarrow> fl ! j \<or> \<not> omitted (nodes ! j) \<and> prefix cur (node_path (nodes ! j)))"

definition emitted_before :: "'b node list \<Rightarrow> path \<Rightarrow> nat \<Rightarrow> bool list \<Rightarrow> bool" where
  "emitted_before nodes cur i fl \<longleftrightarrow>
     (\<forall>j<i. prefix cur (node_path (nodes ! j)) \<longrightarrow> fl ! j \<or> omitted (nodes ! j))"

definition level_text :: "bool \<Rightarrow> (path \<times> bytes) list \<Rightarrow> bytes" where
  "level_text first ns = commas first (members (build ns))"

lemma level_text_simps [simp]:
  "level_text first [] = []"
  "level_text first (([k], t) # ns) =
     (if first then [] else '','') @ quoted k @ '':'' @ t @ level_text False ns"
  "level_text first ((k # k' # ks, t) # ns) =
     (if first then [] else '','') @ quoted k @ '':'' @ ''{'' @ level_text True ((k' # ks, t) # below k ns)
       @ ''}'' @ level_text False (beside k ns)"
  by (simp_all add: level_text_def render_Branch del: render.simps(2))

lemma document_text_eq: "document_text ns = ''{'' @ level_text True ns @ ''}''"
  by (simp add: document_text_def level_text_def render_Branch del: render.simps)

lemma marked_leaf:
  assumes "marked nodes cur (fl[i := True]) fl'" "pending nodes cur fl i" "length fl = length nodes"
    and "i < length nodes"
  shows "marked nodes cur fl fl'"
  using assms by (auto simp: marked_def pending_def nth_list_update)

lemma marked_trans:
  "marked nodes (cur @ [k]) fl fl1 \<Longrightarrow> marked nodes cur fl1 fl2 \<Longrightarrow> marked nodes cur fl fl2"
  by (auto simp: marked_def dest: append_prefixD)

lemma emitted_before_Suc:
  assumes "emitted_before nodes cur i fl" "marked nodes (cur @ [k]) fl fl1" "i < length nodes"
    and "node_path (nodes ! i) = cur @ k # ks"
  shows "emitted_before nodes cur (Suc i) fl1"
  unfolding emitted_before_def
proof (intro allI impI)
  fix j assume j: "j < Suc i" "prefix cur (node_path (nodes ! j))"
  have m: "fl1 ! j \<longleftrightarrow> fl ! j \<or> \<not> omitted (nodes ! j) \<and> prefix (cur @ [k]) (node_path (nodes ! j))"
    using assms(2,3) j(1) by (simp add: marked_def)
  show "fl1 ! j \<or> omitted (nodes ! j)"
    using assms(1,4) j m by (cases "j = i") (auto simp: emitted_before_def less_Suc_eq)
qed

text \<open>What a traversal of \<open>N\<close> nodes may end in: the text of the flags it has set, or a failure.\<close>

context buffer
begin

definition level_result ::
  "nat \<Rightarrow> (bool list \<Rightarrow> bool) \<Rightarrow> 'b \<Rightarrow> bytes \<Rightarrow> 'b \<times> bool list \<times> bool \<Rightarrow> bool" where
  "level_result N G b out r \<longleftrightarrow>
     (case r of (b', fl, ok) \<Rightarrow> emits 1 b out b' \<and> length fl = N \<and> (ok \<longrightarrow> G fl) \<and> (\<not> ok \<longrightarrow> bad b'))"

lemma level_result_step:
  "emits 1 b s b1 \<Longrightarrow> level_result N G b1 t r \<Longrightarrow> level_result N G b (s @ t) r"
  by (auto simp: level_result_def intro: emits_append)

lemma level_result_stop:
  "emits 1 b s b1 \<Longrightarrow> bad b1 \<Longrightarrow> length fl = N \<Longrightarrow> level_result N G b (s @ t) (b1, fl, False)"
  by (auto simp: level_result_def intro: emits_stop)

definition writes :: "'b \<Rightarrow> bytes \<Rightarrow> ('b \<times> nat) option \<Rightarrow> bool" where
  "writes b s w \<longleftrightarrow> (\<exists>b' n. w = Some (b', n) \<and> emits 0 b s b' \<and> (n = 0 \<longrightarrow> bad b'))"

lemma writes_write: "ok b \<Longrightarrow> s \<noteq> [] \<Longrightarrow> writes b s (op_write ops b s)"
  by (cases rule: write_cases[of b s]) (auto simp: writes_def intro: emits_mono)

lemma writes_escaped: "ok b \<Longrightarrow> writes b (quoted s) (write_escaped ops b s)"
  using write_escaped_emits[of b s]
  by (auto simp: writes_def length_quoted intro: emits_mono)

lemma writes_separator:
  "ok b \<Longrightarrow> writes b (if first then [] else '','') (if first then Some (b, 1) else op_write ops b '','')"
  using writes_write[of b "'',''"] by (auto simp: writes_def emits_refl)

lemma level_result_write_or:
  assumes w: "writes b s w" and fl: "length fl = N"
    and rest: "\<And>b1. emits 1 b s b1 \<Longrightarrow> \<exists>r. k b1 = Some r \<and> level_result N G b1 t r"
  shows "\<exists>r. write_or w (\<lambda>b. (b, fl, False)) k = Some r \<and> level_result N G b (s @ t) r"
proof -
  from w obtain b1 n where 1: "w = Some (b1, n)" "emits 1 b s b1" "n = 0 \<longrightarrow> bad b1"
    by (auto simp: writes_def intro: emits_mono)
  then show ?thesis
    using rest[OF 1(2)] level_result_stop[OF 1(2) _ fl, of G t] level_result_step[OF 1(2)]
    by (cases "n = 0") (auto simp: write_or_def)
qed

lemma level_result_mono:
  "level_result N G b out r \<Longrightarrow> (\<And>fl. length fl = N \<Longrightarrow> G fl \<Longrightarrow> G' fl) \<Longrightarrow> level_result N G' b out r"
  by (auto simp: level_result_def)

text \<open>A traversal from node \<open>i\<close> at path \<open>cur\<close> writes what the flags \<open>fl\<close> leave to do there.\<close>

definition level_emits :: "'b node list \<Rightarrow> bytes list \<Rightarrow> enat \<Rightarrow> path \<Rightarrow> nat \<Rightarrow> bool list \<Rightarrow> bool" where
  "level_emits nodes txt W cur i fl \<longleftrightarrow> (\<forall>first b. ok b \<longrightarrow> window b = W \<longrightarrow>
     (\<exists>r. emit_level ops nodes cur i first fl b = Some r \<and>
       level_result (length nodes) (marked nodes cur fl) b (level_text first (todo nodes txt cur i fl)) r))"

definition nodes_emit :: "'b node list \<Rightarrow> bytes list \<Rightarrow> enat \<Rightarrow> bool" where
  "nodes_emit nodes txt W \<longleftrightarrow> distinct (map node_id nodes) \<and> (\<forall>i b. i < length nodes \<longrightarrow> \<not> omitted (nodes ! i) \<longrightarrow> ok b \<longrightarrow> window b = W \<longrightarrow>
     (\<exists>b'. emit_node (nodes ! i) b = Some b' \<and> emits 1 b (txt ! i) b'))"

lemma level_emitsD: "level_emits nodes txt W cur i fl \<Longrightarrow> ok b \<Longrightarrow> window b = W \<Longrightarrow>
    \<exists>r. emit_level ops nodes cur i first fl b = Some r \<and>
      level_result (length nodes) (marked nodes cur fl) b (level_text first (todo nodes txt cur i fl)) r"
  by (simp add: level_emits_def)

text \<open>A leaf: its value, then the nodes behind it.\<close>

lemma leaf_emits:
  assumes nodes: "nodes_emit nodes txt W" and len: "length fl = length nodes"
    and work: "i < length nodes" "pending nodes cur fl i" and p: "node_path (nodes ! i) = cur @ [k]"
    and todo: "todo nodes txt cur i fl = ([k], txt ! i) # todo nodes txt cur (Suc i) fl"
    and next_node: "level_emits nodes txt W cur (Suc i) (fl[i := True])"
  shows "level_emits nodes txt W cur i fl"
  unfolding level_emits_def
proof (intro allI impI)
  fix first b assume okb: "ok b" and win: "window b = W"
  let ?T = "todo nodes txt cur (Suc i) fl"
  have tail: "\<exists>r. (do { b \<leftarrow> emit_node (nodes ! i) b3; emit_level ops nodes cur (Suc i) False (fl[i := True]) b })
      = Some r \<and> level_result (length nodes) (marked nodes cur fl) b3 (txt ! i @ level_text False ?T) r"
    if b3: "ok b3" "window b3 = W" for b3
  proof -
    obtain b4 where b4: "emit_node (nodes ! i) b3 = Some b4" "emits 1 b3 (txt ! i) b4"
      using nodes b3 work by (auto simp: pending_def nodes_emit_def)
    with level_emitsD[OF next_node, of b4 False] emitsD(1,3)[OF b4(2)] b3(2) work(1) len
    obtain r where r: "emit_level ops nodes cur (Suc i) False (fl[i := True]) b4 = Some r"
      "level_result (length nodes) (marked nodes cur (fl[i := True])) b4 (level_text False ?T) r"
      by (auto simp: todo_mark)
    have "level_result (length nodes) (marked nodes cur fl) b4 (level_text False ?T) r"
      by (rule level_result_mono[OF r(2)]) (use marked_leaf work len p in blast)
    with b4 r(1) show ?thesis by (auto intro: level_result_step)
  qed
  show "\<exists>r. emit_level ops nodes cur i first fl b = Some r \<and>
      level_result (length nodes) (marked nodes cur fl) b (level_text first (todo nodes txt cur i fl)) r"
    unfolding emit_level_leaf[OF work p conjunct1[OF nodes[unfolded nodes_emit_def]] len] todo level_text_simps
    by (intro level_result_write_or writes_separator writes_escaped writes_write okb len tail)
      (use win in \<open>(blast intro: emits_ok emits_window | simp)+\<close>)
qed

text \<open>A branch: the object of the nodes below its key, then the nodes beside it.\<close>

lemma branch_rest:
  assumes "\<And>fl1. length fl1 = length nodes \<Longrightarrow> marked nodes (cur @ [k]) fl fl1 \<Longrightarrow> level_emits nodes txt W cur (Suc i) fl1"
    and "ok b" "window b = W" "length fl1 = length nodes" "marked nodes (cur @ [k]) fl fl1"
  shows "\<exists>r. emit_level ops nodes cur (Suc i) False fl1 b = Some r \<and>
    level_result (length nodes) (marked nodes cur fl) b (level_text False (beside k (todo nodes txt cur (Suc i) fl))) r"
proof -
  have "todo nodes txt cur (Suc i) fl1 = beside k (todo nodes txt cur (Suc i) fl)"
    using todo_beside assms(5) by (simp add: marked_def)
  with level_emitsD[OF assms(1)[OF assms(4,5)] assms(2,3), of False] show ?thesis
    using level_result_mono marked_trans[OF assms(5)] by fastforce
qed

lemma branch_inner:
  assumes inner: "level_emits nodes txt W (cur @ [k]) 0 fl" and b: "ok b" "window b = W"
    and rest: "\<And>b fl1. ok b \<Longrightarrow> window b = W \<Longrightarrow> length fl1 = length nodes \<Longrightarrow> marked nodes (cur @ [k]) fl fl1 \<Longrightarrow>
      \<exists>r. f fl1 b = Some r \<and> level_result (length nodes) G b t r"
  shows "\<exists>r. (do { (b, fl, ok) \<leftarrow> emit_level ops nodes (cur @ [k]) 0 True fl b;
       if \<not> ok then Some (b, fl, False)
       else write_or (op_write ops b ''}'') (\<lambda>b. (b, fl, False)) (f fl) }) = Some r \<and>
    level_result (length nodes) G b (level_text True (todo nodes txt (cur @ [k]) 0 fl) @ ''}'' @ t) r"
proof -
  obtain b5 fl1 okf where r: "emit_level ops nodes (cur @ [k]) 0 True fl b = Some (b5, fl1, okf)"
    and res: "emits 1 b (level_text True (todo nodes txt (cur @ [k]) 0 fl)) b5" "length fl1 = length nodes"
      "okf \<Longrightarrow> marked nodes (cur @ [k]) fl fl1" "\<not> okf \<Longrightarrow> bad b5"
    using level_emitsD[OF inner b, of True] by (auto simp: level_result_def)
  show ?thesis
  proof (cases okf)
    case False
    with r res level_result_stop[OF res(1)] show ?thesis by simp
  next
    case True
    have "\<exists>r. write_or (op_write ops b5 ''}'') (\<lambda>b. (b, fl1, False)) (f fl1) = Some r \<and>
        level_result (length nodes) G b5 (''}'' @ t) r"
      by (intro level_result_write_or writes_write rest)
        (use res True b(2) in \<open>auto intro: emits_ok emits_window\<close>)
    with r True level_result_step[OF res(1)] show ?thesis by fastforce
  qed
qed

lemma branch_emits:
  assumes len: "length fl = length nodes" and work: "i < length nodes" "pending nodes cur fl i"
    and p: "node_path (nodes ! i) = cur @ k # k' # ks"
    and todo: "todo nodes txt cur i fl = (k # k' # ks, txt ! i) # todo nodes txt cur (Suc i) fl"
    and inner: "level_emits nodes txt W (cur @ [k]) 0 fl"
    and inner_todo: "todo nodes txt (cur @ [k]) 0 fl = (k' # ks, txt ! i) # below k (todo nodes txt cur (Suc i) fl)"
    and next_node: "\<And>fl1. length fl1 = length nodes \<Longrightarrow> marked nodes (cur @ [k]) fl fl1 \<Longrightarrow>
      level_emits nodes txt W cur (Suc i) fl1"
  shows "level_emits nodes txt W cur i fl"
  unfolding level_emits_def
proof (intro allI impI)
  fix first b assume okb: "ok b" and win: "window b = W"
  note tail = branch_inner[OF inner _ _ branch_rest[OF next_node], unfolded inner_todo]
  show "\<exists>r. emit_level ops nodes cur i first fl b = Some r \<and>
      level_result (length nodes) (marked nodes cur fl) b (level_text first (todo nodes txt cur i fl)) r"
    unfolding emit_level_branch[OF work p] todo level_text_simps
    by (intro level_result_write_or writes_separator writes_escaped writes_write okb len tail)
      (use win in \<open>(blast intro: emits_ok emits_window | simp)+\<close>)
qed

text \<open>A node that is due, when the traversal of the nodes behind it and of the level below it is correct.\<close>

lemma work_emits:
  assumes nodes: "nodes_emit nodes txt W" and len: "length fl = length nodes"
    and work: "i < length nodes" "pending nodes cur fl i"
    and before: "emitted_before nodes cur i fl" and paths: "paths_ok (map fst (todo nodes txt cur i fl))"
    and next_node: "\<And>fl1. length fl1 = length nodes \<Longrightarrow> emitted_before nodes cur (Suc i) fl1 \<Longrightarrow>
      paths_ok (map fst (todo nodes txt cur (Suc i) fl1)) \<Longrightarrow> level_emits nodes txt W cur (Suc i) fl1"
    and deeper: "\<And>k. length cur < max_depth nodes \<Longrightarrow> paths_ok (map fst (todo nodes txt (cur @ [k]) 0 fl)) \<Longrightarrow>
      level_emits nodes txt W (cur @ [k]) 0 fl"
  shows "level_emits nodes txt W cur i fl"
proof -
  let ?T = "todo nodes txt cur (Suc i) fl"
  have T: "todo nodes txt cur i fl = entry nodes txt cur i # ?T" using work by (simp add: todo_step)
  obtain p where p: "node_path (nodes ! i) = cur @ p" using work(2) by (auto simp: pending_def prefix_def)
  then have entry: "entry nodes txt cur i = (p, txt ! i)" by (simp add: entry_def)
  have "p \<noteq> []" and pathsT: "paths_ok (map fst ?T)" using paths by (auto simp: T entry paths_ok_Cons)
  then obtain k rest where k: "p = k # rest" by (cases p) auto
  show ?thesis
  proof (cases rest)
    case Nil
    have "emitted_before nodes cur (Suc i) (fl[i := True])"
      using before work(1) len by (auto simp: emitted_before_def nth_list_update less_Suc_eq)
    then have "level_emits nodes txt W cur (Suc i) (fl[i := True])"
      using next_node[of "fl[i := True]"] len pathsT by (simp add: todo_mark)
    then show ?thesis using leaf_emits[OF nodes len work, of k] p T entry k Nil by simp
  next
    case (Cons k' ks)
    note p' = p[unfolded k Cons] and T' = T[unfolded entry k Cons]
    have inner_todo: "todo nodes txt (cur @ [k]) 0 fl = (k' # ks, txt ! i) # below k ?T"
      using todo_below[OF _ work p'] before by (simp add: emitted_before_def)
    have "length cur < max_depth nodes" using max_depth_ge[OF nth_mem[OF work(1)]] by (simp add: p')
    then have inner: "level_emits nodes txt W (cur @ [k]) 0 fl"
      using deeper paths_ok_below[OF paths[unfolded T']] by (simp add: inner_todo)
    show ?thesis
    proof (rule branch_emits[OF len work p' T' inner inner_todo])
      fix fl1 assume fl1: "length fl1 = length nodes" "marked nodes (cur @ [k]) fl fl1"
      have "todo nodes txt cur (Suc i) fl1 = beside k ?T" using todo_beside fl1(2) by (simp add: marked_def)
      with next_node[OF fl1(1) emitted_before_Suc[OF before fl1(2) work(1) p']] paths_ok_beside[OF pathsT]
      show "level_emits nodes txt W cur (Suc i) fl1" by simp
    qed
  qed
qed

lemma emit_level_emits:
  assumes nodes: "nodes_emit nodes txt W"
    and "length fl = length nodes" "i \<le> length nodes"
    and "emitted_before nodes cur i fl" "paths_ok (map fst (todo nodes txt cur i fl))"
  shows "level_emits nodes txt W cur i fl"
  using assms(2-)
proof (induction "(max_depth nodes - length cur) * Suc (length nodes) + (length nodes - i)"
    arbitrary: cur i fl rule: less_induct)
  case less
  note len = less.prems(1) and before = less.prems(3) and paths = less.prems(4)
  let ?N = "length nodes" and ?M = "max_depth nodes"
  have next_node: "(?M - length cur) * Suc ?N + (?N - Suc i) < (?M - length cur) * Suc ?N + (?N - i)" if "i < ?N"
    using that by linarith
  consider (stop) "i = ?N" | (skip) "i < ?N" "\<not> pending nodes cur fl i" | (work) "i < ?N" "pending nodes cur fl i"
    using less.prems(2) by fastforce
  then show ?case
  proof cases
    case stop
    have "marked nodes cur fl fl" using before stop by (auto simp: marked_def emitted_before_def)
    then show ?thesis
      using stop len by (simp add: level_emits_def emit_level.simps todo_end level_result_def emits_refl)
  next
    case skip
    have "emitted_before nodes cur (Suc i) fl"
      using before skip(2) by (auto simp: emitted_before_def pending_def less_Suc_eq)
    with less.hyps[OF next_node len] skip paths show ?thesis
      by (simp add: level_emits_def emit_level_skip todo_step)
  next
    case work
    have "(?M - length (cur @ [k])) * Suc ?N + (?N - 0) < (?M - length cur) * Suc ?N + (?N - i)" if "length cur < ?M" for k
    proof -
      have "?M - length cur = Suc (?M - length (cur @ [k]))" using that by simp
      then show ?thesis by simp
    qed
    from less.hyps[OF this len] less.hyps[OF next_node[OF work(1)]] work(1) show ?thesis
      by (intro work_emits[OF nodes len work before paths]) (simp_all add: emitted_before_def)
  qed
qed

text \<open>The fast path.\<close>

definition stops_bad :: "nat \<Rightarrow> ('r \<Rightarrow> bool) \<Rightarrow> 'b \<Rightarrow> bytes \<Rightarrow> 'b \<times> 'r \<Rightarrow> bool" where
  "stops_bad k failed b out r \<longleftrightarrow> emits k b out (fst r) \<and> (failed (snd r) \<longrightarrow> bad (fst r))"

lemma stops_bad_step:
  "emits k b s b1 \<Longrightarrow> stops_bad k failed b1 t r \<Longrightarrow> stops_bad k failed b (s @ t) r"
  by (auto simp: stops_bad_def intro: emits_append)

lemma stops_bad_write_or:
  assumes w: "writes b s w"
    and rest: "\<And>b1. emits 0 b s b1 \<Longrightarrow> \<exists>r. k b1 = Some r \<and> stops_bad j failed b1 t r"
  shows "\<exists>r. write_or w (\<lambda>b. (b, z)) k = Some r \<and> stops_bad j failed b (s @ t) r"
proof -
  from w obtain b1 n where 1: "w = Some (b1, n)" "emits 0 b s b1" "n = 0 \<longrightarrow> bad b1"
    by (auto simp: writes_def)
  then have j: "emits j b s b1" by (auto intro: emits_mono)
  with 1 show ?thesis
    using rest[OF 1(2)] emits_stop[OF j, of t] emits_append[OF j]
    by (cases "n = 0") (auto simp: write_or_def stops_bad_def)
qed

lemma emit_flat_emits:
  assumes "length txt = length nodes"
    and "\<And>i b. i < length nodes \<Longrightarrow> \<not> omitted (nodes ! i) \<Longrightarrow> ok b \<Longrightarrow> window b = W \<Longrightarrow>
      \<exists>b'. emit_node (nodes ! i) b = Some b' \<and> emits 1 b (txt ! i) b'"
    and "ok b" "window b = W" "\<And>n. n \<in> set nodes \<Longrightarrow> \<not> omitted n \<Longrightarrow> length (node_path n) = 1"
  shows "\<exists>r. emit_flat ops nodes first b = Some r \<and> stops_bad 1 Not b (level_text first (live txt nodes)) r"
  using assms
proof (induction "txt" nodes arbitrary: first b rule: list_induct2)
  case Nil
  then show ?case by (simp add: stops_bad_def emits_refl)
next
  case (Cons t ts n nodes)
  have IH: "\<exists>r. emit_flat ops nodes first b = Some r \<and>
      stops_bad 1 Not b (level_text first (live ts nodes)) r" if "ok b" "window b = W" for first b
    by (rule Cons.IH[OF _ that]) (use Cons.prems(1)[of "Suc i" for i] Cons.prems(4) in auto)
  show ?case
  proof (cases "omitted n")
    case True
    with Cons.prems(2,3) IH show ?thesis by simp
  next
    case False
    then obtain k where k: "node_path n = [k]"
      using Cons.prems(4)[of n] by (auto simp: length_Suc_conv)
    have tail: "\<exists>r. (do { b \<leftarrow> emit_node n b3; emit_flat ops nodes False b }) = Some r \<and>
        stops_bad 1 Not b3 (t @ level_text False (live ts nodes)) r"
      if b3: "ok b3" "window b3 = W" for b3
    proof -
      obtain b4 where b4: "emit_node n b3 = Some b4" "emits 1 b3 t b4"
        using Cons.prems(1)[of 0 b3] b3 False by auto
      obtain r where "emit_flat ops nodes False b4 = Some r"
        "stops_bad 1 Not b4 (level_text False (live ts nodes)) r"
        using IH[of b4 False] emitsD(1,3)[OF b4(2)] b3(2) by fastforce
      with b4 show ?thesis by (auto simp: stops_bad_def intro: emits_append)
    qed
    have "level_text first (live (t # ts) (n # nodes)) = (if first then [] else '','') @ quoted k @ '':'' @
        t @ level_text False (live ts nodes)"
      using False k by simp
    moreover have "\<exists>r. write_or (if first then Some (b, 1) else op_write ops b '','') (\<lambda>b. (b, False)) (\<lambda>b.
        write_or (write_escaped ops b k) (\<lambda>b. (b, False)) (\<lambda>b.
        write_or (op_write ops b '':'') (\<lambda>b. (b, False)) (\<lambda>b.
        do { b \<leftarrow> emit_node n b; emit_flat ops nodes False b }))) = Some r \<and>
      stops_bad 1 Not b ((if first then [] else '','') @ quoted k @ '':'' @
        t @ level_text False (live ts nodes)) r"
      by (intro stops_bad_write_or writes_separator writes_escaped writes_write tail)
        (use Cons.prems(2,3) in \<open>(blast intro: emits_ok emits_window | simp)+\<close>)
    ultimately show ?thesis
      using False k by (simp add: get_element_def)
  qed
qed

text \<open>The closing brace, whose character is the room that a formatted value needs for its terminator, and
  the count of what was written since \<open>b\<close>.\<close>

lemma brace_closes:
  assumes "ok b" "emits 0 b ''{'' b1" and e: "emits 1 b1 body b2"
  shows "\<exists>r. write_or (op_write ops b2 ''}'') (\<lambda>b. (b, 0))
        (\<lambda>b'. Some (b', op_length ops b' - op_length ops b)) = Some r \<and>
      stops_bad 0 (\<lambda>n. n \<noteq> length body + 2) b1 (body @ ''}'') r"
proof -
  obtain b3 n where 3: "op_write ops b2 ''}'' = Some (b3, n)" "emits 0 b2 ''}'' b3" "n = 0 \<longrightarrow> bad b3"
    using writes_write[OF emits_ok[OF e], of "''}''"] by (auto simp: writes_def)
  have all: "emits 0 b1 (body @ ''}'') b3" by (rule emits_close[OF e 3(2)]) simp
  have "op_length ops b3 - op_length ops b = length body + 2" if "\<not> bad b3"
    using emitsD(4)[OF emits_append[OF assms(2) all] that] op_length[OF assms(1)] op_length[OF emits_ok[OF 3(2)]] by simp
  with 3(1,3) all show ?thesis by (cases "n = 0") (auto simp: write_or_def stops_bad_def)
qed

lemma document_closes:
  assumes "ok b" "emits 0 b ''{'' b1" "emits 1 b1 body b2" "\<not> okf \<Longrightarrow> bad b2"
  shows "\<exists>r. (if \<not> okf then Some (b2, 0)
        else write_or (op_write ops b2 ''}'') (\<lambda>b. (b, 0))
          (\<lambda>b'. Some (b', op_length ops b' - op_length ops b))) = Some r \<and>
      stops_bad 0 (\<lambda>n. n \<noteq> length body + 2) b1 (body @ ''}'') r"
proof (cases okf)
  case False
  have "emits 0 b1 (body @ ''}'') b2"
    by (rule emits_close[OF assms(3)]) (use False assms(4) emits_ok[OF assms(3)] in \<open>auto intro: emits_bad\<close>)
  with False assms(4) show ?thesis by (simp add: stops_bad_def)
next
  case True
  with brace_closes[OF assms(1-3)] show ?thesis by simp
qed

lemma flat_paths:
  assumes "paths_ok (map fst (live txt nodes))" "length txt = length nodes"
    and "\<not> list_ex (\<lambda>n. length (node_path n) > 1) nodes" "n \<in> set nodes" "\<not> omitted n"
  shows "length (node_path n) = 1"
proof -
  have "node_path n \<in> set (map fst (live txt nodes))"
    using assms(2,4,5) by (force simp: live_def in_set_zip in_set_conv_nth)
  then have "node_path n \<noteq> []" using assms(1) unfolding paths_ok_def by metis
  moreover have "\<not> length (node_path n) > 1" using assms(3,4) by (auto simp: list_ex_iff)
  ultimately show ?thesis by (cases "node_path n") auto
qed

text \<open>The two routes of \<^const>\<open>emit_json_nodes\<close> after the opening brace.\<close>

lemma flat_closes:
  assumes nodes: "nodes_emit nodes txt W" and b: "ok b" "window b = W"
    and paths: "paths_ok (map fst (live txt nodes))" "length txt = length nodes" "\<not> list_ex (\<lambda>n. length (node_path n) > 1) nodes"
    and b1: "emits 0 b ''{'' b1"
  shows "\<exists>r. (do { (b', ok) \<leftarrow> emit_flat ops nodes True b1;
        if \<not> ok then Some (b', 0)
        else write_or (op_write ops b' ''}'') (\<lambda>b. (b, 0)) (\<lambda>b'. Some (b', op_length ops b' - op_length ops b)) }) = Some r \<and>
      stops_bad 0 (\<lambda>n. n \<noteq> length (document_text (live txt nodes))) b1 (level_text True (live txt nodes) @ ''}'') r"
proof -
  obtain b2 okf where 2: "emit_flat ops nodes True b1 = Some (b2, okf)"
    "emits 1 b1 (level_text True (live txt nodes)) b2" "\<not> okf \<longrightarrow> bad b2"
    using emit_flat_emits[OF paths(2) nodes[unfolded nodes_emit_def, THEN conjunct2, rule_format] emits_ok[OF b1]
        emits_window[OF b1 b(2)] flat_paths[OF paths]]
    by (fastforce simp: stops_bad_def)
  then show ?thesis using document_closes[OF b(1) b1 2(2), of okf] by (cases okf) (simp_all add: document_text_eq)
qed

lemma nested_closes:
  assumes nodes: "nodes_emit nodes txt W" and b: "ok b" "window b = W"
    and paths: "paths_ok (map fst (live txt nodes))" "length txt = length nodes" and b1: "emits 0 b ''{'' b1"
  shows "\<exists>r. (do { (b', fl, ok) \<leftarrow> emit_level ops nodes [] 0 True (replicate (length nodes) False) b1;
        if \<not> ok then Some (b', 0)
        else write_or (op_write ops b' ''}'') (\<lambda>b. (b, 0)) (\<lambda>b'. Some (b', op_length ops b' - op_length ops b)) }) = Some r \<and>
      stops_bad 0 (\<lambda>n. n \<noteq> length (document_text (live txt nodes))) b1 (level_text True (live txt nodes) @ ''}'') r"
proof -
  have level: "level_emits nodes txt W [] 0 (replicate (length nodes) False)"
    by (rule emit_level_emits[OF nodes]) (use paths(1) in \<open>simp_all add: emitted_before_def todo_all[OF paths(2)]\<close>)
  obtain b2 fl okf where 2: "emit_level ops nodes [] 0 True (replicate (length nodes) False) b1 = Some (b2, fl, okf)"
    "emits 1 b1 (level_text True (live txt nodes)) b2" "\<not> okf \<longrightarrow> bad b2"
    using level_emitsD[OF level emits_ok[OF b1] emits_window[OF b1 b(2)], of True]
    by (fastforce simp: level_result_def todo_all[OF paths(2)])
  then show ?thesis using document_closes[OF b(1) b1 2(2), of okf] by (cases okf) (simp_all add: document_text_eq)
qed

lemma emit_json_nodes_emits:
  assumes nodes: "nodes_emit nodes txt W"
    and b: "ok b" "window b = W" and paths: "paths_ok (map fst (live txt nodes))" "length txt = length nodes"
  shows "\<exists>r. emit_json_nodes ops nodes b = Some r \<and>
    stops_bad 0 (\<lambda>n. n \<noteq> length (document_text (live txt nodes))) b (document_text (live txt nodes)) r"
proof -
  note opened = stops_bad_write_or[OF writes_write[OF b(1)], of "''{''", OF list.distinct(2), where z = 0]
  consider (empty) "nodes = []" | (flat) "nodes \<noteq> []" "\<not> list_ex (\<lambda>n. length (node_path n) > 1) nodes"
    | (nested) "nodes \<noteq> []" "list_ex (\<lambda>n. length (node_path n) > 1) nodes" by blast
  then show ?thesis
  proof cases
    case empty
    then show ?thesis
      by (cases rule: write_cases[OF b(1), of "''{}''"])
        (simp_all add: emit_json_nodes_def stops_bad_def live_def document_text_def)
  next
    case flat
    with opened[OF flat_closes[OF nodes b paths flat(2)]] show ?thesis
      unfolding document_text_eq by (simp add: emit_json_nodes_def Let_def)
  next
    case nested
    with opened[OF nested_closes[OF nodes b paths]] show ?thesis
      unfolding document_text_eq by (simp add: emit_json_nodes_def Let_def path_view_def)
  qed
qed

end

end
