(* ===== verification/Values.thy ===== *)
theory Values
  imports Doc_Tree
begin

text \<open>
  The values of a document (\<open>stack_json/value.hpp\<close>, \<open>document.hpp\<close>, \<open>node.hpp\<close>,
  \<open>array_emitter.hpp\<close>, \<open>builder.hpp\<close> and the scalar overloads of \<open>document.cpp\<close>). The C++
  overload set of \<open>write_json_value\<close> is the datatype \<open>jval\<close>, one constructor per overload, and the
  text a value stands for is \<open>jtext\<close>. Every value written to a buffer that keeps the contract
  produces its text.
\<close>

section \<open>Values and nodes\<close>

text \<open>
  \<open>long\<close> has 32 bits on the target. A double is given by the text \<open>%g\<close> makes of it (the C library's
  work, \<^const>\<open>None\<close> an output error). A lambda over a \<open>Printer\<close> is the sequence of its calls, each
  with its formatted text; a lambda over an \<open>ArrayEmitter\<close> the sequence of the elements it emits,
  with a flag that says whether it returns at the first \<open>emit\<close> that fails. \<open>ArrayDocument\<close> and
  \<open>SpanArrayDocument\<close> have the same loop.
\<close>

datatype printer_op = Print "bytes option" | Raw "bytes option"

datatype jval =
    LongLong "64 word" | ULongLong "64 word" | Long "32 word" | ULong "32 word"
  | SInt "32 word" | UInt "32 word" | Short "16 word" | UShort "16 word"
  | SChar "8 word" | UChar "8 word" | Double "bytes option" | Float "bytes option"
  | Bool bool | Null | CStr "bytes option" | Str bytes
  | Printed "printer_op list" | Streamed bool "jval list" | Elements "jval list"
  | Doc "jnode list"
and jnode = JNode (jnode_path: path) (jnode_omitted: bool) (jnode_val: jval)

text \<open>\<open>node\<close>, \<open>node_if\<close> and the overload of \<open>node_if\<close> that omits null strings.\<close>

definition jnode_of :: "path \<Rightarrow> jval \<Rightarrow> jnode" where
  "jnode_of p v = JNode p False v"

definition jnode_if :: "bool \<Rightarrow> path \<Rightarrow> jval \<Rightarrow> jnode" where
  "jnode_if condition p v = JNode p (\<not> condition) v"

definition jnode_if_str :: "path \<Rightarrow> bytes option \<Rightarrow> jnode" where
  "jnode_if_str p s = jnode_if (s \<noteq> None) p (CStr s)"

section \<open>Writing values\<close>

text \<open>A call of \<open>write\<close> whose result is dropped.\<close>

definition write_drop :: "'b buffer_ops \<Rightarrow> 'b \<Rightarrow> bytes \<Rightarrow> 'b option" where
  "write_drop ops b s = do { (b, _) \<leftarrow> op_write ops b s; Some b }"

definition escaped_drop :: "'b buffer_ops \<Rightarrow> 'b \<Rightarrow> bytes \<Rightarrow> 'b option" where
  "escaped_drop ops b s = do { (b, _) \<leftarrow> write_escaped ops b s; Some b }"

fun printer_call :: "'b buffer_ops \<Rightarrow> 'b \<Rightarrow> printer_op \<Rightarrow> ('b \<times> nat) option" where
  "printer_call ops b (Print formatted) = print_call ops b formatted"
| "printer_call ops b (Raw formatted) = write_raw ops b formatted"

fun printer_calls :: "'b buffer_ops \<Rightarrow> printer_op list \<Rightarrow> 'b \<Rightarrow> 'b option" where
  "printer_calls ops [] b = Some b"
| "printer_calls ops (c # cs) b = do { (b, _) \<leftarrow> printer_call ops b c; printer_calls ops cs b }"

text \<open>\<open>ArrayEmitter\<close>: its state is \<open>first_\<close>. The results are the state and the C++ result.\<close>

definition before_element :: "'b buffer_ops \<Rightarrow> 'b \<Rightarrow> bool \<Rightarrow> ('b \<times> bool \<times> bool) option" where
  "before_element ops b first =
     (if op_bad ops b then Some (b, first, False)
      else if \<not> first then do { (b, n) \<leftarrow> op_write ops b '',''; Some (b, first, n \<noteq> 0) }
      else Some (b, False, True))"

definition array_emit ::
  "'b buffer_ops \<Rightarrow> ('b \<Rightarrow> 'b option) \<Rightarrow> 'b \<Rightarrow> bool \<Rightarrow> ('b \<times> bool \<times> bool) option" where
  "array_emit ops emit_value b first =
     do { (b, first, ok) \<leftarrow> before_element ops b first;
          if \<not> ok then Some (b, first, False)
          else do { b \<leftarrow> emit_value b; Some (b, first, \<not> op_bad ops b) } }"

fun stream_elements ::
  "'b buffer_ops \<Rightarrow> bool \<Rightarrow> ('b \<Rightarrow> 'b option) list \<Rightarrow> bool \<Rightarrow> 'b \<Rightarrow> 'b option" where
  "stream_elements ops stop [] first b = Some b"
| "stream_elements ops stop (e # es) first b =
     do { (b, first, ok) \<leftarrow> array_emit ops e b first;
          if stop \<and> \<not> ok then Some b else stream_elements ops stop es first b }"

text \<open>The element loop of \<open>ArrayDocument\<close> and \<open>SpanArrayDocument\<close>.\<close>

fun emit_elements :: "'b buffer_ops \<Rightarrow> ('b \<Rightarrow> 'b option) list \<Rightarrow> bool \<Rightarrow> 'b \<Rightarrow> 'b option" where
  "emit_elements ops [] first b = Some b"
| "emit_elements ops (e # es) first b =
     do { b \<leftarrow> (if \<not> first then write_drop ops b '','' else Some b);
          b \<leftarrow> e b;
          emit_elements ops es False b }"

text \<open>\<open>Document::emit_value\<close>: the nodes are members of the document's tuple.\<close>

definition document_emit :: "'b buffer_ops \<Rightarrow> 'b node list \<Rightarrow> 'b \<Rightarrow> ('b \<times> nat) option" where
  "document_emit ops nodes b =
     (if length nodes = 0 then op_write ops b ''{}'' else emit_json_nodes ops (placed nodes) b)"

fun write_json_value :: "'b buffer_ops \<Rightarrow> jval \<Rightarrow> 'b \<Rightarrow> 'b option"
and node_of_jnode :: "'b buffer_ops \<Rightarrow> jnode \<Rightarrow> 'b node"
where
  "write_json_value ops (LongLong v) b = write_signed ops b v"
| "write_json_value ops (ULongLong v) b = write_unsigned ops b v"
| "write_json_value ops (Long v) b = write_signed ops b v"
| "write_json_value ops (ULong v) b = write_unsigned ops b v"
| "write_json_value ops (SInt v) b = write_signed ops b v"
| "write_json_value ops (UInt v) b = write_unsigned ops b v"
| "write_json_value ops (Short v) b = write_signed ops b v"
| "write_json_value ops (UShort v) b = write_unsigned ops b v"
| "write_json_value ops (SChar v) b = write_signed ops b (scast v :: 32 word)"
| "write_json_value ops (UChar v) b = write_unsigned ops b (ucast v :: 32 word)"
| "write_json_value ops (Double formatted) b = do { (b, _) \<leftarrow> printx ops b formatted; Some b }"
| "write_json_value ops (Float formatted) b = do { (b, _) \<leftarrow> printx ops b formatted; Some b }"
| "write_json_value ops (Bool v) b = write_drop ops b (if v then ''true'' else ''false'')"
| "write_json_value ops Null b = write_drop ops b ''null''"
| "write_json_value ops (CStr s) b =
     (case s of None \<Rightarrow> write_drop ops b ''null'' | Some s \<Rightarrow> escaped_drop ops b s)"
| "write_json_value ops (Str s) b = escaped_drop ops b s"
| "write_json_value ops (Printed calls) b =
     do { b \<leftarrow> write_drop ops b [ch_quote];
          b \<leftarrow> printer_calls ops calls b;
          write_drop ops b [ch_quote] }"
| "write_json_value ops (Streamed stop vs) b =
     do { b \<leftarrow> write_drop ops b ''['';
          b \<leftarrow> stream_elements ops stop (map (\<lambda>v b. write_json_value ops v b) vs) True b;
          write_drop ops b '']'' }"
| "write_json_value ops (Elements vs) b =
     do { b \<leftarrow> write_drop ops b ''['';
          b \<leftarrow> emit_elements ops (map (\<lambda>v b. write_json_value ops v b) vs) True b;
          write_drop ops b '']'' }"
| "write_json_value ops (Doc ns) b =
     do { (b, _) \<leftarrow> document_emit ops (map (node_of_jnode ops) ns) b; Some b }"
| "node_of_jnode ops (JNode p om v) =
     \<lparr>node_id = 0, node_path = p, omitted = om, emit_node = (\<lambda>b. write_json_value ops v b)\<rparr>"

text \<open>\<open>Document::emit\<close> and \<open>StreamArrayDocument::emit\<close>: the number of characters added.\<close>

definition stack_json_emit :: "'b buffer_ops \<Rightarrow> jnode list \<Rightarrow> 'b \<Rightarrow> ('b \<times> nat) option" where
  "stack_json_emit ops ns b = document_emit ops (map (node_of_jnode ops) ns) b"

definition stream_array_emit :: "'b buffer_ops \<Rightarrow> bool \<Rightarrow> jval list \<Rightarrow> 'b \<Rightarrow> ('b \<times> nat) option" where
  "stream_array_emit ops stop vs b =
     (let before_len = op_length ops b in
      do { b \<leftarrow> write_json_value ops (Streamed stop vs) b;
           Some (b, op_length ops b - before_len) })"

text \<open>\<open>SpanArrayDocument::emit_value\<close> iterates over a span and calls \<open>write_json_value\<close> itself; what it writes is what
  \<open>ArrayDocument\<close> writes for the same elements.\<close>

fun span_loop :: "'b buffer_ops \<Rightarrow> jval list \<Rightarrow> bool \<Rightarrow> 'b \<Rightarrow> 'b option" where
  "span_loop ops [] first b = Some b"
| "span_loop ops (elem # elems) first b =
     do { b \<leftarrow> (if \<not> first then write_drop ops b '','' else Some b);
          b \<leftarrow> write_json_value ops elem b;
          span_loop ops elems False b }"

definition span_emit_value :: "'b buffer_ops \<Rightarrow> jval list \<Rightarrow> 'b \<Rightarrow> 'b option" where
  "span_emit_value ops elems b =
     do { b \<leftarrow> write_drop ops b ''['';
          b \<leftarrow> span_loop ops elems True b;
          write_drop ops b '']'' }"

lemma span_loop_elements: "span_loop ops vs first b = emit_elements ops (map (\<lambda>v b. write_json_value ops v b) vs) first b"
  by (induction vs arbitrary: first b) (auto intro!: Option.bind_cong)

lemma span_emit_value_elements: "span_emit_value ops vs b = write_json_value ops (Elements vs) b"
  by (simp add: span_emit_value_def span_loop_elements)

text \<open>The factories.\<close>

definition span_array :: "jval list \<Rightarrow> jval" where
  "span_array c = Elements c"

definition stack_array :: "jval list \<Rightarrow> jval" where
  "stack_array elems = Elements elems"

definition stream_array :: "bool \<Rightarrow> jval list \<Rightarrow> jval" where
  "stream_array stop elems = Streamed stop elems"

definition stack_json :: "jnode list \<Rightarrow> jval" where
  "stack_json nodes = Doc nodes"

section \<open>Builder\<close>

text \<open>
  \<open>storage_\<close> is the fixed array of node pointers and \<open>count_\<close> the number in use; a slot that has
  not been written is \<^const>\<open>None\<close> (\<open>StackBuilder\<close> does not initialise its array). A pointer is the
  address of the node with the node it points to; a document added twice is stored with the same addresses.
\<close>

record builder =
  storage :: "(nat \<times> jnode) option list"
  bcount :: nat

definition stack_builder_new :: "nat \<Rightarrow> builder" where
  "stack_builder_new n = \<lparr>storage = replicate n None, bcount = 0\<rparr>"

fun append_pointers_to ::
  "(nat \<times> jnode) list \<Rightarrow> (nat \<times> jnode) option list \<Rightarrow> nat \<Rightarrow> (nat \<times> jnode) option list \<times> nat"
where
  "append_pointers_to [] dest count = (dest, count)"
| "append_pointers_to (n # ns) dest count =
     (if count < length dest then append_pointers_to ns (dest[count := Some n]) (count + 1)
      else append_pointers_to ns dest count)"

definition builder_add :: "builder \<Rightarrow> (nat \<times> jnode) list \<Rightarrow> builder" where
  "builder_add bl ns =
     (let (st, c) = append_pointers_to ns (storage bl) (bcount bl) in bl\<lparr>storage := st, bcount := c\<rparr>)"

definition pointed_node :: "'b buffer_ops \<Rightarrow> nat \<times> jnode \<Rightarrow> 'b node" where
  "pointed_node ops ptr = (node_of_jnode ops (snd ptr))\<lparr>node_id := fst ptr\<rparr>"

definition builder_emit :: "'b buffer_ops \<Rightarrow> builder \<Rightarrow> 'b \<Rightarrow> ('b \<times> nat) option" where
  "builder_emit ops bl b =
     do { ns \<leftarrow> those (take (bcount bl) (storage bl));
          emit_json_nodes ops (map (pointed_node ops) ns) b }"

section \<open>The text of a value\<close>

fun op_text :: "printer_op \<Rightarrow> bytes" where
  "op_text (Print formatted) = (case formatted of None \<Rightarrow> [] | Some s \<Rightarrow> escape s)"
| "op_text (Raw formatted) = (case formatted of None \<Rightarrow> [] | Some s \<Rightarrow> s)"

fun jtext :: "jval \<Rightarrow> bytes" and jentry :: "jnode \<Rightarrow> (path \<times> bytes) list" where
  "jtext (LongLong v) = int_string (sint v)"
| "jtext (ULongLong v) = dec_string (unat v)"
| "jtext (Long v) = int_string (sint v)"
| "jtext (ULong v) = dec_string (unat v)"
| "jtext (SInt v) = int_string (sint v)"
| "jtext (UInt v) = dec_string (unat v)"
| "jtext (Short v) = int_string (sint v)"
| "jtext (UShort v) = dec_string (unat v)"
| "jtext (SChar v) = int_string (sint v)"
| "jtext (UChar v) = dec_string (unat v)"
| "jtext (Double formatted) = (case formatted of None \<Rightarrow> [] | Some s \<Rightarrow> s)"
| "jtext (Float formatted) = (case formatted of None \<Rightarrow> [] | Some s \<Rightarrow> s)"
| "jtext (Bool v) = (if v then ''true'' else ''false'')"
| "jtext Null = ''null''"
| "jtext (CStr s) = (case s of None \<Rightarrow> ''null'' | Some s \<Rightarrow> quoted s)"
| "jtext (Str s) = quoted s"
| "jtext (Printed calls) = ch_quote # concat (map op_text calls) @ [ch_quote]"
| "jtext (Streamed stop vs) = ''['' @ commas True (map jtext vs) @ '']''"
| "jtext (Elements vs) = ''['' @ commas True (map jtext vs) @ '']''"
| "jtext (Doc ns) = document_text (concat (map jentry ns))"
| "jentry (JNode p om v) = (if om then [] else [(p, jtext v)])"

text \<open>
  What emission relies on: formatted texts exist and fit the window \<open>w\<close> with their terminator
  (always so on a \<open>StackBuffer\<close>), and the paths of every document can be traversed.
\<close>

fun formatted_ok :: "enat \<Rightarrow> bool \<Rightarrow> bytes option \<Rightarrow> bool" where
  "formatted_ok w escaped None = False"
| "formatted_ok w escaped (Some s) = (enat (length (if escaped then escape s else s) + 1) \<le> w)"

fun op_fits :: "enat \<Rightarrow> printer_op \<Rightarrow> bool" where
  "op_fits w (Print formatted) = formatted_ok w True formatted"
| "op_fits w (Raw formatted) = formatted_ok w False formatted"

fun jval_ok :: "enat \<Rightarrow> jval \<Rightarrow> bool" and jnode_ok :: "enat \<Rightarrow> jnode \<Rightarrow> bool" where
  "jval_ok w (Double formatted) = formatted_ok w False formatted"
| "jval_ok w (Float formatted) = formatted_ok w False formatted"
| "jval_ok w (Printed calls) = list_all (op_fits w) calls"
| "jval_ok w (Streamed stop vs) = list_all (jval_ok w) vs"
| "jval_ok w (Elements vs) = list_all (jval_ok w) vs"
| "jval_ok w (Doc ns) = (list_all (jnode_ok w) ns \<and> paths_ok (map fst (concat (map jentry ns))))"
| "jval_ok w v = True"
| "jnode_ok w (JNode p om v) = (om \<or> jval_ok w v)"

lemma live_jnodes:
  "live (map (jtext \<circ> jnode_val) ns) (map (node_of_jnode ops) ns) = concat (map jentry ns)"
proof (induction ns)
  case (Cons n ns)
  then show ?case by (cases n) simp
qed (simp add: live_def)

lemma live_placed: "length txt = length nodes \<Longrightarrow> live txt (placed nodes) = live txt nodes"
proof -
  assume len: "length txt = length nodes"
  have *: "live txt nodes = map (\<lambda>i. (node_path (nodes ! i), txt ! i))
      (filter (\<lambda>i. \<not> omitted (nodes ! i)) [0..<length nodes])" if "length txt = length nodes"
      for nodes :: "'b node list"
  proof -
    have "zip nodes txt = map (\<lambda>i. (nodes ! i, txt ! i)) [0..<length nodes]"
      using that by (intro nth_equalityI) auto
    then show ?thesis by (simp add: live_def filter_map o_def)
  qed
  have "filter (\<lambda>i. \<not> omitted (placed nodes ! i)) [0..<length nodes] = filter (\<lambda>i. \<not> omitted (nodes ! i)) [0..<length nodes]"
    by (rule filter_cong) auto
  with *[of nodes] *[of "placed nodes"] len show ?thesis by simp
qed


section \<open>Every value writes its text\<close>

context buffer
begin

text \<open>A step of a routine that ignores the results of its writes.\<close>

definition yields :: "'b \<Rightarrow> bytes \<Rightarrow> 'b option \<Rightarrow> bool" where
  "yields b out r \<longleftrightarrow> (\<exists>b'. r = Some b' \<and> emits 1 b out b')"

lemma yields_bind:
  assumes "yields b s r" "\<And>b1. emits 1 b s b1 \<Longrightarrow> yields b1 t (k b1)"
  shows "yields b (s @ t) (r \<bind> k)"
  using assms unfolding yields_def by (metis bind.bind_lunit emits_append)

lemma yields_drop: "ok b \<Longrightarrow> yields b s (write_drop ops b s)"
  by (cases rule: write_cases[of b s])
    (auto simp: yields_def write_drop_def intro: emits_mono)

lemma yields_escaped: "ok b \<Longrightarrow> yields b (quoted s) (escaped_drop ops b s)"
  using write_escaped_emits[of b s]
  by (auto simp: yields_def escaped_drop_def intro: emits_mono)

lemma yields_signed:
  "ok b \<Longrightarrow> 8 \<le> LENGTH('a) \<Longrightarrow> LENGTH('a) \<le> 64 \<Longrightarrow> 20 \<le> window b \<Longrightarrow>
    yields b (int_string (sint v)) (write_signed ops b (v :: 'a::len word))"
  using write_signed_emits[of b v] by (auto simp: yields_def intro: emits_mono)

lemma yields_unsigned:
  "ok b \<Longrightarrow> 8 \<le> LENGTH('a) \<Longrightarrow> LENGTH('a) \<le> 64 \<Longrightarrow> 20 \<le> window b \<Longrightarrow>
    yields b (dec_string (unat v)) (write_unsigned ops b (v :: 'a::len word))"
  using write_unsigned_emits[of b v] by (auto simp: yields_def intro: emits_mono)

lemma yields_printx:
  "ok b \<Longrightarrow> formatted_ok (window b) False f \<Longrightarrow>
    yields b (case f of None \<Rightarrow> [] | Some s \<Rightarrow> s) (do { (b, _) \<leftarrow> printx ops b f; Some b })"
  using vprint_emits[of b False "the f"] by (cases f) (auto simp: yields_def printx_def)

lemma yields_call:
  "ok b \<Longrightarrow> op_fits (window b) c \<Longrightarrow>
    yields b (op_text c) (do { (b, _) \<leftarrow> printer_call ops b c; Some b })"
proof (cases c)
  case (Print f)
  then show "ok b \<Longrightarrow> op_fits (window b) c \<Longrightarrow> ?thesis"
    using vprint_emits[of b True "the f"] by (cases f) (auto simp: yields_def print_call_def)
next
  case (Raw f)
  then show "ok b \<Longrightarrow> op_fits (window b) c \<Longrightarrow> ?thesis"
    using vprint_emits[of b False "the f"] by (cases f) (auto simp: yields_def write_raw_def)
qed

lemma yields_calls:
  "ok b \<Longrightarrow> list_all (op_fits (window b)) cs \<Longrightarrow>
    yields b (concat (map op_text cs)) (printer_calls ops cs b)"
proof (induction cs arbitrary: b)
  case Nil
  then show ?case by (simp add: yields_def emits_refl)
next
  case (Cons c cs)
  have "yields b (op_text c @ concat (map op_text cs))
      ((do { (b, _) \<leftarrow> printer_call ops b c; Some b }) \<bind> printer_calls ops cs)"
    by (rule yields_bind[OF yields_call]) (use Cons in \<open>auto simp: emitsD\<close>)
  then show ?case by (simp add: case_prod_unfold)
qed

text \<open>The element loops, for closures that yield their texts.\<close>

lemma emit_elements_yields:
  "length es = length txts \<Longrightarrow>
    (\<And>i b. i < length es \<Longrightarrow> ok b \<Longrightarrow> window b = W \<Longrightarrow> yields b (txts ! i) ((es ! i) b)) \<Longrightarrow>
    ok b \<Longrightarrow> window b = W \<Longrightarrow> yields b (commas first txts) (emit_elements ops es first b)"
proof (induction es txts arbitrary: first b rule: list_induct2)
  case Nil
  then show ?case by (simp add: yields_def emits_refl)
next
  case (Cons e es t ts)
  have sep: "yields b (if first then [] else '','') (if \<not> first then write_drop ops b '','' else Some b)"
    using Cons.prems(2) yields_drop by (simp add: yields_def emits_refl)
  have rest: "yields b1 (commas False ts) (emit_elements ops es False b1)" if "ok b1" "window b1 = W" for b1
    by (rule Cons.IH[OF _ that]) (use Cons.prems(1)[of "Suc _"] in auto)
  show ?case
    unfolding commas.simps emit_elements.simps
    by (intro yields_bind[OF sep] yields_bind rest)
      (use Cons.prems(1)[of 0] Cons.prems(3) in \<open>(auto intro: emits_ok emits_window simp: emitsD)\<close>)
qed

lemma array_emit_yields:
  assumes "ok b" "window b = W" and e: "\<And>b. ok b \<Longrightarrow> window b = W \<Longrightarrow> yields b t (e b)"
  shows "\<exists>b' first' r. array_emit ops e b first = Some (b', first', r) \<and>
    emits 1 b ((if first then [] else '','') @ t) b' \<and> (r \<longrightarrow> \<not> first') \<and> (\<not> r \<longrightarrow> bad b')"
proof (cases "bad b")
  case True
  with assms(1) show ?thesis
    by (auto simp: array_emit_def before_element_def intro!: emits_bad)
next
  case nb: False
  have sep: "\<exists>b1 r. before_element ops b first = Some (b1, False, r) \<and>
      emits 1 b (if first then [] else '','') b1 \<and> (\<not> r \<longrightarrow> bad b1)"
    using nb assms(1) writes_write[OF assms(1), of "'',''"]
    by (fastforce simp: before_element_def writes_def emits_refl intro: emits_mono)
  then obtain b1 r where 1: "before_element ops b first = Some (b1, False, r)"
    "emits 1 b (if first then [] else '','') b1" "\<not> r \<longrightarrow> bad b1" by blast
  show ?thesis
  proof (cases r)
    case False
    with 1 emits_stop[OF 1(2), of t] show ?thesis by (auto simp: array_emit_def)
  next
    case True
    obtain b2 where "e b1 = Some b2" "emits 1 b1 t b2"
      using e[of b1] emitsD(1,3)[OF 1(2)] assms(2) by (auto simp: yields_def)
    with True 1 emits_append[OF 1(2)] show ?thesis by (auto simp: array_emit_def)
  qed
qed

lemma emits_bad_any: "emits k b s b' \<Longrightarrow> bad b \<Longrightarrow> emits k b t b'"
  by (auto simp: emits_def)

lemma stream_elements_yields:
  "length es = length txts \<Longrightarrow>
    (\<And>i b. i < length es \<Longrightarrow> ok b \<Longrightarrow> window b = W \<Longrightarrow> yields b (txts ! i) ((es ! i) b)) \<Longrightarrow>
    ok b \<Longrightarrow> window b = W \<Longrightarrow> yields b (commas first txts) (stream_elements ops stop es first b)"
proof (induction es txts arbitrary: first b rule: list_induct2)
  case Nil
  then show ?case by (simp add: yields_def emits_refl)
next
  case (Cons e es t ts)
  obtain b1 first1 r where 1: "array_emit ops e b first = Some (b1, first1, r)"
    "emits 1 b ((if first then [] else '','') @ t) b1" "r \<longrightarrow> \<not> first1" "\<not> r \<longrightarrow> bad b1"
    using array_emit_yields[OF Cons.prems(2,3), of t e first] Cons.prems(1)[of 0] by auto
  have rest: "yields b1 (commas f ts) (stream_elements ops stop es f b1)" for f
    by (rule Cons.IH) (use Cons.prems(1)[of "Suc _"] Cons.prems(3) emitsD(1,3)[OF 1(2)] in auto)
  have split: "commas first (t # ts) = ((if first then [] else '','') @ t) @ commas False ts"
    by simp
  show ?case
  proof (cases "r")
    case True
    with 1 rest[of False] emits_append[OF 1(2)] show ?thesis
      unfolding split by (auto simp: yields_def)
  next
    case False
    then have bad: "bad b1" using 1(4) by simp
    show ?thesis
    proof (cases stop)
      case True
      with False 1(1) emits_stop[OF 1(2) bad] show ?thesis
        unfolding split by (auto simp: yields_def)
    next
      case go: False
      obtain b2 where b2: "stream_elements ops stop es first1 b1 = Some b2"
        "emits 1 b1 (commas first1 ts) b2"
        using rest[of first1] by (auto simp: yields_def)
      from go 1(1) b2(1) emits_append[OF 1(2) emits_bad_any[OF b2(2) bad]] show ?thesis
        unfolding split by (auto simp: yields_def)
    qed
  qed
qed

lemma document_emit_emits:
  assumes nodes: "\<And>i b. i < length nodes \<Longrightarrow> \<not> omitted (nodes ! i) \<Longrightarrow> ok b \<Longrightarrow> window b = W \<Longrightarrow>
      \<exists>b'. emit_node (nodes ! i) b = Some b' \<and> emits 1 b (txt ! i) b'"
    and "ok b" "window b = W" and paths: "paths_ok (map fst (live txt nodes))" "length txt = length nodes"
  shows "\<exists>r. document_emit ops nodes b = Some r \<and>
    stops_bad 0 (\<lambda>n. n \<noteq> length (document_text (live txt nodes))) b (document_text (live txt nodes)) r"
proof -
  have "document_emit ops nodes b = emit_json_nodes ops (placed nodes) b"
    by (cases "nodes = []") (simp_all add: document_emit_def emit_json_nodes_def)
  moreover have "nodes_emit (placed nodes) txt W"
    using nodes by (simp add: nodes_emit_def)
  ultimately show ?thesis
    using emit_json_nodes_emits[of "placed nodes" "txt" W b, OF _ assms(2,3)] paths by (simp add: live_placed)
qed

lemma doc_emits:
  assumes "\<And>n b. n \<in> set ns \<Longrightarrow> jnode_ok W n \<Longrightarrow> \<not> jnode_omitted n \<Longrightarrow> ok b \<Longrightarrow> window b = W \<Longrightarrow>
      yields b (jtext (jnode_val n)) (write_json_value ops (jnode_val n) b)"
    and "ok b" "window b = W" "jval_ok W (Doc ns)"
  shows "\<exists>r. stack_json_emit ops ns b = Some r \<and> stops_bad 0 (\<lambda>n. n \<noteq> length (jtext (Doc ns))) b (jtext (Doc ns)) r"
proof -
  have "\<exists>b'. emit_node (map (node_of_jnode ops) ns ! i) b = Some b' \<and>
      emits 1 b (map (jtext \<circ> jnode_val) ns ! i) b'"
    if "i < length (map (node_of_jnode ops) ns)" "\<not> omitted (map (node_of_jnode ops) ns ! i)"
      "ok b" "window b = W" for i b
  proof -
    from that(1) have i: "i < length ns" by simp
    obtain p om v where n: "ns ! i = JNode p om v" by (cases "ns ! i")
    have "jnode_ok W (ns ! i)" using assms(4) i by (simp add: list_all_length)
    moreover have "\<not> jnode_omitted (ns ! i)" using that(2) i by (simp add: n)
    ultimately have ok: "jnode_ok W (ns ! i)" "\<not> jnode_omitted (ns ! i)" by blast+
    from assms(1)[OF nth_mem[OF i] ok that(3,4)] i show ?thesis
      by (simp add: yields_def n)
  qed
  then have "\<exists>r. document_emit ops (map (node_of_jnode ops) ns) b = Some r \<and>
      stops_bad 0 (\<lambda>n. n \<noteq> length (document_text (live (map (jtext \<circ> jnode_val) ns) (map (node_of_jnode ops) ns))))
        b (document_text (live (map (jtext \<circ> jnode_val) ns) (map (node_of_jnode ops) ns))) r"
    by (rule document_emit_emits[OF _ assms(2,3)]) (use assms(4) in \<open>simp_all add: live_jnodes\<close>)
  then show ?thesis by (simp add: live_jnodes stack_json_emit_def)
qed

lemma bracket_yields:
  assumes "ok b" and "\<And>b1. emits 1 b l b1 \<Longrightarrow> yields b1 out (k b1)"
  shows "yields b (l @ out @ r)
    (do { b \<leftarrow> write_drop ops b l; b \<leftarrow> k b; write_drop ops b r })"
  by (rule yields_bind[OF yields_drop[OF assms(1)] yields_bind[OF assms(2) yields_drop]])
    (auto intro: emits_ok)

text \<open>An array in brackets, for either of the loops over its elements.\<close>

lemma array_yields:
  assumes "\<And>v b. v \<in> set vs \<Longrightarrow> jval_ok W v \<Longrightarrow> ok b \<Longrightarrow> window b = W \<Longrightarrow> yields b (jtext v) (write_json_value ops v b)"
    and "list_all (jval_ok W) vs" "ok b" "window b = W"
    and loop: "\<And>b1. (\<And>i b. i < length vs \<Longrightarrow> ok b \<Longrightarrow> window b = W \<Longrightarrow>
        yields b (jtext (vs ! i)) (write_json_value ops (vs ! i) b)) \<Longrightarrow> ok b1 \<Longrightarrow> window b1 = W \<Longrightarrow>
      yields b1 (commas True (map jtext vs)) (k b1)"
  shows "yields b (''['' @ commas True (map jtext vs) @ '']'')
    (do { b \<leftarrow> write_drop ops b ''[''; b \<leftarrow> k b; write_drop ops b '']'' })"
proof (rule bracket_yields[OF assms(3)])
  fix b1 assume "emits 1 b ''['' b1"
  with assms(1,2,4) show "yields b1 (commas True (map jtext vs)) (k b1)"
    by (intro loop) (auto simp: list_all_length emitsD)
qed

lemma write_json_value_yields:
  "jval_ok W v \<Longrightarrow> ok b \<Longrightarrow> window b = W \<Longrightarrow> 20 \<le> W \<Longrightarrow> yields b (jtext v) (write_json_value ops v b)"
  "jnode_ok W n \<Longrightarrow> \<not> jnode_omitted n \<Longrightarrow> ok b \<Longrightarrow> window b = W \<Longrightarrow> 20 \<le> W \<Longrightarrow>
    yields b (jtext (jnode_val n)) (write_json_value ops (jnode_val n) b)"
proof (induction v and n arbitrary: b and b)
  case (Printed cs)
  with bracket_yields[OF Printed(2), of "[ch_quote]" "concat (map op_text cs)" "printer_calls ops cs"]
  show ?case by (simp add: yields_calls emitsD)
next
  case (Streamed stop vs)
  have "yields b (''['' @ commas True (map jtext vs) @ '']'')
      (do { b \<leftarrow> write_drop ops b ''[''; b \<leftarrow> stream_elements ops stop (map (\<lambda>v b. write_json_value ops v b) vs) True b;
            write_drop ops b '']'' })"
    by (rule array_yields[OF Streamed.IH[OF _ _ _ _ Streamed.prems(4)]])
      (use Streamed.prems in \<open>auto intro!: stream_elements_yields[where W = W]\<close>)
  then show ?case by simp
next
  case (Elements vs)
  have "yields b (''['' @ commas True (map jtext vs) @ '']'')
      (do { b \<leftarrow> write_drop ops b ''[''; b \<leftarrow> emit_elements ops (map (\<lambda>v b. write_json_value ops v b) vs) True b;
            write_drop ops b '']'' })"
    by (rule array_yields[OF Elements.IH[OF _ _ _ _ Elements.prems(4)]])
      (use Elements.prems in \<open>auto intro!: emit_elements_yields[where W = W]\<close>)
  then show ?case by simp
next
  case (Doc ns)
  have "\<exists>r. stack_json_emit ops ns b = Some r \<and> stops_bad 0 (\<lambda>n. n \<noteq> length (jtext (Doc ns))) b (jtext (Doc ns)) r"
    by (rule doc_emits[OF _ Doc.prems(2,3,1)]) (rule Doc.IH[OF _ _ _ _ _ Doc.prems(4)])
  then show ?case
    by (auto simp: stack_json_emit_def yields_def stops_bad_def intro: emits_mono simp del: jtext.simps)
next
  case (SChar v)
  have "signed_take_bit 31 (sint v) = sint v"
    using sint_greater_eq[of v] sint_less[of v] by (intro signed_take_bit_int_eq_self) simp_all
  then show ?case
    using yields_signed[of b "scast v :: 32 word"] SChar by (simp add: signed_scast_eq)
next
  case (UChar v)
  have "unat (ucast v :: 32 word) = unat v"
    using unat_less_pow[where n = 32, of v] by (intro unat_ucast_small) simp
  then show ?case using yields_unsigned[of b "ucast v :: 32 word"] UChar by simp
next
  case (CStr s)
  then show ?case by (cases s) (simp_all add: yields_drop yields_escaped)
qed (simp_all add: yields_drop yields_escaped yields_signed yields_unsigned yields_printx)

lemma stack_json_emit_emits:
  assumes "ok b" "20 \<le> window b" "jval_ok (window b) (Doc ns)"
  shows "\<exists>b' n. stack_json_emit ops ns b = Some (b', n) \<and> emits 0 b (jtext (Doc ns)) b' \<and>
    (\<not> bad b' \<longrightarrow> n = length (jtext (Doc ns)))"
proof -
  have "\<exists>r. stack_json_emit ops ns b = Some r \<and> stops_bad 0 (\<lambda>n. n \<noteq> length (jtext (Doc ns))) b (jtext (Doc ns)) r"
    by (rule doc_emits[OF _ assms(1) refl assms(3)])
      (rule write_json_value_yields(2)[OF _ _ _ _ assms(2)])
  then show ?thesis by (auto simp: stops_bad_def simp del: jtext.simps)
qed

end

section \<open>Builder\<close>

text \<open>The node pointers in use.\<close>

definition builder_nodes :: "builder \<Rightarrow> (nat \<times> jnode) option list" where
  "builder_nodes bl = take (bcount bl) (storage bl)"

definition builder_ok :: "builder \<Rightarrow> bool" where
  "builder_ok bl \<longleftrightarrow> bcount bl \<le> length (storage bl) \<and> None \<notin> set (builder_nodes bl)"

lemma append_pointers_to_take:
  "count \<le> length dest \<Longrightarrow> append_pointers_to ns dest count = (dest', count') \<Longrightarrow>
    length dest' = length dest \<and> count' = min (length dest) (count + length ns) \<and>
    take count' dest' = take count dest @ map Some (take (length dest - count) ns)"
proof (induction ns arbitrary: dest count)
  case (Cons n ns)
  show ?case
  proof (cases "count < length dest")
    case True
    then have "append_pointers_to ns (dest[count := Some n]) (count + 1) = (dest', count')"
      using Cons.prems(2) by simp
    from Cons.IH[OF _ this] True
    have IH: "length dest' = length dest" "count' = min (length dest) (count + 1 + length ns)"
      "take count' dest' = take (count + 1) (dest[count := Some n]) @
        map Some (take (length dest - (count + 1)) ns)" by auto
    have "take (count + 1) (dest[count := Some n]) = take count dest @ [Some n]"
      using True by (simp add: take_Suc_conv_app_nth)
    moreover have "take (length dest - count) (n # ns) = n # take (length dest - (count + 1)) ns"
      using True by (simp add: take_Cons' Suc_diff_Suc)
    ultimately have "take count' dest' = take count dest @ map Some (take (length dest - count) (n # ns))"
      using IH(3) by simp
    with IH(1,2) show ?thesis by (intro conjI) simp_all
  next
    case False
    with Cons.prems have "count = length dest" "append_pointers_to ns dest count = (dest', count')"
      by simp_all
    with Cons.IH[OF Cons.prems(1)] show ?thesis by auto
  qed
qed simp

lemma builder_add_nodes:
  assumes "builder_ok bl"
  shows "builder_ok (builder_add bl ns)"
    and "length (storage (builder_add bl ns)) = length (storage bl)"
    and "builder_nodes (builder_add bl ns) =
      builder_nodes bl @ map Some (take (length (storage bl) - bcount bl) ns)"
  using append_pointers_to_take[of "bcount bl" "storage bl" ns] assms
  by (auto simp: builder_ok_def builder_nodes_def builder_add_def split: prod.splits)

lemma those_map_Some [simp]: "those (map Some xs) = Some xs"
  by (induction xs) auto

section \<open>Properties\<close>

text \<open>C5: \<open>Document::emit\<close> to a \<open>StackBuffer\<close>, for a document with no empty path, no path that is a proper
  prefix of the path of an earlier node and no formatted value that fails: when the text of the document fits in
  what is left of the buffer, exactly that text is appended and its length returned, with no failure; when it does
  not fit, the failure flag is set. In both cases what was in the buffer stays and the view never exceeds the
  capacity.\<close>

theorem stack_emit_document:
  assumes "sb_ok b" "\<not> sb_bad b" "jval_ok \<infinity> (Doc ns)"
  shows "\<exists>b' n. stack_json_emit stack_ops ns b = Some (b', n) \<and> sb_ok b' \<and> sb_max b' = sb_max b \<and>
    prefix (sb_view b) (sb_view b') \<and>
    (if sb_head b + length (jtext (Doc ns)) \<le> sb_max b
     then \<not> sb_bad b' \<and> n = length (jtext (Doc ns)) \<and> sb_view b' = sb_view b @ jtext (Doc ns)
     else sb_bad b')"
proof -
  obtain b' n where w: "stack_json_emit stack_ops ns b = Some (b', n)"
    "stackb.emits 0 b (jtext (Doc ns)) b'" "\<not> sb_bad b' \<longrightarrow> n = length (jtext (Doc ns))"
    using stackb.stack_json_emit_emits[OF assms(1) _ assms(3)] by (auto simp del: jtext.simps)
  show ?thesis
    using w stack_outcome[OF w(2) assms(1,2)] stackb.emits_prefix[OF w(2)]
    by (auto simp del: jtext.simps)
qed

theorem stack_emit_document_witness:
  "\<exists>b' n. stack_json_emit stack_ops [jnode_of [''a''] (SInt 7)] (stack_buffer_new 7) = Some (b', n) \<and>
    sb_view b' = [CHR ''{'', ch_quote, CHR ''a'', ch_quote, CHR '':'', CHR ''7'', CHR ''}'']"
  using stack_emit_document[of "stack_buffer_new 7" "[jnode_of [''a''] (SInt 7)]"]
  by (auto simp: jnode_of_def document_text_def paths_ok_def quoted_def escape_char_def needs_escape_def
    int_string_def dec_string.simps dec_digit_def char_of_def bit_0)

text \<open>C7: Grouping loses nothing: for a document whose paths are not empty and none of which is a prefix of
  another, what \<open>Document::emit\<close> appends to a \<open>StackBuffer\<close> with room for it is the printed form of a tree of
  objects that holds, at the path of every node, exactly the text of that node's value and nothing elsewhere, and in
  which no object has a key twice.\<close>

theorem grouping_complete:
  assumes "sb_ok b" "\<not> sb_bad b" "jval_ok \<infinity> (Doc ns)" "prefix_free (map fst (concat (map jentry ns)))"
    and "sb_head b + length (jtext (Doc ns)) \<le> sb_max b"
  shows "\<exists>b' n ms. stack_json_emit stack_ops ns b = Some (b', n) \<and> \<not> sb_bad b' \<and>
    sb_view b' = sb_view b @ render (Branch ms) \<and> keys_distinct (Branch ms) \<and>
    (\<forall>p. lookup ms p = map_of (concat (map jentry ns)) p)"
proof -
  obtain b' n where w: "stack_json_emit stack_ops ns b = Some (b', n)" "stackb.emits 0 b (jtext (Doc ns)) b'"
    using stackb.stack_json_emit_emits[OF assms(1) _ assms(3)] by (auto simp del: jtext.simps)
  have "\<not> sb_bad b' \<and> sb_view b' = sb_view b @ render (Branch (build (concat (map jentry ns))))"
    using stack_outcome[OF w(2) assms(1,2)] assms(5) by (simp add: document_text_def)
  with w(1) lookup_build[OF assms(4)] build_distinct[OF assms(4)] show ?thesis by blast
qed

theorem grouping_complete_witness:
  "\<exists>b' n ms. stack_json_emit stack_ops [jnode_of [''a'', ''b''] Null, jnode_of [''c''] Null, jnode_of [''a'', ''d''] (Bool True)]
       (stack_buffer_new 64) = Some (b', n) \<and> sb_view b' = render (Branch ms) \<and> lookup ms [''a'', ''d''] = Some ''true''"
proof -
  let ?ns = "[jnode_of [''a'', ''b''] Null, jnode_of [''c''] Null, jnode_of [''a'', ''d''] (Bool True)]"
  have "jval_ok \<infinity> (Doc ?ns)" "prefix_free (map fst (concat (map jentry ?ns)))"
    "sb_head (stack_buffer_new 64) + length (jtext (Doc ?ns)) \<le> sb_max (stack_buffer_new 64)"
    by (simp_all add: jnode_of_def prefix_free_def paths_ok_def document_text_def quoted_def escape_char_def needs_escape_def
      below_def beside_def)
  from grouping_complete[OF _ _ this] obtain b' n ms where
    "stack_json_emit stack_ops ?ns (stack_buffer_new 64) = Some (b', n)" "sb_view b' = render (Branch ms)"
    "lookup ms [''a'', ''d''] = map_of (concat (map jentry ?ns)) [''a'', ''d'']"
    by (auto simp del: jtext.simps render.simps lookup.simps jval_ok.simps)
  moreover have "map_of (concat (map jentry ?ns)) [''a'', ''d''] = Some ''true''" by (simp add: jnode_of_def)
  ultimately show ?thesis by metis
qed



text \<open>A \<open>Builder\<close> never uses more slots than its storage has: adding nodes keeps what was there and
  appends the new ones until the storage is full, dropping the rest, so that \<open>emit\<close> writes the document
  of exactly the nodes kept.\<close>

theorem builder_add_bounded:
  assumes "builder_ok bl"
  shows "builder_ok (builder_add bl ns) \<and> length (storage (builder_add bl ns)) = length (storage bl) \<and>
    builder_nodes (builder_add bl ns) =
      builder_nodes bl @ map Some (take (length (storage bl) - bcount bl) ns) \<and>
    builder_emit ops (builder_add (stack_builder_new k) ns) b =
      emit_json_nodes ops (map (pointed_node ops) (take k ns)) b"
proof -
  have new: "builder_ok (stack_builder_new k)" "builder_nodes (stack_builder_new k) = []"
    by (simp_all add: builder_ok_def builder_nodes_def stack_builder_new_def)
  have "builder_nodes (builder_add (stack_builder_new k) ns) = map Some (take k ns)"
    using builder_add_nodes(3)[OF new(1), of ns] new(2) by (simp add: stack_builder_new_def)
  then have "builder_emit ops (builder_add (stack_builder_new k) ns) b =
      emit_json_nodes ops (map (pointed_node ops) (take k ns)) b"
    by (simp add: builder_emit_def builder_nodes_def)
  with builder_add_nodes[OF assms] show ?thesis by blast
qed

theorem builder_add_bounded_witness:
  "builder_nodes (builder_add (stack_builder_new 1) [(0, jnode_of [''a''] Null), (1, jnode_of [''b''] Null)]) =
     [Some (0, jnode_of [''a''] Null)]"
proof -
  have "builder_ok (stack_builder_new 1)" by (simp add: builder_ok_def builder_nodes_def stack_builder_new_def)
  from builder_add_bounded[OF this, of "[(0, jnode_of [''a''] Null), (1, jnode_of [''b''] Null)]" stack_ops 1 "stack_buffer_new 4"]
  show ?thesis by (simp add: builder_nodes_def stack_builder_new_def)
qed

end
