(* ===== verification/Decode.thy ===== *)
theory Decode
  imports Escape
begin

unbundle bit_operations_syntax

text \<open>
  \<open>decode_json_string\<close> (\<open>stack_json/parser.cpp\<close>): the text of a JSON string literal decoded into a
  buffer of fixed size. The decoder is total on arbitrary bytes, never leaves its buffer, undoes
  \<^const>\<open>escape\<close>, and turns \<open>\uXXXX\<close> into UTF-8.
\<close>

section \<open>The decoder\<close>

text \<open>The simple cases of the \<open>switch\<close>; the \<open>default\<close> keeps the character.\<close>

definition unescape :: "char \<Rightarrow> char" where
  "unescape c =
     (if c = ch_quote then ch_quote
      else if c = ch_bslash then ch_bslash
      else if c = CHR ''n'' then ch_lf
      else if c = CHR ''r'' then ch_cr
      else if c = CHR ''t'' then ch_tab
      else if c = CHR ''b'' then ch_bs
      else if c = CHR ''f'' then ch_ff
      else c)"

definition hex_value :: "char \<Rightarrow> 16 word option" where
  "hex_value hc =
     (if 48 \<le> byte_of hc \<and> byte_of hc \<le> 57 then Some (of_nat (byte_of hc - 48))
      else if 97 \<le> byte_of hc \<and> byte_of hc \<le> 102 then Some (of_nat (byte_of hc - 97 + 10))
      else if 65 \<le> byte_of hc \<and> byte_of hc \<le> 70 then Some (of_nat (byte_of hc - 65 + 10))
      else None)"

text \<open>The loop over \<open>j\<close>, with \<open>i\<close> at the letter \<open>u\<close>; \<^const>\<open>None\<close> is \<open>valid_hex == false\<close>.\<close>

function hex_loop :: "bytes \<Rightarrow> nat \<Rightarrow> nat \<Rightarrow> 16 word \<Rightarrow> 16 word option" where
  "hex_loop input i j codepoint =
     (if j \<le> 4 then
        (case hex_value (input ! (i + j)) of
           None \<Rightarrow> None
         | Some d \<Rightarrow> hex_loop input i (j + 1) (push_bit 4 codepoint OR d))
      else Some codepoint)"
  by pat_completeness auto
termination by (relation "measure (\<lambda>(input, i, j, codepoint). 5 - j)") auto

declare hex_loop.simps [simp del]

definition code_unit :: "16 word \<Rightarrow> char" where
  "code_unit w = char_of (unat w)"

definition put_codepoint :: "16 word \<Rightarrow> bytes \<Rightarrow> nat \<Rightarrow> bytes \<times> nat" where
  "put_codepoint codepoint out k =
     (if codepoint \<le> 0x7F then
        (if k < length out then (out[k := code_unit codepoint], k + 1) else (out, k))
      else if codepoint \<le> 0x07FF then
        (if k + 1 < length out then
           (out[k := code_unit (0xC0 OR (drop_bit 6 codepoint AND 0x1F)),
                k + 1 := code_unit (0x80 OR (codepoint AND 0x3F))], k + 2)
         else (out, k))
      else
        (if k + 2 < length out then
           (out[k := code_unit (0xE0 OR (drop_bit 12 codepoint AND 0x0F)),
                k + 1 := code_unit (0x80 OR (drop_bit 6 codepoint AND 0x3F)),
                k + 2 := code_unit (0x80 OR (codepoint AND 0x3F))], k + 3)
         else (out, k)))"

text \<open>One round of the loop, \<open>++i\<close> included.\<close>

definition decode_step :: "bytes \<Rightarrow> nat \<Rightarrow> bytes \<Rightarrow> nat \<Rightarrow> nat \<times> bytes \<times> nat" where
  "decode_step input i out k =
     (if input ! i = ch_bslash \<and> i + 1 < length input then
        let i = i + 1 in
        if input ! i = CHR ''u'' then
          (case (if i + 4 < length input then hex_loop input i 1 0 else None) of
             Some codepoint \<Rightarrow> (i + 4 + 1, put_codepoint codepoint out k)
           | None \<Rightarrow> (i + 1, out[k := CHR ''u''], k + 1))
        else (i + 1, out[k := unescape (input ! i)], k + 1)
      else (i + 1, out[k := input ! i], k + 1))"

lemma decode_step_progress: "decode_step input i out k = (i', r) \<Longrightarrow> i < i'"
  by (auto simp: decode_step_def Let_def split: if_splits option.splits)

function decode_loop :: "bytes \<Rightarrow> nat \<Rightarrow> bytes \<Rightarrow> nat \<Rightarrow> bytes \<times> nat" where
  "decode_loop input i out k =
     (if i < length input \<and> k < length out then
        case decode_step input i out k of (i', out', k') \<Rightarrow> decode_loop input i' out' k'
      else (out, k))"
  by pat_completeness auto
termination
  by (relation "measure (\<lambda>(input, i, out, k). length input - i)")
    (auto simp: decode_step_progress diff_less_mono2 split: prod.splits)

declare decode_loop.simps [simp del]

definition decode_json_string :: "bytes \<Rightarrow> bytes \<Rightarrow> bytes \<times> nat" where
  "decode_json_string input out_buffer = decode_loop input 0 out_buffer 0"

section \<open>Bounds\<close>

lemma put_codepoint_bounds:
  "k < length out \<Longrightarrow> put_codepoint cp out k = (out', k') \<Longrightarrow>
    length out' = length out \<and> k \<le> k' \<and> k' \<le> length out \<and> k' \<le> k + 3 \<and> take k out' = take k out
      \<and> drop k' out' = drop k' out"
  by (auto simp: put_codepoint_def split: if_splits)

lemma decode_step_bounds:
  assumes "i < length input" "k < length out" "decode_step input i out k = (i', out', k')"
  shows "length out' = length out \<and> k \<le> k' \<and> k' \<le> length out \<and> k' - k \<le> i' - i \<and>
    take k out' = take k out \<and> drop k' out' = drop k' out"
proof (cases "input ! i = ch_bslash \<and> i + 1 < length input \<and> input ! (i + 1) = CHR ''u'' \<and>
    (if i + 5 < length input then hex_loop input (i + 1) 1 0 else None) \<noteq> None")
  case True
  then obtain cp where "i' = i + 6" "put_codepoint cp out k = (out', k')"
    using assms(3) by (auto simp: decode_step_def Let_def split: if_splits option.splits)
  with put_codepoint_bounds[OF assms(2)] show ?thesis by fastforce
next
  case False
  then obtain c where "out' = out[k := c]" "k' = k + 1" "i < i'"
    using assms(3) decode_step_progress[OF assms(3)]
    by (auto simp: decode_step_def Let_def split: if_splits option.splits)
  with assms(2) show ?thesis by auto
qed

lemma decode_loop_bounds:
  "i \<le> length input \<Longrightarrow> k \<le> length out \<Longrightarrow> decode_loop input i out k = (out', k') \<Longrightarrow>
    length out' = length out \<and> k \<le> k' \<and> k' \<le> length out \<and> take k out' = take k out \<and>
    drop k' out' = drop k' out"
proof (induction input i out k rule: decode_loop.induct)
  case (1 input i out k)
  show ?case
  proof (cases "i < length input \<and> k < length out")
    case True
    obtain i1 out1 k1 where s: "decode_step input i out k = (i1, out1, k1)"
      using prod_cases3 by blast
    then have rec: "decode_loop input i1 out1 k1 = (out', k')"
      using "1.prems"(3) True by (simp add: decode_loop.simps[of input i])
    show ?thesis
    proof (cases "i1 \<le> length input")
      case le: True
      note step = decode_step_bounds[OF conjunct1[OF True] conjunct2[OF True] s]
      from "1.IH"[OF True s[symmetric] refl le _ rec] step
      have IH: "length out' = length out1" "k1 \<le> k'" "k' \<le> length out1" "take k1 out' = take k1 out1"
        "drop k' out' = drop k' out1" by auto
      have "take k out' = take k out1"
        using arg_cong[OF IH(4), of "take k"] step by (simp add: min.absorb1)
      moreover have "drop k1 out1 = drop k1 out" using step by simp
      from arg_cong[OF this, of "drop (k' - k1)"] have "drop k' out1 = drop k' out"
        using IH(2) by simp
      ultimately show ?thesis using IH step by simp
    next
      case False
      with rec have "out' = out1" "k' = k1" by (simp_all add: decode_loop.simps[of input i1])
      with decode_step_bounds[OF _ _ s] True show ?thesis by simp
    qed
  next
    case False
    with 1 show ?thesis by (auto simp: decode_loop.simps[of input i] split: if_splits)
  qed
qed

section \<open>Decoding undoes escaping\<close>

text \<open>\<open>run input i out k cs i'\<close>: the loop moves from \<open>i\<close> to \<open>i'\<close> and appends \<open>cs\<close>.\<close>

definition runs :: "bytes \<Rightarrow> nat \<Rightarrow> bytes \<Rightarrow> nat \<Rightarrow> bytes \<Rightarrow> nat \<Rightarrow> bool" where
  "runs input i out k cs i' \<longleftrightarrow>
     decode_loop input i out k = decode_loop input i' (blit out k cs) (k + length cs)"

lemma blit_snoc: "k < length out \<Longrightarrow> blit out k [c] = out[k := c]"
  by (simp add: blit_def upd_conv_take_nth_drop)

lemma blit_list_update:
  "k + 1 < length out \<Longrightarrow> blit out k [a, b] = out[k := a, k + 1 := b]"
  "k + 2 < length out \<Longrightarrow> blit out k [a, b, c] = out[k := a, k + 1 := b, k + 2 := c]"
  by (auto simp: list_eq_iff_nth_eq length_blit nth_blit nth_Cons' nth_list_update)

lemma blit_append:
  "k + length (s @ t) \<le> length out \<Longrightarrow> blit (blit out k s) (k + length s) t = blit out k (s @ t)"
  by (simp add: blit_def ac_simps)

lemma runs_append:
  "runs input i out k s i1 \<Longrightarrow> runs input i1 (blit out k s) (k + length s) t i2 \<Longrightarrow>
    k + length (s @ t) \<le> length out \<Longrightarrow> runs input i out k (s @ t) i2"
  by (simp add: runs_def blit_append[simplified] add.assoc)

lemma runs_char:
  "i < length input \<Longrightarrow> k < length out \<Longrightarrow> decode_step input i out k = (i', out[k := c], k + 1) \<Longrightarrow>
    runs input i out k [c] i'"
  by (simp add: runs_def decode_loop.simps[of input i] blit_snoc)

lemma hex_value_digit: "d < 16 \<Longrightarrow> hex_value (hex_digit d) = Some (of_nat d)"
  by (auto simp: hex_value_def hex_digit_def)

lemma push_bit_or: "d < 2 ^ n \<Longrightarrow> push_bit n a OR d = 2 ^ n * a + (d :: nat)"
proof -
  assume "d < 2 ^ n"
  then have "d = take_bit n d" by (simp add: take_bit_nat_eq_self)
  moreover have "push_bit n a AND take_bit n d = 0"
    by (rule bit_eqI) (auto simp: bit_simps)
  ultimately show ?thesis
    using disjunctive_add_eq_or[of "push_bit n a" d] by (simp add: push_bit_eq_mult mult.commute)
qed

lemma push_bit_or_word: "d < 16 \<Longrightarrow> push_bit 4 (of_nat a) OR of_nat d = (of_nat (16 * a + d) :: 16 word)"
  using push_bit_or[of d 4 a] by (simp flip: of_nat_or_eq add: push_bit_of_nat)

lemma hex_loop_hex4:
  assumes "\<And>j. j < 4 \<Longrightarrow> input ! (i + 1 + j) = hex4 n ! j" "n < 65536"
  shows "hex_loop input i 1 0 = Some (of_nat n)"
proof -
  have d: "input ! (i + 1) = hex_digit (n div 4096 mod 16)" "input ! (i + 2) = hex_digit (n div 256 mod 16)"
    "input ! (i + 3) = hex_digit (n div 16 mod 16)" "input ! (i + 4) = hex_digit (n mod 16)"
    using assms(1)[of 0] assms(1)[of 1] assms(1)[of 2] assms(1)[of 3]
    by (simp_all add: hex4_def add.commute Suc3_eq_add_3)
  define a b c where "a = n div 4096 mod 16" and "b = n div 256 mod 16" and "c = n div 16 mod 16"
  have step: "hex_loop input i j cp = hex_loop input i (j + 1) (push_bit 4 cp OR of_nat e)"
    if "j \<le> 4" "input ! (i + j) = hex_digit e" "e < 16" for j cp e
    using that by (subst hex_loop.simps) (simp add: hex_value_digit)
  have s: "1 + 1 = (2::nat)" "2 + 1 = (3::nat)" "3 + 1 = (4::nat)" "4 + 1 = (5::nat)" by simp_all
  have e: "hex_loop input i 1 cp = hex_loop input i 2 (push_bit 4 cp OR of_nat a)"
    "hex_loop input i 2 cp = hex_loop input i 3 (push_bit 4 cp OR of_nat b)"
    "hex_loop input i 3 cp = hex_loop input i 4 (push_bit 4 cp OR of_nat c)"
    "hex_loop input i 4 cp = hex_loop input i 5 (push_bit 4 cp OR of_nat (n mod 16))"
    "hex_loop input i 5 cp = Some cp" for cp
    using step[of 1 a cp, unfolded s] step[of 2 b cp, unfolded s] step[of 3 c cp, unfolded s]
      step[of 4 "n mod 16" cp, unfolded s] d
    by (simp_all add: a_def b_def c_def hex_loop.simps[of input i 5])
  have "hex_loop input i 1 (of_nat 0) = Some (push_bit 4 (push_bit 4 (push_bit 4 (push_bit 4 (of_nat 0) OR
        of_nat a) OR of_nat b) OR of_nat c) OR of_nat (n mod 16))"
    by (simp only: e)
  also have "\<dots> = Some (of_nat (16 * (16 * (16 * (16 * 0 + a) + b) + c) + n mod 16))"
    by (simp only: push_bit_or_word a_def b_def c_def mod_less_divisor zero_less_numeral)
  also have "16 * (16 * (16 * (16 * 0 + a) + b) + c) + n mod 16 = n"
  proof -
    have "n div 16 div 16 = n div 256" "n div 256 div 16 = n div 4096"
      by (simp_all flip: div_mult2_eq)
    moreover have "n div 4096 mod 16 = n div 4096" using assms(2) by simp
    ultimately have "16 * a + b = n div 256" "16 * (n div 256) + c = n div 16"
      unfolding a_def b_def c_def
      by (metis mult_div_mod_eq)+
    then show ?thesis by simp
  qed
  finally show ?thesis by simp
qed

lemma nth_middle: "j < length s \<Longrightarrow> (pre @ s @ post) ! (length pre + j) = s ! j"
  by (simp add: nth_append)

lemma decode_step_u:
  assumes "input = pre @ ch_bslash # CHR ''u'' # hex4 n @ post" "n < 65536" "k < length out"
  shows "decode_step input (length pre) out k =
    (length pre + 6, put_codepoint (of_nat n) out k)"
proof -
  have "hex_loop input (length pre + 1) 1 0 = Some (of_nat n)"
  proof (rule hex_loop_hex4[OF _ assms(2)])
    show "input ! (length pre + 1 + 1 + j) = hex4 n ! j" if "j < 4" for j
      using nth_middle[of j "hex4 n" "pre @ [ch_bslash, CHR ''u'']" post] that
      by (simp add: assms(1))
  qed
  then show ?thesis
    by (simp add: decode_step_def assms(1) nth_append)
qed

lemma control_unit: "byte_of c \<le> 31 \<Longrightarrow> put_codepoint (of_nat (byte_of c)) out k =
    (if k < length out then (out[k := c], k + 1) else (out, k))"
  by (auto simp: put_codepoint_def code_unit_def word_le_nat_alt unsigned_of_nat take_bit_nat_eq_self)

lemma decode_step_escape_char:
  assumes "input = pre @ escape_char c @ post" "k < length out"
  shows "decode_step input (length pre) out k = (length pre + length (escape_char c), out[k := c], k + 1)"
proof (cases "escape_char c = ch_bslash # CHR ''u'' # hex4 (byte_of c)")
  case True
  then have "byte_of c \<le> 31"
    by (auto simp: escape_char_def escape_seq_def needs_escape_def split: if_splits)
  with decode_step_u[of input pre "byte_of c" post k out] control_unit[of c out k] True assms
  show ?thesis by simp
next
  case False
  then consider (plain) "c \<noteq> ch_bslash" "escape_char c = [c]"
    | (short) e where "escape_char c = [ch_bslash, e]" "e \<noteq> CHR ''u''" "unescape e = c"
    by (auto simp: escape_char_def escape_seq_def needs_escape_def unescape_def split: if_splits)
  then show ?thesis
  proof cases
    case plain
    then show ?thesis by (simp add: decode_step_def assms(1) nth_append)
  next
    case short
    then show ?thesis by (simp add: decode_step_def assms(1) nth_append Let_def)
  qed
qed

lemma decode_loop_escape:
  "input = pre @ escape s @ post \<Longrightarrow> k + length s \<le> length out \<Longrightarrow>
    runs input (length pre) out k s (length pre + length (escape s))"
proof (induction s arbitrary: pre k out)
  case Nil
  then show ?case by (simp add: runs_def)
next
  case (Cons c s)
  have "runs input (length pre) out k [c] (length (pre @ escape_char c))"
    using Cons.prems length_escape_char[of c]
      decode_step_escape_char[of input pre c "escape s @ post" k out]
    by (intro runs_char) auto
  moreover have "runs input (length (pre @ escape_char c)) (blit out k [c]) (k + length [c]) s
      (length (pre @ escape_char c) + length (escape s))"
    using Cons.prems by (intro Cons.IH) (auto simp: length_blit)
  ultimately have "runs input (length pre) out k ([c] @ s) (length (pre @ escape_char c) + length (escape s))"
    by (rule runs_append) (use Cons.prems in simp)
  then show ?case by (simp add: add.assoc)
qed

text \<open>The decoder undoes the encoder, for every byte string and every buffer that is large enough.\<close>

lemma decode_escape:
  assumes "length s \<le> length out"
  shows "decode_json_string (escape s) out = (blit out 0 s, length s)"
proof -
  have "runs (escape s) 0 out 0 s (length (escape s))"
    using decode_loop_escape[of "escape s" "[]" s "[]" 0 out] assms by simp
  then show ?thesis
    using assms by (simp add: runs_def decode_json_string_def decode_loop.simps[of _ "length (escape s)"])
qed

section \<open>UTF-8\<close>

definition utf8 :: "nat \<Rightarrow> bytes" where
  "utf8 n =
     (if n < 0x80 then [char_of n]
      else if n < 0x800 then [char_of (0xC0 + n div 64), char_of (0x80 + n mod 64)]
      else [char_of (0xE0 + n div 4096), char_of (0x80 + n div 64 mod 64), char_of (0x80 + n mod 64)])"

lemma unat16: "n < 65536 \<Longrightarrow> unat (of_nat n :: 16 word) = n"
  by (simp add: unsigned_of_nat take_bit_nat_eq_self)

lemma code_unit_tagged:
  assumes "unat x < 2 ^ b" "b < 8" "t < 2 ^ (8 - b)"
  shows "code_unit (of_nat (2 ^ b * t) OR x) = char_of (2 ^ b * t + unat x)"
proof -
  have "2 ^ b * t < 2 ^ b * 2 ^ (8 - b)" using assms(3) by simp
  then have "2 ^ b * t < 256" using assms(2) by (simp flip: power_add)
  then have "unat (of_nat (2 ^ b * t) :: 16 word) = push_bit b t"
    by (subst unat16) (simp_all add: push_bit_eq_mult)
  then show ?thesis
    using push_bit_or[of "unat x" b t] assms(1)
    by (simp add: code_unit_def unsigned_or_eq)
qed

lemma unat_field:
  assumes "n < 65536"
  shows "unat (drop_bit k (of_nat n) AND mask m :: 16 word) = n div 2 ^ k mod 2 ^ m"
proof -
  have "unat (of_nat n :: 16 word) = n" using assms by (rule unat16)
  then show ?thesis
    by (simp add: unsigned_take_bit_eq unsigned_drop_bit_eq flip: take_bit_eq_mask)
      (use assms in \<open>simp add: take_bit_eq_mod drop_bit_eq_div\<close>)
qed

lemma put_codepoint_utf8:
  assumes "n < 65536" "k + 3 \<le> length out"
  shows "put_codepoint (of_nat n) out k = (blit out k (utf8 n), k + length (utf8 n))"
proof -
  have masks: "0x3F = (mask 6 :: 16 word)" "0x1F = (mask 5 :: 16 word)" "0x0F = (mask 4 :: 16 word)"
    by (simp_all add: mask_eq_exp_minus_1)
  have n: "unat (of_nat n :: 16 word) = n" using assms(1) by (rule unat16)
  have one: "code_unit (of_nat n) = char_of n" by (simp add: code_unit_def n)
  have tail: "code_unit (0x80 OR (drop_bit j (of_nat n) AND mask 6)) = char_of (0x80 + n div 2 ^ j mod 64)" for j
    using code_unit_tagged[of "drop_bit j (of_nat n) AND mask 6" 6 2] by (simp add: unat_field[OF assms(1)])
  have two: "code_unit (0xC0 OR (drop_bit 6 (of_nat n) AND mask 5)) = char_of (0xC0 + n div 64)" if "n < 0x800"
    using code_unit_tagged[of "drop_bit 6 (of_nat n) AND mask 5" 5 6] that
    by (simp add: unat_field[OF assms(1)])
  have three: "code_unit (0xE0 OR (drop_bit 12 (of_nat n) AND mask 4)) = char_of (0xE0 + n div 4096)"
    using code_unit_tagged[of "drop_bit 12 (of_nat n) AND mask 4" 4 14] assms(1)
    by (simp add: unat_field[OF assms(1)])
  have cmp: "(of_nat n :: 16 word) \<le> 0x7F \<longleftrightarrow> n < 0x80" "(of_nat n :: 16 word) \<le> 0x07FF \<longleftrightarrow> n < 0x800"
    by (auto simp: word_le_nat_alt n)
  show ?thesis
    using assms(2) tail[of 0] tail[of 6] two three
    by (auto simp: put_codepoint_def utf8_def cmp masks blit_list_update blit_snoc one)
qed

section \<open>Properties\<close>

text \<open>C13: \<open>decode_json_string\<close> reverses the escaping of \<open>write_escaped\<close> for every byte string, when the
  output buffer has room for it.\<close>

theorem decode_escape_round_trip:
  assumes "length s \<le> length out"
  shows "case decode_json_string (escape s) out of (out', n) \<Rightarrow>
    take n out' = s \<and> length out' = length out \<and> drop n out' = drop n out"
  using decode_escape[OF assms] assms by simp

theorem decode_escape_round_trip_witness:
  "\<exists>out. fst (decode_json_string (escape [ch_tab, ch_quote]) [CHR ''x'', CHR ''y'', CHR ''z'']) = out \<and>
    take 2 out = [ch_tab, ch_quote] \<and> drop 2 out = ''z''"
  using decode_escape_round_trip[of "[ch_tab, ch_quote]" "[CHR ''x'', CHR ''y'', CHR ''z'']"]
    decode_escape[of "[ch_tab, ch_quote]" "[CHR ''x'', CHR ''y'', CHR ''z'']"]
  by simp

lemma decode_step_input:
  "i < length input \<Longrightarrow> decode_step input i out k = (i', r) \<Longrightarrow> i' \<le> length input"
  by (auto simp: decode_step_def Let_def split: if_splits option.splits)

lemma decode_loop_consumed:
  "i \<le> length input \<Longrightarrow> k \<le> i \<Longrightarrow> k \<le> length out \<Longrightarrow> decode_loop input i out k = (out', k') \<Longrightarrow>
    k' \<le> length input"
proof (induction input i out k rule: decode_loop.induct)
  case (1 input i out k)
  show ?case
  proof (cases "i < length input \<and> k < length out")
    case True
    obtain i1 out1 k1 where st: "decode_step input i out k = (i1, out1, k1)" by (cases rule: prod_cases3)
    note b = decode_step_bounds[OF _ _ st] decode_step_input[OF _ st] decode_step_progress[OF st]
    have "decode_loop input i1 out1 k1 = (out', k')"
      using "1.prems"(4) True st by (subst (asm) decode_loop.simps) simp
    note IH = "1.IH"[OF True st[symmetric] refl _ _ _ this]
    have "k1 \<le> i1" using b True "1.prems"(2) by linarith
    with IH True b show ?thesis by simp
  next
    case False
    then have "decode_loop input i out k = (out, k)" by (subst decode_loop.simps) auto
    with "1.prems" show ?thesis by simp
  qed
qed

text \<open>C14: For arbitrary input, \<open>decode_json_string\<close> never writes outside of the output buffer: the
  buffer keeps its length, the result is at most that length, and the characters after the result are
  untouched.\<close>

theorem decode_in_bounds:
  "case decode_json_string input out of (out', n) \<Rightarrow>
     length out' = length out \<and> n \<le> length out \<and> n \<le> length input \<and> drop n out' = drop n out"
  using decode_loop_bounds[of 0 input 0 out] decode_loop_consumed[of 0 input 0 out]
  by (auto simp: decode_json_string_def split: prod.splits)

text \<open>An escape \<open>\uXXXX\<close> with the code unit \<open>n\<close> is decoded to the UTF-8 encoding of \<open>n\<close> when three
  bytes are left.\<close>

theorem decode_unicode:
  assumes "n < 65536" "3 \<le> length out"
  shows "decode_json_string (ch_bslash # CHR ''u'' # hex4 n) out = (blit out 0 (utf8 n), length (utf8 n))"
proof -
  have ne: "0 < length out" using assms(2) by linarith
  have "decode_step (ch_bslash # CHR ''u'' # hex4 n) 0 out 0 = (6, blit out 0 (utf8 n), length (utf8 n))"
    using decode_step_u[of "ch_bslash # CHR ''u'' # hex4 n" "[]" n "[]" 0 out] put_codepoint_utf8[of n 0 out] assms ne
    by simp
  then have "decode_loop (ch_bslash # CHR ''u'' # hex4 n) 0 out 0 =
      decode_loop (ch_bslash # CHR ''u'' # hex4 n) 6 (blit out 0 (utf8 n)) (length (utf8 n))"
    using ne by (subst decode_loop.simps) simp
  also have "\<dots> = (blit out 0 (utf8 n), length (utf8 n))"
    by (subst decode_loop.simps) simp
  finally show ?thesis by (simp add: decode_json_string_def)
qed

theorem decode_unicode_witness:
  "decode_json_string (ch_bslash # CHR ''u'' # hex4 0x20AC) (replicate 3 ch_nul) =
     ([char_of (0xE2 :: nat), char_of (0x82 :: nat), char_of (0xAC :: nat)], 3)"
  using decode_unicode[of "0x20AC" "replicate 3 ch_nul"] by (simp add: utf8_def numeral_3_eq_3)

end
