(* ===== verification/Floating.thy ===== *)
theory Floating
  imports Numbers
begin

text \<open>
  What the \<open>float\<close> and \<open>double\<close> overloads of \<open>coerce_value\<close> (\<open>parser.cpp\<close>) use of the standard
  library: \<open>std::from_chars\<close> into a binary floating-point format. The longest prefix that is a number
  is read exactly, as a fraction, and rounded to the nearest number of the format, ties to even; a
  text without a number, an overflow and an underflow to zero leave the target unmodified.
\<close>

section \<open>Formats\<close>

datatype real_format = Float32 | Float64

text \<open>Bits of the significand, with the hidden one, and of the exponent.\<close>

fun precision :: "real_format \<Rightarrow> nat" where
  "precision Float32 = 24"
| "precision Float64 = 53"

fun exponent_bits :: "real_format \<Rightarrow> nat" where
  "exponent_bits Float32 = 8"
| "exponent_bits Float64 = 11"

text \<open>The exponent of the last place of the smallest numbers.\<close>

definition min_exponent :: "real_format \<Rightarrow> int" where
  "min_exponent fmt = 3 - 2 ^ (exponent_bits fmt - 1) - int (precision fmt)"

definition infinity_bits :: "real_format \<Rightarrow> nat" where
  "infinity_bits fmt = (2 ^ exponent_bits fmt - 1) * 2 ^ (precision fmt - 1)"

definition nan_bits :: "real_format \<Rightarrow> nat" where
  "nan_bits fmt = infinity_bits fmt + 2 ^ (precision fmt - 2)"

definition sign_bit :: "real_format \<Rightarrow> nat" where
  "sign_bit fmt = 2 ^ (exponent_bits fmt + precision fmt - 1)"

section \<open>Rounding\<close>

fun bit_length :: "nat \<Rightarrow> nat" where
  "bit_length n = (if n = 0 then 0 else Suc (bit_length (n div 2)))"

declare bit_length.simps [simp del]

lemma bit_length_numeral [simp]:
  "bit_length 0 = 0"
  "bit_length (Suc 0) = 1"
  "bit_length (numeral w) = Suc (bit_length (numeral w div 2))"
  by (simp_all add: bit_length.simps)

text \<open>The binary exponent of \<open>n / d\<close>.\<close>

definition bin_exponent :: "nat \<Rightarrow> nat \<Rightarrow> int" where
  "bin_exponent n d =
     (let k = int (bit_length n) - int (bit_length d)
      in if d * 2 ^ nat k \<le> n * 2 ^ nat (- k) then k else k - 1)"

definition round_half_even :: "nat \<Rightarrow> nat \<Rightarrow> nat" where
  "round_half_even n d =
     (let q = n div d; r = n mod d in if 2 * r > d \<or> (2 * r = d \<and> odd q) then q + 1 else q)"

text \<open>The bits of the number nearest to \<open>n / d\<close>.\<close>

definition encode_fraction :: "real_format \<Rightarrow> nat \<Rightarrow> nat \<Rightarrow> nat option" where
  "encode_fraction fmt n d =
     (if n = 0 then Some 0
      else
        let h = 2 ^ (precision fmt - 1);
            q = max (bin_exponent n d - (int (precision fmt) - 1)) (min_exponent fmt);
            m = round_half_even (n * 2 ^ nat (- q)) (d * 2 ^ nat q);
            b = (if m < h then m else nat (q - min_exponent fmt + 1) * h + (m - h))
        in if m = 0 \<or> infinity_bits fmt \<le> b then None else Some b)"

section \<open>Reading\<close>

definition lower :: "char \<Rightarrow> char" where
  "lower c = (if 65 \<le> byte_of c \<and> byte_of c \<le> 90 then char_of (byte_of c + 32) else c)"

text \<open>The exponent after \<open>e\<close>, 0 when there is none.\<close>

definition exponent_part :: "bytes \<Rightarrow> int" where
  "exponent_part s =
     (if s \<noteq> [] \<and> lower (hd s) = CHR ''e'' then
        let t = tl s;
            neg = (t \<noteq> [] \<and> hd t = CHR ''-'');
            ds = takeWhile is_digit (if t \<noteq> [] \<and> (hd t = CHR ''-'' \<or> hd t = CHR ''+'') then tl t else t)
        in (if neg then - int (dec_value ds) else int (dec_value ds))
      else 0)"

definition from_chars_unsigned :: "real_format \<Rightarrow> bytes \<Rightarrow> nat option" where
  "from_chars_unsigned fmt s =
     (if map lower (take 3 s) = ''inf'' then Some (infinity_bits fmt)
      else if map lower (take 3 s) = ''nan'' then Some (nan_bits fmt)
      else
        let ip = takeWhile is_digit s;
            r = dropWhile is_digit s;
            fp = (if r \<noteq> [] \<and> hd r = CHR ''.'' then takeWhile is_digit (tl r) else []);
            r = (if r \<noteq> [] \<and> hd r = CHR ''.'' then dropWhile is_digit (tl r) else r)
        in if ip = [] \<and> fp = [] then None
           else let e = exponent_part r - int (length fp)
                in encode_fraction fmt (dec_value (ip @ fp) * 10 ^ nat e) (10 ^ nat (- e)))"

definition from_chars_real :: "real_format \<Rightarrow> bytes \<Rightarrow> 64 word option" where
  "from_chars_real fmt s =
     (if s \<noteq> [] \<and> hd s = CHR ''-''
      then map_option (\<lambda>b. of_nat (sign_bit fmt + b)) (from_chars_unsigned fmt (tl s))
      else map_option of_nat (from_chars_unsigned fmt s))"

definition coerce_real :: "real_format \<Rightarrow> bytes \<Rightarrow> bool \<Rightarrow> 64 word \<Rightarrow> 64 word" where
  "coerce_real fmt raw_val is_null target =
     (if is_null then 0 else case from_chars_real fmt raw_val of Some x \<Rightarrow> x | None \<Rightarrow> target)"

section \<open>What the bits stand for\<close>

text \<open>The number of the bits is \<open>m * 2 ^ q\<close>, and the integer it is when it is one.\<close>

definition decode_bits :: "real_format \<Rightarrow> nat \<Rightarrow> nat \<times> int" where
  "decode_bits fmt b =
     (let h = 2 ^ (precision fmt - 1); e = b div h; f = b mod h
      in if e = 0 then (f, min_exponent fmt) else (f + h, int e - 1 + min_exponent fmt))"

definition real_integer :: "real_format \<Rightarrow> 64 word \<Rightarrow> int option" where
  "real_integer fmt w =
     (let b = unat w; neg = (sign_bit fmt \<le> b); (m, q) = decode_bits fmt (if neg then b - sign_bit fmt else b)
      in if infinity_bits fmt \<le> (if neg then b - sign_bit fmt else b) then None
         else if 2 ^ nat (- q) dvd m then
           (let i = int (m * 2 ^ nat q div 2 ^ nat (- q)) in Some (if neg then - i else i))
         else None)"

section \<open>Integers are read exactly\<close>

lemma precision_facts:
  "2 \<le> precision fmt" "min_exponent fmt \<le> - int (precision fmt)"
  by (cases fmt; simp add: min_exponent_def)+

lemma infinity_less_sign: "infinity_bits fmt < sign_bit fmt" "2 * sign_bit fmt \<le> 2 ^ 64"
  by (cases fmt; simp add: infinity_bits_def sign_bit_def)+

lemma bit_length_bounds: "0 < n \<Longrightarrow> 2 ^ (bit_length n - 1) \<le> n \<and> n < 2 ^ bit_length n \<and> 0 < bit_length n"
proof (induction n rule: bit_length.induct)
  case (1 n)
  show ?case
  proof (cases "n = 1")
    case False
    with 1 have IH: "2 ^ (bit_length (n div 2) - 1) \<le> n div 2" "n div 2 < 2 ^ bit_length (n div 2)"
      and pos: "0 < bit_length (n div 2)" by auto
    have l: "bit_length n = Suc (bit_length (n div 2))" using 1(2) by (simp add: bit_length.simps[of n])
    have "2 * 2 ^ (bit_length (n div 2) - 1) = (2 :: nat) ^ bit_length (n div 2)" using pos by (cases "bit_length (n div 2)") auto
    moreover have "2 * (n div 2) \<le> n" "n < 2 * (n div 2) + 2" by auto
    ultimately show ?thesis using IH by (simp add: l) linarith
  qed (simp add: bit_length.simps[of 1])
qed

lemma bit_length_le: "n < 2 ^ k \<Longrightarrow> bit_length n \<le> k"
proof (rule ccontr)
  assume n: "n < 2 ^ k" and "\<not> bit_length n \<le> k"
  then have "0 < n" and k: "k \<le> bit_length n - 1" by (auto intro: Nat.gr0I)
  from k have "(2 :: nat) ^ k \<le> 2 ^ (bit_length n - 1)" by (simp add: power_increasing)
  with bit_length_bounds[OF \<open>0 < n\<close>] n show False by linarith
qed

text \<open>A number of at most \<^const>\<open>precision\<close> bits is scaled until its first bit is the hidden one.\<close>

lemma bin_exponent_integer: "0 < n \<Longrightarrow> bin_exponent n 1 = int (bit_length n) - 1"
  using bit_length_bounds[of n] by (simp add: bin_exponent_def nat_diff_distrib)

definition scaled :: "real_format \<Rightarrow> nat \<Rightarrow> nat" where
  "scaled fmt n = n * 2 ^ (precision fmt - bit_length n)"

definition scaled_exponent :: "real_format \<Rightarrow> nat \<Rightarrow> nat" where
  "scaled_exponent fmt n = nat (int (bit_length n) - int (precision fmt) - min_exponent fmt + 1)"

lemma scaled_bounds:
  assumes "0 < n" "n < 2 ^ precision fmt"
  shows "2 ^ (precision fmt - 1) \<le> scaled fmt n" "scaled fmt n < 2 * 2 ^ (precision fmt - 1)"
proof -
  let ?l = "bit_length n" and ?p = "precision fmt"
  have l: "?l \<le> ?p" "0 < ?l" "2 ^ (?l - 1) \<le> n" "n < 2 ^ ?l"
    using bit_length_le[OF assms(2)] bit_length_bounds[OF assms(1)] by auto
  have "(2 :: nat) ^ (?p - 1) = 2 ^ (?l - 1) * 2 ^ (?p - ?l)" using l(1,2) by (simp flip: power_add)
  with l(3) show "2 ^ (?p - 1) \<le> scaled fmt n" by (simp add: scaled_def)
  have "2 * (2 :: nat) ^ (?p - 1) = 2 ^ ?l * 2 ^ (?p - ?l)" using l(1,2) by (simp flip: power_add power_Suc)
  with l(4) show "scaled fmt n < 2 * 2 ^ (?p - 1)" by (simp add: scaled_def)
qed

lemma scaled_exponent_bounds:
  assumes "n < 2 ^ precision fmt"
  shows "0 < scaled_exponent fmt n" "scaled_exponent fmt n < 2 ^ exponent_bits fmt - 1"
    "int (scaled_exponent fmt n) = int (bit_length n) - int (precision fmt) - min_exponent fmt + 1"
proof -
  have "bit_length n \<le> precision fmt" by (rule bit_length_le[OF assms])
  then show "0 < scaled_exponent fmt n" "scaled_exponent fmt n < 2 ^ exponent_bits fmt - 1"
    "int (scaled_exponent fmt n) = int (bit_length n) - int (precision fmt) - min_exponent fmt + 1"
    by (cases fmt; simp add: scaled_exponent_def min_exponent_def)+
qed

definition integer_bits :: "real_format \<Rightarrow> nat \<Rightarrow> nat" where
  "integer_bits fmt n =
     (if n = 0 then 0
      else scaled_exponent fmt n * 2 ^ (precision fmt - 1) + (scaled fmt n - 2 ^ (precision fmt - 1)))"

lemma integer_bits_less: "n < 2 ^ precision fmt \<Longrightarrow> integer_bits fmt n < infinity_bits fmt"
proof (cases "n = 0")
  case False
  assume n: "n < 2 ^ precision fmt"
  let ?h = "2 ^ (precision fmt - 1) :: nat"
  have "integer_bits fmt n < (scaled_exponent fmt n + 1) * ?h"
    using scaled_bounds[OF _ n] False by (simp add: integer_bits_def)
  also have "\<dots> \<le> (2 ^ exponent_bits fmt - 1) * ?h"
    using scaled_exponent_bounds(2)[OF n] by (intro mult_le_mono1) simp
  finally show ?thesis by (simp add: infinity_bits_def)
qed (cases fmt; simp add: integer_bits_def infinity_bits_def)

lemma encode_integer:
  assumes "n < 2 ^ precision fmt"
  shows "encode_fraction fmt n 1 = Some (integer_bits fmt n)"
proof (cases "n = 0")
  case False
  let ?q = "int (bit_length n) - int (precision fmt)"
  have l: "bit_length n \<le> precision fmt" "0 < bit_length n"
    using bit_length_le[OF assms] bit_length_bounds[of n] False by auto
  have q: "max (bin_exponent n 1 - (int (precision fmt) - 1)) (min_exponent fmt) = ?q"
    using precision_facts(2)[of fmt] bin_exponent_integer[of n] False l by simp
  have "nat (- ?q) = precision fmt - bit_length n" "nat ?q = 0" using l by auto
  then have m: "round_half_even (n * 2 ^ nat (- ?q)) (1 * 2 ^ nat ?q) = scaled fmt n"
    by (simp add: round_half_even_def scaled_def)
  have "nat (?q - min_exponent fmt + 1) = scaled_exponent fmt n" by (simp add: scaled_exponent_def)
  then show ?thesis
    using False m q scaled_bounds[of n fmt] assms integer_bits_less[OF assms]
    by (simp add: encode_fraction_def Let_def integer_bits_def)
qed (simp add: encode_fraction_def integer_bits_def)

lemma decode_integer_bits:
  assumes "n < 2 ^ precision fmt" "0 < n"
  shows "decode_bits fmt (integer_bits fmt n) = (scaled fmt n, int (bit_length n) - int (precision fmt))"
proof -
  let ?h = "2 ^ (precision fmt - 1) :: nat" and ?e = "scaled_exponent fmt n"
  have s: "scaled fmt n - ?h < ?h" "?h \<le> scaled fmt n"
    using scaled_bounds[OF assms(2,1)] by auto
  then have "integer_bits fmt n div ?h = ?e" "integer_bits fmt n mod ?h = scaled fmt n - ?h"
    using assms(2) by (simp_all add: integer_bits_def del: Nat.add_diff_assoc)
  with s scaled_exponent_bounds[OF assms(1)] show ?thesis by (simp add: decode_bits_def Let_def)
qed

lemma real_integer_bits:
  assumes "n < 2 ^ precision fmt"
  shows "real_integer fmt (of_nat (integer_bits fmt n)) = Some (int n)"
    "real_integer fmt (of_nat (sign_bit fmt + integer_bits fmt n)) = Some (- int n)"
proof -
  let ?b = "integer_bits fmt n"
  have b: "?b < infinity_bits fmt" "infinity_bits fmt < sign_bit fmt" "2 * sign_bit fmt \<le> 2 ^ 64"
    using integer_bits_less[OF assms] infinity_less_sign by auto
  then have u: "unat (of_nat ?b :: 64 word) = ?b" "unat (of_nat (sign_bit fmt + ?b) :: 64 word) = sign_bit fmt + ?b"
    by (simp_all only: unat_of_nat) (auto intro!: mod_less)
  have d: "case decode_bits fmt ?b of (m, q) \<Rightarrow> 2 ^ nat (- q) dvd m \<and> m * 2 ^ nat q div 2 ^ nat (- q) = n"
  proof (cases "n = 0")
    case True
    then show ?thesis by (simp add: integer_bits_def decode_bits_def Let_def)
  next
    case False
    have "nat (- (int (bit_length n) - int (precision fmt))) = precision fmt - bit_length n"
      "nat (int (bit_length n) - int (precision fmt)) = 0"
      using bit_length_le[OF assms] by auto
    with decode_integer_bits[OF assms] False show ?thesis by (simp add: scaled_def)
  qed
  from d b u show "real_integer fmt (of_nat ?b) = Some (int n)"
    by (auto simp: real_integer_def Let_def split: prod.splits)
  from d b u show "real_integer fmt (of_nat (sign_bit fmt + ?b)) = Some (- int n)"
    by (auto simp: real_integer_def Let_def split: prod.splits)
qed

text \<open>What follows the digits of an integer when it is one: no digit, no fraction and no exponent.\<close>

definition ends_integer :: "bytes \<Rightarrow> bool" where
  "ends_integer rest = (rest = [] \<or> \<not> is_digit (hd rest) \<and> hd rest \<noteq> CHR ''.'' \<and> lower (hd rest) \<noteq> CHR ''e'')"

lemma dropWhile_dec_string: "ends_integer rest \<Longrightarrow> dropWhile is_digit (dec_string n @ rest) = rest"
  using is_digit_dec_string[of n] by (cases rest) (simp_all add: dropWhile_append2 ends_integer_def)

lemma lower_digit: "is_digit c \<Longrightarrow> lower c = c"
  by (simp add: lower_def is_digit_def)

lemma word_is_no_number:
  assumes "map lower (take 3 (dec_string n @ rest)) = c # cs"
  shows "is_digit c"
proof -
  obtain d ds where "dec_string n = d # ds" using dec_string_nonempty by (cases "dec_string n") auto
  moreover from this have "is_digit d" using is_digit_dec_string[of n] by simp
  ultimately show ?thesis using assms by (simp add: lower_digit)
qed

lemma from_chars_unsigned_dec:
  assumes "n < 2 ^ precision fmt" "ends_integer rest"
  shows "from_chars_unsigned fmt (dec_string n @ rest) = Some (integer_bits fmt n)"
proof -
  have "takeWhile is_digit (dec_string n @ rest) = dec_string n"
    by (rule takeWhile_dec_string) (use assms(2) in \<open>auto simp: ends_integer_def\<close>)
  moreover have "map lower (take 3 (dec_string n @ rest)) \<notin> {''inf'', ''nan''}"
    using word_is_no_number[of n rest] by (fastforce simp: is_digit_def)
  ultimately show ?thesis
    using assms(2) encode_integer[OF assms(1)] dropWhile_dec_string[OF assms(2), of n] dec_string_nonempty[of n]
    by (auto simp: from_chars_unsigned_def Let_def ends_integer_def exponent_part_def)
qed

lemma coerce_real_int_string:
  assumes "\<bar>i\<bar> < 2 ^ precision fmt" "ends_integer rest"
  shows "real_integer fmt (coerce_real fmt (int_string i @ rest) False t) = Some i"
proof -
  have n: "nat \<bar>i\<bar> < 2 ^ precision fmt" using assms(1) by (simp add: nat_less_iff)
  note r = from_chars_unsigned_dec[OF n assms(2)] real_integer_bits[OF n]
  show ?thesis
  proof (cases "i < 0")
    case False
    moreover have "hd (dec_string (nat i) @ rest) \<noteq> CHR ''-''"
      using dec_string_nonempty[of "nat i"] dec_string_no_sign[of "nat i"] by (cases "dec_string (nat i)") auto
    ultimately show ?thesis using r by (simp add: coerce_real_def from_chars_real_def int_string_def)
  qed (use r in \<open>simp add: coerce_real_def from_chars_real_def int_string_def\<close>)
qed

end
