(* ===== verification/Parser.thy ===== *)
theory Parser
  imports Document Decode Floating
begin

text \<open>
  The JSON parser (\<open>stack_json/parser.hpp\<close>, \<open>parser.cpp\<close>): bindings from paths to typed targets,
  and one pass over the text that keeps a cursor, a nesting depth, the current key and a stack of
  keys. Every read of the text is guarded by the cursor's comparison with the length, as in the
  code; the pass is total on arbitrary bytes.
\<close>

section \<open>Targets\<close>

text \<open>
  The overloads of \<open>coerce_value\<close>: \<open>bool\<close>, the integral types, \<open>float\<close> and \<open>double\<close> (the bits of the
  number), \<open>std::string_view\<close>, \<open>std::span<char>\<close> (the characters it covers) and \<open>std::string\<close>.
\<close>

datatype target = TBool bool | TInt int_type int | TReal real_format "64 word" | TView bytes | TSpan bytes
  | TString bytes

definition coerce_bool :: "bytes \<Rightarrow> bool \<Rightarrow> bool" where
  "coerce_bool raw_val is_null = (if is_null then False else raw_val = ''true'' \<or> raw_val = ''1'')"

definition coerce_view :: "bytes \<Rightarrow> bool \<Rightarrow> bytes" where
  "coerce_view raw_val is_null = (if is_null then [] else raw_val)"

definition coerce_span :: "bytes \<Rightarrow> bool \<Rightarrow> bytes \<Rightarrow> bytes" where
  "coerce_span raw_val is_null target =
     (if is_null then []
      else let (out, decoded_len) = decode_json_string raw_val target in take decoded_len out)"

definition coerce_string :: "bytes \<Rightarrow> bool \<Rightarrow> bytes \<Rightarrow> bytes" where
  "coerce_string raw_val is_null target =
     (if is_null then []
      else let (out, decoded_len) = decode_json_string raw_val (resize target (length raw_val))
           in take decoded_len out)"

lemmas coerce_defs [simp] = coerce_bool_def coerce_view_def coerce_span_def coerce_string_def

fun coerce_value :: "bytes \<Rightarrow> bool \<Rightarrow> target \<Rightarrow> target" where
  "coerce_value raw_val is_null (TBool t) = TBool (coerce_bool raw_val is_null)"
| "coerce_value raw_val is_null (TInt ty t) = TInt ty (coerce_int ty raw_val is_null t)"
| "coerce_value raw_val is_null (TReal fmt t) = TReal fmt (coerce_real fmt raw_val is_null t)"
| "coerce_value raw_val is_null (TView t) = TView (coerce_view raw_val is_null)"
| "coerce_value raw_val is_null (TSpan t) = TSpan (coerce_span raw_val is_null t)"
| "coerce_value raw_val is_null (TString t) = TString (coerce_string raw_val is_null t)"

section \<open>Nodes\<close>

text \<open>\<open>DynamicNodeBase\<close>: the raw text and the state of the array iteration.\<close>

record dynamic =
  raw_val :: bytes
  is_string :: bool
  iter_state :: bytes
  iter_started :: bool

definition dynamic_new :: dynamic where
  "dynamic_new = \<lparr>raw_val = [], is_string = False, iter_state = [], iter_started = False\<rparr>"

text \<open>
  The classes of nodes: \<open>BindNode\<close> with its target, \<open>DynamicNode\<close>, and \<open>UnknownBindNode\<close>, the
  catch-all, whose callback is given by the list of the calls it has received (path, raw text,
  \<open>is_string\<close>, \<open>is_null\<close>).
\<close>

datatype node_class =
    BindNode target
  | DynamicNode dynamic
  | UnknownBindNode dynamic "(path \<times> bytes \<times> bool \<times> bool) list"

record parse_node =
  pn_path :: path
  is_set :: bool
  is_null :: bool
  pn_class :: node_class

definition is_catch_all :: "parse_node \<Rightarrow> bool" where
  "is_catch_all n = (case pn_class n of UnknownBindNode _ _ \<Rightarrow> True | _ \<Rightarrow> False)"

definition bind_node :: "path \<Rightarrow> target \<Rightarrow> parse_node" where
  "bind_node p t = \<lparr>pn_path = p, is_set = False, is_null = False, pn_class = BindNode t\<rparr>"

definition bind_dynamic :: "path \<Rightarrow> parse_node" where
  "bind_dynamic p = \<lparr>pn_path = p, is_set = False, is_null = False, pn_class = DynamicNode dynamic_new\<rparr>"

definition bind_unknown :: parse_node where
  "bind_unknown = \<lparr>pn_path = [], is_set = False, is_null = False, pn_class = UnknownBindNode dynamic_new []\<rparr>"

definition node_reset :: "parse_node \<Rightarrow> parse_node" where
  "node_reset n = n\<lparr>is_set := False, is_null := False\<rparr>"

definition dynamic_assign :: "bytes \<Rightarrow> bool \<Rightarrow> dynamic \<Rightarrow> dynamic" where
  "dynamic_assign raw str d =
     d\<lparr>raw_val := raw, is_string := str, iter_state := raw, iter_started := False\<rparr>"

text \<open>The virtual \<open>assign(actual_path, raw_val, is_string, is_null)\<close>.\<close>

definition assign :: "path \<Rightarrow> bytes \<Rightarrow> bool \<Rightarrow> bool \<Rightarrow> parse_node \<Rightarrow> parse_node" where
  "assign actual_path raw str null n =
     n\<lparr>is_set := True, is_null := null,
       pn_class :=
         (case pn_class n of
            BindNode t \<Rightarrow> BindNode (coerce_value raw null t)
          | DynamicNode d \<Rightarrow> DynamicNode (dynamic_assign raw str d)
          | UnknownBindNode d calls \<Rightarrow>
              UnknownBindNode (dynamic_assign raw str d) (calls @ [(actual_path, raw, str, null)]))\<rparr>"

section \<open>Character classes and scanning loops\<close>

definition is_json_whitespace :: "char \<Rightarrow> bool" where
  "is_json_whitespace c \<longleftrightarrow> c = CHR '' '' \<or> c = ch_lf \<or> c = ch_cr \<or> c = ch_tab"

definition is_primitive_delim :: "char \<Rightarrow> bool" where
  "is_primitive_delim c \<longleftrightarrow> c = CHR '' '' \<or> c = ch_tab \<or> c = ch_lf \<or> c = ch_cr
     \<or> c = CHR '','' \<or> c = CHR ''}'' \<or> c = CHR '']'' \<or> c = CHR ''{'' \<or> c = CHR ''[''"

text \<open>\<open>while (i < s.size() && p(s[i])) i++\<close>.\<close>

function scan_while :: "(char \<Rightarrow> bool) \<Rightarrow> bytes \<Rightarrow> nat \<Rightarrow> nat" where
  "scan_while p s i = (if i < length s \<and> p (s ! i) then scan_while p s (i + 1) else i)"
  by pat_completeness auto
termination by (relation "measure (\<lambda>(p, s, i). length s - i)") auto

declare scan_while.simps [simp del]

text \<open>The search for the end of a multi-line comment.\<close>

function scan_block :: "bytes \<Rightarrow> nat \<Rightarrow> nat" where
  "scan_block s i =
     (if i + 1 < length s \<and> \<not> (s ! i = CHR ''*'' \<and> s ! (i + 1) = CHR ''/'')
      then scan_block s (i + 1) else i)"
  by pat_completeness auto
termination by (relation "measure (\<lambda>(s, i). length s - i)") auto

declare scan_block.simps [simp del]

text \<open>The end of a string literal: an escaped character is skipped, whatever it is.\<close>

function scan_string :: "bytes \<Rightarrow> nat \<Rightarrow> nat" where
  "scan_string s i =
     (if i < length s \<and> s ! i \<noteq> ch_quote
      then scan_string s ((if s ! i = ch_bslash then i + 1 else i) + 1) else i)"
  by pat_completeness auto
termination by (relation "measure (\<lambda>(s, i). length s - i)") auto

declare scan_string.simps [simp del]

lemma scan_while_le: "i \<le> scan_while p s i"
  by (induction p s i rule: scan_while.induct) (subst scan_while.simps, auto)

lemma scan_block_le: "i \<le> scan_block s i"
  by (induction s i rule: scan_block.induct) (subst scan_block.simps, auto)

lemma scan_string_le: "i \<le> scan_string s i"
proof (induction s i rule: scan_string.induct)
  case (1 s i)
  then show ?case by (subst scan_string.simps) (auto split: if_splits)
qed

text \<open>\<open>skip_ws_and_comments\<close>: white space, \<open>//\<close> and \<open>/* */\<close> comments.\<close>

function skip_ws :: "bytes \<Rightarrow> nat \<Rightarrow> nat" where
  "skip_ws json i =
     (if i < length json then
        if is_json_whitespace (json ! i) then skip_ws json (i + 1)
        else if json ! i = CHR ''/'' \<and> i + 1 < length json then
          if json ! (i + 1) = CHR ''/'' then
            skip_ws json (scan_while (\<lambda>c. c \<noteq> ch_lf) json (i + 2))
          else if json ! (i + 1) = CHR ''*'' then skip_ws json (scan_block json (i + 2) + 2)
          else i
        else i
      else i)"
  by pat_completeness auto
termination
proof (relation "measure (\<lambda>(json, i). length json - i)", goal_cases)
  case (3 json i)
  then show ?case
    using scan_while_le[of "i + 2" "\<lambda>c. c \<noteq> ch_lf" json] by (auto intro!: diff_less_mono2)
next
  case (4 json i)
  then show ?case using scan_block_le[of "i + 2" json] by (auto intro!: diff_less_mono2)
qed auto

declare skip_ws.simps [simp del]

lemma skip_ws_le: "i \<le> skip_ws json i"
proof (induction json i rule: skip_ws.induct)
  case (1 json i)
  then show ?case
    using scan_while_le[of "i + 2" "\<lambda>c. c \<noteq> ch_lf" json] scan_block_le[of "i + 2" json]
    by (subst skip_ws.simps) (auto simp del: One_nat_def split: if_splits)
qed

text \<open>The look-ahead of \<open>capture_structural_value\<close>: the end of the block that starts at \<open>e\<close>.\<close>

function capture_end :: "bytes \<Rightarrow> nat \<Rightarrow> int \<Rightarrow> bool \<Rightarrow> nat" where
  "capture_end json e brace_depth in_str =
     (if e < length json then
        let ec = json ! e in
        if in_str then
          if ec = ch_bslash then capture_end json (e + 1 + 1) brace_depth True
          else if ec = ch_quote then capture_end json (e + 1) brace_depth False
          else capture_end json (e + 1) brace_depth True
        else if ec = ch_quote then capture_end json (e + 1) brace_depth True
        else if ec = CHR ''{'' \<or> ec = CHR ''['' then capture_end json (e + 1) (brace_depth + 1) False
        else if ec = CHR ''}'' \<or> ec = CHR '']'' then
          if brace_depth - 1 = 0 then e + 1 else capture_end json (e + 1) (brace_depth - 1) False
        else capture_end json (e + 1) brace_depth False
      else e)"
  by pat_completeness auto
termination by (relation "measure (\<lambda>(json, e, d, s). length json - e)") auto

declare capture_end.simps [simp del]

section \<open>Delivery to the bindings\<close>

text \<open>
  The loop over the nodes for a scalar: the first node that matches, otherwise the last catch-all
  seen (when there is a key).
\<close>

fun find_binding :: "path \<Rightarrow> bool \<Rightarrow> parse_node list \<Rightarrow> nat \<Rightarrow> nat option \<Rightarrow> nat option" where
  "find_binding current_path keyed [] idx catch_all = catch_all"
| "find_binding current_path keyed (n # ns) idx catch_all =
     (if is_catch_all n then
        find_binding current_path keyed ns (idx + 1) (if keyed then Some idx else catch_all)
      else if matches_parent (pn_path n) current_path then Some idx
      else find_binding current_path keyed ns (idx + 1) catch_all)"

definition assign_first ::
  "path \<Rightarrow> bool \<Rightarrow> bytes \<Rightarrow> bool \<Rightarrow> bool \<Rightarrow> parse_node list \<Rightarrow> parse_node list" where
  "assign_first current_path keyed raw str null nodes =
     (case find_binding current_path keyed nodes 0 None of
        None \<Rightarrow> nodes
      | Some j \<Rightarrow> nodes[j := assign current_path raw str null (nodes ! j)])"

text \<open>The two loops of \<open>capture_structural_value\<close>: all nodes that match, otherwise the catch-all.\<close>

definition wants_block :: "path \<Rightarrow> parse_node \<Rightarrow> bool" where
  "wants_block current_path n \<longleftrightarrow> \<not> is_catch_all n \<and> matches_parent (pn_path n) current_path"

fun last_catch_all :: "bool \<Rightarrow> parse_node list \<Rightarrow> nat \<Rightarrow> nat option \<Rightarrow> nat option" where
  "last_catch_all keyed [] idx catch_all = catch_all"
| "last_catch_all keyed (n # ns) idx catch_all =
     last_catch_all keyed ns (idx + 1) (if is_catch_all n \<and> keyed then Some idx else catch_all)"

definition assign_block :: "path \<Rightarrow> bool \<Rightarrow> bytes \<Rightarrow> parse_node list \<Rightarrow> parse_node list" where
  "assign_block current_path keyed block nodes =
     (if list_ex (wants_block current_path) nodes then
        map (\<lambda>n. if wants_block current_path n then assign current_path block False False n else n) nodes
      else
        case last_catch_all keyed nodes 0 None of
          None \<Rightarrow> nodes
        | Some j \<Rightarrow> nodes[j := assign current_path block False False (nodes ! j)])"

section \<open>The pass\<close>

record pstate =
  ps_i :: nat
  ps_depth :: nat
  ps_key :: bytes
  ps_stack :: "bytes list"
  ps_nodes :: "parse_node list"

text \<open>A scalar value: delivered unless the depth exceeds the stack; the key is cleared.\<close>

definition bind_scalar :: "bytes \<Rightarrow> bool \<Rightarrow> bool \<Rightarrow> pstate \<Rightarrow> pstate" where
  "bind_scalar raw str null st =
     (if ps_depth st < length (ps_stack st) then
        let stack = (ps_stack st)[ps_depth st := ps_key st];
            current_path = take (ps_depth st + 1) stack
        in st\<lparr>ps_stack := stack,
              ps_nodes := assign_first current_path (ps_key st \<noteq> []) raw str null (ps_nodes st)\<rparr>
      else st)\<lparr>ps_key := []\<rparr>"

definition capture_structural_value :: "bytes \<Rightarrow> pstate \<Rightarrow> pstate" where
  "capture_structural_value json st =
     (if ps_depth st \<ge> length (ps_stack st) then st
      else
        let stack = (ps_stack st)[ps_depth st := ps_key st];
            current_path = take (ps_depth st + 1) stack;
            block = substr json (ps_i st) (capture_end json (ps_i st) 0 False - ps_i st)
        in st\<lparr>ps_stack := stack,
              ps_nodes := assign_block current_path (ps_key st \<noteq> []) block (ps_nodes st)\<rparr>)"

text \<open>One round of the main loop, after white space and comments have been skipped.\<close>

definition parse_token :: "bytes \<Rightarrow> pstate \<Rightarrow> pstate" where
  "parse_token json st =
     (let i = ps_i st; c = json ! i in
      if c = CHR ''{'' then
        let st = capture_structural_value json st;
            st = (if ps_key st \<noteq> [] then
                    st\<lparr>ps_stack := (if ps_depth st < length (ps_stack st)
                                    then (ps_stack st)[ps_depth st := ps_key st] else ps_stack st),
                       ps_depth := ps_depth st + 1, ps_key := []\<rparr>
                  else st)
        in st\<lparr>ps_i := i + 1\<rparr>
      else if c = CHR ''['' then (capture_structural_value json st)\<lparr>ps_key := [], ps_i := i + 1\<rparr>
      else if c = CHR ''}'' then
        st\<lparr>ps_depth := (if ps_depth st > 0 then ps_depth st - 1 else ps_depth st), ps_i := i + 1\<rparr>
      else if c = CHR '','' \<or> c = CHR '':'' \<or> c = CHR '']'' then st\<lparr>ps_i := i + 1\<rparr>
      else if c = ch_quote then
        let start = i + 1;
            e = scan_string json start;
            str_val = substr json start (e - start);
            i = (if e < length json then e + 1 else e)
        in
          if i < length json \<and> json ! i = CHR '':'' then st\<lparr>ps_key := str_val, ps_i := i + 1\<rparr>
          else
            let i = skip_ws json i in
            if i < length json \<and> json ! i = CHR '':'' then st\<lparr>ps_key := str_val, ps_i := i + 1\<rparr>
            else (bind_scalar str_val True False st)\<lparr>ps_i := i\<rparr>
      else
        let e = scan_while (\<lambda>c. \<not> is_primitive_delim c) json i;
            prim_val = substr json i (e - i)
        in (bind_scalar prim_val False (prim_val = ''null'') st)\<lparr>ps_i := e\<rparr>)"

lemma ps_i_capture [simp]: "ps_i (capture_structural_value json st) = ps_i st"
  by (simp add: capture_structural_value_def Let_def)

lemma parse_token_progress:
  assumes "ps_i st < length json" "\<not> is_json_whitespace (json ! ps_i st)"
  shows "ps_i st < ps_i (parse_token json st)"
proof (cases "json ! ps_i st \<in> {CHR ''{'', CHR ''['', CHR ''}'', CHR '','', CHR '':'', CHR '']''}")
  case True
  then show ?thesis by (auto simp: parse_token_def Let_def)
next
  case structural: False
  show ?thesis
  proof (cases "json ! ps_i st = ch_quote")
    case True
    then show ?thesis
      using scan_string_le[of "ps_i st + 1" json] skip_ws_le[of "scan_string json (ps_i st + 1)" json]
        skip_ws_le[of "scan_string json (ps_i st + 1) + 1" json]
      by (auto simp: parse_token_def Let_def)
  next
    case False
    then have "\<not> is_primitive_delim (json ! ps_i st)"
      using structural assms(2) by (auto simp: is_primitive_delim_def is_json_whitespace_def)
    then have "ps_i st < scan_while (\<lambda>c. \<not> is_primitive_delim c) json (ps_i st)"
      using assms(1) scan_while_le[of "ps_i st + 1" "\<lambda>c. \<not> is_primitive_delim c" json]
      by (subst scan_while.simps) auto
    with False structural show ?thesis by (auto simp: parse_token_def Let_def)
  qed
qed

lemma skip_ws_stop:
  "skip_ws json i < length json \<Longrightarrow> \<not> is_json_whitespace (json ! skip_ws json i)"
proof (induction json i rule: skip_ws.induct)
  case (1 json i)
  then show ?case by (subst skip_ws.simps, subst (asm) (4) skip_ws.simps) (auto split: if_splits)
qed

function parse_loop :: "bytes \<Rightarrow> pstate \<Rightarrow> pstate" where
  "parse_loop json st =
     (if ps_i st < length json then
        let st = st\<lparr>ps_i := skip_ws json (ps_i st)\<rparr> in
        if ps_i st \<ge> length json then st else parse_loop json (parse_token json st)
      else st)"
  by pat_completeness auto
termination
proof (relation "measure (\<lambda>(json, st). length json - ps_i st)", goal_cases)
  case (2 json st st')
  then show ?case
    using skip_ws_le[of "ps_i st" json] skip_ws_stop[of json "ps_i st"]
      parse_token_progress[of st' json]
    by auto
qed simp

declare parse_loop.simps [simp del]

definition parse_json_nodes ::
  "bytes \<Rightarrow> parse_node list \<Rightarrow> bytes list \<Rightarrow> parse_node list" where
  "parse_json_nodes json nodes path_stack =
     ps_nodes (parse_loop json
       \<lparr>ps_i = 0, ps_depth = 0, ps_key = [], ps_stack = path_stack, ps_nodes = map node_reset nodes\<rparr>)"

text \<open>\<open>Parser<Nodes...>::parse\<close>: \<open>MaxDepth\<close> is the longest path of the nodes, at least 1.\<close>

definition max_path_depth :: "parse_node list \<Rightarrow> nat" where
  "max_path_depth nodes = foldr max (map (length \<circ> pn_path) nodes) 1"

definition parser_parse :: "bytes \<Rightarrow> parse_node list \<Rightarrow> parse_node list" where
  "parser_parse json nodes = parse_json_nodes json nodes (replicate (max_path_depth nodes) [])"

text \<open>
  The factories. \<open>json_parser\<close> keeps its nodes in a tuple; the overload with a callback puts the
  catch-all in front.
\<close>

definition bind_key :: "bytes option \<Rightarrow> target \<Rightarrow> parse_node" where
  "bind_key root_key t = bind_node (make_path [root_key]) t"

definition bind_dynamic_key :: "bytes option \<Rightarrow> parse_node" where
  "bind_dynamic_key root_key = bind_dynamic (make_path [root_key])"

definition json_parser :: "parse_node list \<Rightarrow> parse_node list" where
  "json_parser nodes = nodes"

definition json_parser_unknown :: "parse_node list \<Rightarrow> parse_node list" where
  "json_parser_unknown rest = json_parser (bind_unknown # rest)"

definition was_set :: "nat \<Rightarrow> parse_node list \<Rightarrow> bool" where
  "was_set index nodes = is_set (nodes ! index)"

definition was_null :: "nat \<Rightarrow> parse_node list \<Rightarrow> bool" where
  "was_null index nodes = is_null (nodes ! index)"

end
