(* ===== verification/Json_Text.thy ===== *)
theory Json_Text
  imports Values Parser
begin

text \<open>
  The abstract document that emission and parsing share: a JSON value as a tree, its compact text
  \<open>json_str\<close>, and the tree of a value of the serialiser. What \<^const>\<open>write_json_value\<close> produces
  is the compact text of that tree.
\<close>

section \<open>JSON values\<close>

text \<open>\<open>JPrim\<close> is a number, \<open>true\<close>, \<open>false\<close> or \<open>null\<close>, by its text.\<close>

datatype json = JStr bytes | JPrim bytes | JArr "json list" | JObj "(bytes \<times> json) list"

fun json_str :: "json \<Rightarrow> bytes" where
  "json_str (JStr s) = quoted s"
| "json_str (JPrim t) = t"
| "json_str (JArr js) = ''['' @ commas True (map json_str js) @ '']''"
| "json_str (JObj ms) =
     ''{'' @ commas True (map (\<lambda>(k, j). quoted k @ '':'' @ json_str j) ms) @ ''}''"

text \<open>
  A text that the parser reads as one primitive. The parser takes any run of characters without delimiters, also
  \<open>nan\<close> or \<open>1x\<close>; the JSON numbers are in \<open>Json_Grammar\<close>.
\<close>

definition prim_text :: "bytes \<Rightarrow> bool" where
  "prim_text t \<longleftrightarrow> t \<noteq> [] \<and> list_all (\<lambda>c. \<not> is_primitive_delim c \<and> c \<noteq> ch_quote) t
     \<and> hd t \<noteq> CHR ''/'' \<and> hd t \<noteq> CHR '':''"

fun json_by :: "(bytes \<Rightarrow> bool) \<Rightarrow> json \<Rightarrow> bool" where
  "json_by P (JStr s) = True"
| "json_by P (JPrim t) = P t"
| "json_by P (JArr js) = list_all (json_by P) js"
| "json_by P (JObj ms) = list_all (\<lambda>(k, j). json_by P j) ms"

abbreviation json_ok :: "json \<Rightarrow> bool" where
  "json_ok \<equiv> json_by prim_text"

fun tree_json :: "json jtree \<Rightarrow> json" where
  "tree_json (Leaf j) = j"
| "tree_json (Branch ms) = JObj (map (\<lambda>(k, t). (k, tree_json t)) ms)"

lemma render_tree_json: "render (map_jtree json_str t) = json_str (tree_json t)"
proof (induction t)
  case (Branch ms)
  then show ?case
    by (auto simp: comp_def case_prod_beta intro!: arg_cong[where f = "commas True"])
qed simp

section \<open>The tree of a value\<close>

fun op_plain :: "printer_op \<Rightarrow> bytes" where
  "op_plain (Print formatted) = (case formatted of None \<Rightarrow> [] | Some s \<Rightarrow> s)"
| "op_plain (Raw formatted) = []"

fun value_json :: "jval \<Rightarrow> json" and entry_json :: "jnode \<Rightarrow> (path \<times> json) list" where
  "value_json (LongLong v) = JPrim (int_string (sint v))"
| "value_json (ULongLong v) = JPrim (dec_string (unat v))"
| "value_json (Long v) = JPrim (int_string (sint v))"
| "value_json (ULong v) = JPrim (dec_string (unat v))"
| "value_json (SInt v) = JPrim (int_string (sint v))"
| "value_json (UInt v) = JPrim (dec_string (unat v))"
| "value_json (Short v) = JPrim (int_string (sint v))"
| "value_json (UShort v) = JPrim (dec_string (unat v))"
| "value_json (SChar v) = JPrim (int_string (sint v))"
| "value_json (UChar v) = JPrim (dec_string (unat v))"
| "value_json (Double formatted) = JPrim (case formatted of None \<Rightarrow> [] | Some s \<Rightarrow> s)"
| "value_json (Float formatted) = JPrim (case formatted of None \<Rightarrow> [] | Some s \<Rightarrow> s)"
| "value_json (Bool v) = JPrim (if v then ''true'' else ''false'')"
| "value_json Null = JPrim ''null''"
| "value_json (CStr s) = (case s of None \<Rightarrow> JPrim ''null'' | Some s \<Rightarrow> JStr s)"
| "value_json (Str s) = JStr s"
| "value_json (Printed calls) = JStr (concat (map op_plain calls))"
| "value_json (Streamed stop vs) = JArr (map value_json vs)"
| "value_json (Elements vs) = JArr (map value_json vs)"
| "value_json (Doc ns) = tree_json (Branch (build (concat (map entry_json ns))))"
| "entry_json (JNode p om v) = (if om then [] else [(p, value_json v)])"

text \<open>
  Values whose text is JSON with the scalars \<open>P\<close>: a printer lambda that uses \<open>write_raw\<close> is on its own, and what
  \<open>%g\<close> makes of a double must be one of \<open>P\<close>.
\<close>

fun is_print :: "printer_op \<Rightarrow> bool" where
  "is_print (Print formatted) \<longleftrightarrow> True"
| "is_print (Raw formatted) \<longleftrightarrow> False"

fun formatted_by :: "(bytes \<Rightarrow> bool) \<Rightarrow> bytes option \<Rightarrow> bool" where
  "formatted_by P None \<longleftrightarrow> False"
| "formatted_by P (Some s) \<longleftrightarrow> P s"

fun jsonable_by :: "(bytes \<Rightarrow> bool) \<Rightarrow> jval \<Rightarrow> bool" and jsonable_node_by :: "(bytes \<Rightarrow> bool) \<Rightarrow> jnode \<Rightarrow> bool" where
  "jsonable_by P (Double formatted) = formatted_by P formatted"
| "jsonable_by P (Float formatted) = formatted_by P formatted"
| "jsonable_by P (Printed calls) = list_all is_print calls"
| "jsonable_by P (Streamed stop vs) = list_all (jsonable_by P) vs"
| "jsonable_by P (Elements vs) = list_all (jsonable_by P) vs"
| "jsonable_by P (Doc ns) = list_all (jsonable_node_by P) ns"
| "jsonable_by P v = True"
| "jsonable_node_by P (JNode p om v) = (om \<or> jsonable_by P v)"

abbreviation jsonable :: "jval \<Rightarrow> bool" where
  "jsonable \<equiv> jsonable_by prim_text"

lemma escape_concat: "escape (concat ss) = concat (map escape ss)"
  by (induction ss) auto

lemma op_text_print: "list_all is_print cs \<Longrightarrow> map op_text cs = map (escape \<circ> op_plain) cs"
proof (induction cs)
  case (Cons c cs)
  then show ?case by (cases c) (auto split: option.splits)
qed simp

lemma document_text_json:
  "document_text (map (map_prod id json_str) ns) = json_str (tree_json (Branch (build ns)))"
  using render_tree_json[of "Branch (build ns)"] by (simp add: document_text_def build_map del: render.simps tree_json.simps)

lemma jtext_json:
  "jsonable_by P v \<Longrightarrow> jtext v = json_str (value_json v)"
  "jsonable_node_by P n \<Longrightarrow> jentry n = map (map_prod id json_str) (entry_json n)"
proof (induction v and n)
  case (Printed cs)
  then show ?case
    by (simp add: op_text_print quoted_def escape_concat comp_def)
next
  case (Streamed stop vs)
  then show ?case by (auto simp: list_all_iff intro!: arg_cong[where f = "commas True"])
next
  case (Elements vs)
  then show ?case by (auto simp: list_all_iff intro!: arg_cong[where f = "commas True"])
next
  case (Doc ns)
  have "concat (map jentry ns) = concat (map (\<lambda>n. map (map_prod id json_str) (entry_json n)) ns)"
    using Doc by (intro arg_cong[where f = concat] map_cong refl) (simp add: list_all_iff id_def)
  also have "\<dots> = map (map_prod id json_str) (concat (map entry_json ns))"
    by (simp add: map_concat comp_def)
  finally show ?case by (simp add: document_text_json del: tree_json.simps)
qed (auto split: option.splits)

section \<open>Well-formedness\<close>

lemma prim_text_dec: "prim_text (dec_string n)"
proof -
  have "is_digit c \<Longrightarrow> \<not> is_primitive_delim c \<and> c \<noteq> ch_quote \<and> c \<noteq> CHR ''/'' \<and> c \<noteq> CHR '':''" for c
    by (auto simp: is_digit_def is_primitive_delim_def)
  then show ?thesis
    using is_digit_dec_string[of n] dec_string_nonempty[of n]
    by (auto simp: prim_text_def list_all_iff dest!: hd_in_set)
qed

lemma prim_text_int: "prim_text (int_string i)"
  using prim_text_dec[of "nat i"] prim_text_dec[of "nat (- i)"]
  by (auto simp: int_string_def prim_text_def is_primitive_delim_def)

lemma prim_text_words: "prim_text ''true''" "prim_text ''false''" "prim_text ''null''"
  by (simp_all add: prim_text_def is_primitive_delim_def)

lemma json_by_tree: "(\<And>j. j \<in> set_jtree t \<Longrightarrow> json_by P j) \<Longrightarrow> json_by P (tree_json t)"
  by (induction t) (auto simp: list_all_iff split: prod.splits, metis fst_conv prod_set_simps snd_conv singletonI snds.intros)

lemma build_values: "(k, t) \<in> set (build ns) \<Longrightarrow> v \<in> set_jtree t \<Longrightarrow> v \<in> snd ` set ns"
proof (induction ns arbitrary: k t rule: build.induct)
  case (4 k0 k' ks w ns)
  from "4.prems"(1) consider (inner) "t = Branch (build ((k' # ks, w) # below k0 ns))"
    | (outer) "(k, t) \<in> set (build (beside k0 ns))" by auto
  then show ?case
  proof cases
    case inner
    with "4.prems"(2) obtain k1 t1 where "(k1, t1) \<in> set (build ((k' # ks, w) # below k0 ns))"
      "v \<in> set_jtree t1" by auto
    from "4.IH"(1)[OF this] show ?thesis by (force simp: below_def)
  next
    case outer
    from "4.IH"(2)[OF outer "4.prems"(2)] show ?thesis by (auto simp: beside_def)
  qed
qed auto

lemma json_by_value:
  assumes P: "\<And>n. P (dec_string n)" "\<And>i. P (int_string i)" "P ''true''" "P ''false''" "P ''null''" "\<And>s. Q s \<Longrightarrow> P s"
  shows "jsonable_by Q v \<Longrightarrow> json_by P (value_json v)"
    and "jsonable_node_by Q n \<Longrightarrow> list_all (json_by P \<circ> snd) (entry_json n)"
proof (induction v and n)
  case (Doc ns)
  then have ok: "\<forall>x\<in>snd ` set (concat (map entry_json ns)). json_by P x"
    by (fastforce simp: list_all_iff)
  have "json_by P (tree_json (Branch (build (concat (map entry_json ns)))))"
    by (rule json_by_tree) (use ok build_values in \<open>fastforce\<close>)
  then show ?case by (simp only: value_json.simps)
next
  case (Double f)
  then show ?case by (cases f) (auto simp: P)
next
  case (Float f)
  then show ?case by (cases f) (auto simp: P)
qed (auto simp: list_all_iff P split: option.splits)

lemma json_ok_value: "jsonable v \<Longrightarrow> json_ok (value_json v)"
  by (rule json_by_value(1)[OF prim_text_dec prim_text_int prim_text_words])

end
