(* ===== verification/Json_Grammar.thy ===== *)
theory Json_Grammar
  imports Json_Text
begin

text \<open>
  The grammar of compact JSON texts (RFC 8259, without the optional white space and over bytes: that a string is
  valid UTF-8 is up to the caller), independent of the routines that write: numbers, string bodies and texts as
  inductive sets. Emission stays inside of it when the doubles are printed as numbers, which leaves out \<open>nan\<close> and
  \<open>inf\<close>.
\<close>

section \<open>Grammar\<close>

definition digits :: "bytes \<Rightarrow> bool" where
  "digits s \<longleftrightarrow> s \<noteq> [] \<and> list_all is_digit s"

inductive json_int :: "bytes \<Rightarrow> bool" where
  zero: "json_int ''0''"
| digits: "digits s \<Longrightarrow> hd s \<noteq> CHR ''0'' \<Longrightarrow> json_int s"

inductive json_frac :: "bytes \<Rightarrow> bool" where
  none: "json_frac []"
| frac: "digits s \<Longrightarrow> json_frac (CHR ''.'' # s)"

inductive json_exp :: "bytes \<Rightarrow> bool" where
  none: "json_exp []"
| exp: "e \<in> {CHR ''e'', CHR ''E''} \<Longrightarrow> sign \<in> {[], ''+'', ''-''} \<Longrightarrow> digits s \<Longrightarrow> json_exp (e # sign @ s)"

inductive json_number :: "bytes \<Rightarrow> bool" where
  "sign \<in> {[], ''-''} \<Longrightarrow> json_int i \<Longrightarrow> json_frac f \<Longrightarrow> json_exp e \<Longrightarrow> json_number (sign @ i @ f @ e)"

definition is_hex :: "char \<Rightarrow> bool" where
  "is_hex c \<longleftrightarrow> is_digit c \<or> 65 \<le> byte_of c \<and> byte_of c \<le> 70 \<or> 97 \<le> byte_of c \<and> byte_of c \<le> 102"

inductive string_body :: "bytes \<Rightarrow> bool" where
  empty: "string_body []"
| plain: "32 \<le> byte_of c \<Longrightarrow> c \<noteq> ch_quote \<Longrightarrow> c \<noteq> ch_bslash \<Longrightarrow> string_body s \<Longrightarrow> string_body (c # s)"
| escaped: "c \<in> set (ch_quote # ch_bslash # ''/bfnrt'') \<Longrightarrow> string_body s \<Longrightarrow> string_body (ch_bslash # c # s)"
| unicode: "length h = 4 \<Longrightarrow> list_all is_hex h \<Longrightarrow> string_body s \<Longrightarrow>
    string_body (ch_bslash # CHR ''u'' # h @ s)"

inductive json_text :: "bytes \<Rightarrow> bool" where
  literal: "t \<in> {''true'', ''false'', ''null''} \<Longrightarrow> json_text t"
| number: "json_number t \<Longrightarrow> json_text t"
| string: "string_body s \<Longrightarrow> json_text (ch_quote # s @ [ch_quote])"
| array: "\<forall>t\<in>set ts. json_text t \<Longrightarrow> json_text (''['' @ commas True ts @ '']'')"
| object: "\<forall>(k, t)\<in>set ms. string_body k \<and> json_text t \<Longrightarrow>
    json_text (''{'' @ commas True (map (\<lambda>(k, t). (ch_quote # k @ [ch_quote]) @ '':'' @ t) ms) @ ''}'')"

section \<open>The texts that are written\<close>

lemma string_body_append: "string_body s \<Longrightarrow> string_body t \<Longrightarrow> string_body (s @ t)"
proof (induction rule: string_body.induct)
  case (unicode h s)
  then show ?case using string_body.unicode[of h "s @ t"] by simp
qed (auto intro: string_body.intros)

lemma is_hex_digit: "d < 16 \<Longrightarrow> is_hex (hex_digit d)"
  by (auto simp: is_hex_def is_digit_def hex_digit_def)

lemma string_body_hex4: "string_body (ch_bslash # CHR ''u'' # hex4 n)"
  using string_body.unicode[of "hex4 n" "[]"] string_body.empty by (simp add: hex4_def is_hex_digit)

lemma string_body_escape_char: "string_body (escape_char c)"
  using string_body.plain[OF _ _ _ string_body.empty, of c] string_body.escaped[OF _ string_body.empty]
  by (simp add: escape_char_def escape_seq_def needs_escape_def string_body_hex4)

lemma string_body_escaped: "string_body (escape s)"
  by (induction s) (auto intro: string_body.intros string_body_append string_body_escape_char)

lemma dec_string_leading: "hd (dec_string n) = CHR ''0'' \<Longrightarrow> n = 0"
proof (induction n rule: dec_string.induct)
  case (1 n)
  show ?case
  proof (cases "n < 10")
    case True
    then have "dec_string n = [char_of (48 + n)]" by (subst dec_string.simps) (simp add: dec_digit_def)
    with "1.prems" have "byte_of (char_of (48 + n)) = 48" by simp
    with True show ?thesis by simp
  next
    case False
    then have "hd (dec_string n) = hd (dec_string (n div 10))" by (subst dec_string.simps) simp
    with 1 False show ?thesis by simp
  qed
qed

lemma json_int_dec: "json_int (dec_string n)"
proof (cases "n = 0")
  case True
  then have "dec_string n = ''0''" by (subst dec_string.simps) (simp add: dec_digit_def char_of_def bit_0)
  then show ?thesis by (simp add: json_int.zero)
next
  case False
  then show ?thesis
    using dec_string_leading[of n] is_digit_dec_string[of n]
    by (intro json_int.digits) (auto simp: digits_def list_all_iff)
qed

lemma json_number_dec: "json_number (dec_string n)"
  using json_number.intros[of "[]", OF _ json_int_dec json_frac.none json_exp.none] by simp

lemma json_number_int: "json_number (int_string i)"
  using json_number.intros[of "''-''", OF _ json_int_dec json_frac.none json_exp.none] json_number_dec
  by (simp add: int_string_def)

text \<open>The scalars of the grammar: numbers and the three literals.\<close>

definition json_scalar :: "bytes \<Rightarrow> bool" where
  "json_scalar t \<longleftrightarrow> json_number t \<or> t \<in> {''true'', ''false'', ''null''}"

lemma json_text_str: "json_by json_scalar j \<Longrightarrow> json_text (json_str j)"
proof (induction j)
  case (JStr s)
  then show ?case by (simp add: quoted_def string_body_escaped json_text.string)
next
  case (JPrim t)
  then show ?case by (auto simp: json_scalar_def intro: json_text.intros)
next
  case (JArr js)
  have "json_text (''['' @ commas True (map json_str js) @ '']'')"
    by (rule json_text.array) (use JArr in \<open>auto simp: list_all_iff\<close>)
  then show ?case by simp
next
  case (JObj ms)
  have "json_text (''{'' @ commas True (map (\<lambda>(k, t). (ch_quote # k @ [ch_quote]) @ '':'' @ t)
      (map (\<lambda>(k, j). (escape k, json_str j)) ms)) @ ''}'')"
    by (rule json_text.object) (use JObj in \<open>auto simp: list_all_iff string_body_escaped\<close>)
  then show ?case by (simp add: comp_def case_prod_unfold quoted_def)
qed

lemma value_scalars: "jsonable_by json_number v \<Longrightarrow> json_by json_scalar (value_json v)"
  by (rule json_by_value(1)) (auto simp: json_scalar_def json_number_dec json_number_int)

section \<open>Properties\<close>

text \<open>C8: What \<open>Document::emit\<close> appends to a \<open>StackBuffer\<close> is well-formed JSON by the grammar of RFC 8259, byte by
  byte: for a document with usable paths and no raw \<open>printf\<close> output, whose doubles are printed as JSON numbers (not
  as \<open>nan\<close> or \<open>inf\<close>) and whose text fits, no failure is flagged and what is appended is a JSON text, that of
  the tree in which the nodes are grouped by their paths.\<close>

theorem emission_well_formed:
  assumes "sb_ok b" "\<not> sb_bad b" "jval_ok \<infinity> (Doc ns)" "jsonable_by json_number (Doc ns)"
    and "sb_head b + length (jtext (Doc ns)) \<le> sb_max b"
  shows "\<exists>b' n t. stack_json_emit stack_ops ns b = Some (b', n) \<and> \<not> sb_bad b' \<and> sb_view b' = sb_view b @ t \<and>
    json_text t \<and> t = json_str (value_json (Doc ns))"
proof -
  obtain b' n where w: "stack_json_emit stack_ops ns b = Some (b', n)" "stackb.emits 0 b (jtext (Doc ns)) b'"
    using stackb.stack_json_emit_emits[OF assms(1) _ assms(3)] by (auto simp del: jtext.simps)
  have "\<not> sb_bad b' \<and> sb_view b' = sb_view b @ jtext (Doc ns)"
    using stack_outcome[OF w(2) assms(1,2)] assms(5) by simp
  moreover have "jtext (Doc ns) = json_str (value_json (Doc ns))" by (rule jtext_json(1)[OF assms(4)])
  moreover have "json_text (json_str (value_json (Doc ns)))"
    by (rule json_text_str[OF value_scalars[OF assms(4)]])
  ultimately show ?thesis using w(1) by metis
qed

theorem emission_well_formed_witness:
  "\<exists>b' n t. stack_json_emit stack_ops [jnode_of [''a'', ''b''] (Double (Some ''1e+06'')), jnode_of [''a'', ''c''] (Str [ch_lf])]
       (stack_buffer_new 64) = Some (b', n) \<and> sb_view b' = t \<and> json_text t"
proof -
  let ?ns = "[jnode_of [''a'', ''b''] (Double (Some ''1e+06'')), jnode_of [''a'', ''c''] (Str [ch_lf])]"
  have "json_number ([] @ ''1'' @ [] @ CHR ''e'' # ''+'' @ ''06'')"
    by (intro json_number.intros json_int.digits json_frac.none json_exp.exp) (simp_all add: digits_def is_digit_def)
  then have "jsonable_by json_number (Doc ?ns)" by (simp add: jnode_of_def)
  moreover have "jval_ok \<infinity> (Doc ?ns)" by (simp add: jnode_of_def paths_ok_def)
  moreover have "sb_head (stack_buffer_new 64) + length (jtext (Doc ?ns)) \<le> sb_max (stack_buffer_new 64)"
    by (simp add: jnode_of_def document_text_def quoted_def escape_char_def needs_escape_def escape_seq_def
      below_def beside_def)
  ultimately show ?thesis using emission_well_formed[of "stack_buffer_new 64" ?ns] by auto
qed

end
