(* ===== verification/Scanning.thy ===== *)
theory Scanning
  imports Json_Text
begin

text \<open>
  The scanning loops of the parser on well-formed text: literals, white space, primitives, and the
  two loops that look for the end of an array or object. The latter share the contract
  \<open>block_scanner\<close>.
\<close>

section \<open>String literals\<close>

text \<open>The inside of a literal: no bare quote, and a backslash is followed by a character.\<close>

fun str_body :: "bytes \<Rightarrow> bool" where
  "str_body [] = True"
| "str_body [c] = (c \<noteq> ch_quote \<and> c \<noteq> ch_bslash)"
| "str_body (c # d # t) =
     (if c = ch_bslash then str_body t else c \<noteq> ch_quote \<and> str_body (d # t))"

lemma str_body_append: "str_body s \<Longrightarrow> str_body t \<Longrightarrow> str_body (s @ t)"
proof (induction s rule: str_body.induct)
  case (2 c)
  then show ?case by (cases t) auto
qed (auto split: if_splits)

lemma str_body_plain: "list_all (\<lambda>c. c \<noteq> ch_quote \<and> c \<noteq> ch_bslash) s \<Longrightarrow> str_body s"
  by (induction s rule: str_body.induct) auto

lemma hex_digit_plain: "d < 16 \<Longrightarrow> hex_digit d \<noteq> ch_quote \<and> hex_digit d \<noteq> ch_bslash"
  using hex_value_digit[of d] by (auto simp: hex_value_def)

lemma str_body_escape_char: "str_body (escape_char c)"
proof (cases "escape_char c = ch_bslash # CHR ''u'' # hex4 (byte_of c)")
  case True
  then show ?thesis by (simp add: hex4_def hex_digit_plain)
next
  case False
  then show ?thesis
    by (auto simp: escape_char_def escape_seq_def needs_escape_def split: if_splits)
qed

lemma str_body_escape: "str_body (escape s)"
  by (induction s) (auto intro: str_body_append str_body_escape_char)

lemma scan_string_body:
  "str_body t \<Longrightarrow> scan_string (pre @ t @ post) (length pre) = scan_string (pre @ t @ post) (length pre + length t)"
proof (induction t arbitrary: pre rule: str_body.induct)
  case (2 c)
  then show ?case by (subst scan_string.simps) (simp add: nth_append)
next
  case (3 c d t)
  show ?case
  proof (cases "c = ch_bslash")
    case True
    with 3(1)[of "pre @ [c, d]"] 3(3) show ?thesis
      by (subst scan_string.simps) (simp add: nth_append)
  next
    case False
    with 3(2)[of "pre @ [c]"] 3(3) show ?thesis
      by (subst scan_string.simps) (simp add: nth_append)
  qed
qed simp

lemma scan_string_quoted:
  "scan_string (pre @ escape s @ ch_quote # post) (length pre) = length pre + length (escape s)"
  using scan_string_body[OF str_body_escape, of pre s "ch_quote # post"]
  by (simp add: scan_string.simps[of _ "length pre + length (escape s)"] nth_append)

section \<open>White space and primitives\<close>

lemma skip_ws_none:
  "i < length json \<longrightarrow> \<not> is_json_whitespace (json ! i) \<and> json ! i \<noteq> CHR ''/'' \<Longrightarrow> skip_ws json i = i"
  by (subst skip_ws.simps) auto

lemma scan_while_all:
  assumes "list_all p t" "post = [] \<or> \<not> p (hd post)"
  shows "scan_while p (pre @ t @ post) (length pre) = length pre + length t"
  using assms(1)
proof (induction t arbitrary: pre)
  case Nil
  with assms(2) show ?case by (subst scan_while.simps) (cases post; auto simp: nth_append)
next
  case (Cons c t)
  with Cons.IH[of "pre @ [c]"] show ?case by (subst scan_while.simps) (simp add: nth_append)
qed

section \<open>The end of a block\<close>

text \<open>
  \<open>scan s i b q\<close>: the end found from position \<open>i\<close> at bracket depth \<open>b\<close>, inside of a string
  literal iff \<open>q\<close>.
\<close>

locale block_scanner =
  fixes scan :: "bytes \<Rightarrow> nat \<Rightarrow> int \<Rightarrow> bool \<Rightarrow> nat"
  assumes plain: "i < length s \<Longrightarrow> s ! i \<notin> {ch_quote, CHR ''{'', CHR ''['', CHR ''}'', CHR '']''} \<Longrightarrow>
      scan s i b False = scan s (i + 1) b False"
    and quote: "i < length s \<Longrightarrow> s ! i = ch_quote \<Longrightarrow> scan s i b False = scan s (i + 1) b True"
    and opens: "i < length s \<Longrightarrow> s ! i \<in> {CHR ''{'', CHR ''[''} \<Longrightarrow>
      scan s i b False = scan s (i + 1) (b + 1) False"
    and closes: "i < length s \<Longrightarrow> s ! i \<in> {CHR ''}'', CHR '']''} \<Longrightarrow>
      scan s i b False = (if b = 1 then i + 1 else scan s (i + 1) (b - 1) False)"
    and str_plain: "i < length s \<Longrightarrow> s ! i \<noteq> ch_quote \<Longrightarrow> s ! i \<noteq> ch_bslash \<Longrightarrow>
      scan s i b True = scan s (i + 1) b True"
    and str_escape: "i + 1 < length s \<Longrightarrow> s ! i = ch_bslash \<Longrightarrow> scan s i b True = scan s (i + 2) b True"
    and str_quote: "i < length s \<Longrightarrow> s ! i = ch_quote \<Longrightarrow> scan s i b True = scan s (i + 1) b False"
begin

definition passes :: "int \<Rightarrow> bytes \<Rightarrow> bool" where
  "passes b t \<longleftrightarrow> (\<forall>pre post. scan (pre @ t @ post) (length pre) b False =
     scan (pre @ t @ post) (length pre + length t) b False)"

lemma passesD: "passes b t \<Longrightarrow>
    scan (pre @ t @ post) (length pre) b False = scan (pre @ t @ post) (length pre + length t) b False"
  by (simp add: passes_def)

lemma passes_Nil: "passes b []"
  by (simp add: passes_def)

lemma passes_append: "passes b s \<Longrightarrow> passes b t \<Longrightarrow> passes b (s @ t)"
  unfolding passes_def
proof (intro allI)
  fix pre post
  assume s: "\<forall>pre post. scan (pre @ s @ post) (length pre) b False = scan (pre @ s @ post) (length pre + length s) b False"
    and t: "\<forall>pre post. scan (pre @ t @ post) (length pre) b False = scan (pre @ t @ post) (length pre + length t) b False"
  from s[rule_format, of pre "t @ post"] t[rule_format, of "pre @ s" post]
  show "scan (pre @ (s @ t) @ post) (length pre) b False =
      scan (pre @ (s @ t) @ post) (length pre + length (s @ t)) b False"
    by (simp add: add.assoc)
qed

lemma passes_plain: "list_all (\<lambda>c. c \<notin> {ch_quote, CHR ''{'', CHR ''['', CHR ''}'', CHR '']''}) t \<Longrightarrow> passes b t"
proof (induction t)
  case (Cons c t)
  have "passes b [c]"
    unfolding passes_def using Cons.prems plain[of "length pre" "pre @ c # post" b for pre post] by simp
  with Cons passes_append[of b "[c]" t] show ?case by simp
qed (simp add: passes_Nil)

lemma in_string:
  "str_body t \<Longrightarrow> scan (pre @ t @ post) (length pre) b True = scan (pre @ t @ post) (length pre + length t) b True"
proof (induction t arbitrary: pre rule: str_body.induct)
  case (2 c)
  then show ?case using str_plain[of "length pre" "pre @ c # post" b] by simp
next
  case (3 c d t)
  show ?case
  proof (cases "c = ch_bslash")
    case True
    with 3(1)[of "pre @ [c, d]"] 3(3) str_escape[of "length pre" "pre @ c # d # t @ post" b] show ?thesis
      by (simp add: add.commute)
  next
    case False
    with 3(2)[of "pre @ [c]"] 3(3) str_plain[of "length pre" "pre @ c # d # t @ post" b] show ?thesis
      by simp
  qed
qed simp

lemma passes_quoted: "passes b (quoted s)"
  unfolding passes_def
proof (intro allI)
  fix pre post
  let ?s = "pre @ quoted s @ post" and ?i = "length pre + 1 + length (escape s)"
  have "scan ?s (length pre) b False = scan ?s (length pre + 1) b True"
    by (rule quote) (simp_all add: quoted_def nth_append)
  also have "\<dots> = scan ?s ?i b True"
    using in_string[OF str_body_escape, of "pre @ [ch_quote]" s "ch_quote # post" b]
    by (simp add: quoted_def)
  also have "\<dots> = scan ?s (?i + 1) b False"
    by (rule str_quote) (simp_all add: quoted_def nth_append)
  finally show "scan ?s (length pre) b False = scan ?s (length pre + length (quoted s)) b False"
    by (simp add: quoted_def)
qed

lemma block_step:
  assumes "passes (b + 1) t" "l \<in> {CHR ''{'', CHR ''[''}" "r \<in> {CHR ''}'', CHR '']''}"
  shows "scan (pre @ (l # t @ [r]) @ post) (length pre) b False =
    (if b = 0 then length pre + length (l # t @ [r])
     else scan (pre @ (l # t @ [r]) @ post) (length pre + length (l # t @ [r])) b False)"
proof -
  let ?s = "pre @ (l # t @ [r]) @ post"
  have "scan ?s (length pre) b False = scan ?s (length pre + 1) (b + 1) False"
    by (rule opens) (use assms(2) in simp_all)
  also have "\<dots> = scan ?s (length pre + 1 + length t) (b + 1) False"
    using passesD[OF assms(1), of "pre @ [l]" "r # post"] by simp
  also have "\<dots> = (if b + 1 = 1 then length pre + 1 + length t + 1
      else scan ?s (length pre + 1 + length t + 1) (b + 1 - 1) False)"
    by (rule closes) (use assms(3) in \<open>simp_all add: nth_append\<close>)
  finally show ?thesis by simp
qed

lemma passes_block:
  "1 \<le> b \<Longrightarrow> passes (b + 1) t \<Longrightarrow> l \<in> {CHR ''{'', CHR ''[''} \<Longrightarrow> r \<in> {CHR ''}'', CHR '']''} \<Longrightarrow>
    passes b (l # t @ [r])"
  using block_step[of b t l r] by (simp add: passes_def)

lemma passes_commas: "\<forall>t\<in>set ts. passes b t \<Longrightarrow> passes b (commas first ts)"
proof (induction ts arbitrary: first)
  case (Cons t ts)
  have "passes b (if first then [] else '','')"
    using passes_plain[of "'',''" b] by (simp add: passes_Nil)
  moreover have "passes b t" "passes b (commas False ts)" using Cons by simp_all
  ultimately show ?case unfolding commas.simps by (intro passes_append)
qed (simp add: passes_Nil)

lemma passes_json: "json_ok j \<Longrightarrow> 1 \<le> b \<Longrightarrow> passes b (json_str j)"
proof (induction j arbitrary: b)
  case (JStr s)
  show ?case by (simp add: passes_quoted)
next
  case (JPrim t)
  then have "list_all (\<lambda>c. c \<notin> {ch_quote, CHR ''{'', CHR ''['', CHR ''}'', CHR '']''}) t"
    by (auto simp: prim_text_def is_primitive_delim_def elim!: list.pred_mono_strong)
  then show ?case by (simp add: passes_plain)
next
  case (JArr js)
  have "passes (b + 1) (commas True (map json_str js))"
    by (rule passes_commas) (use JArr in \<open>auto simp: list_all_iff\<close>)
  from passes_block[OF JArr.prems(2) this] show ?case by simp
next
  case (JObj ms)
  have "passes (b + 1) (quoted k @ '':'' @ json_str j)" if "(k, j) \<in> set ms" for k j
    using JObj that passes_plain[of "'':''"]
    by (intro passes_append passes_quoted) (auto simp: list_all_iff)
  then have "passes (b + 1) (commas True (map (\<lambda>(k, j). quoted k @ '':'' @ json_str j) ms))"
    by (intro passes_commas) auto
  from passes_block[OF JObj.prems(2) this] show ?case by simp
qed

text \<open>From the opening bracket of an array or object, the scan ends behind its closing bracket.\<close>

lemma scan_json_block:
  assumes "json_ok j" "j = JArr js \<or> j = JObj ms"
  shows "scan (pre @ json_str j @ post) (length pre) 0 False = length pre + length (json_str j)"
  using assms(2)
proof
  assume j: "j = JArr js"
  have "passes (0 + 1) (commas True (map json_str js))"
    by (rule passes_commas) (use assms(1) j in \<open>auto simp: list_all_iff intro: passes_json\<close>)
  from block_step[OF this, of "CHR ''[''" "CHR '']''" pre post] show ?thesis by (simp add: j)
next
  assume j: "j = JObj ms"
  have "passes (0 + 1) (quoted k @ '':'' @ json_str j)" if "(k, j) \<in> set ms" for k j
    using assms(1) j that passes_plain[of "'':''"]
    by (intro passes_append passes_quoted) (auto simp: list_all_iff intro: passes_json)
  then have "passes (0 + 1) (commas True (map (\<lambda>(k, j). quoted k @ '':'' @ json_str j) ms))"
    by (intro passes_commas) auto
  from block_step[OF this, of "CHR ''{''" "CHR ''}''" pre post] show ?thesis by (simp add: j)
qed

end

interpretation capture: block_scanner capture_end
  by unfold_locales (subst capture_end.simps, auto simp: Let_def)+

end
