(* ===== verification/Parse_Json.thy ===== *)
theory Parse_Json
  imports Scanning
begin

text \<open>
  What one pass of the parser does on well-formed text: it hands every value of the document to the
  bindings, in the order of the text (\<open>deliver\<close>), and what a single binding receives are the
  values along its own path (\<open>received\<close>).
\<close>

section \<open>The reference\<close>

text \<open>
  \<open>m\<close> is the size of the path stack, \<open>pp\<close> the keys of the enclosing objects and \<open>k\<close> the current
  key (empty inside an array).
\<close>

definition scalar_to ::
  "nat \<Rightarrow> path \<Rightarrow> bytes \<Rightarrow> bytes \<Rightarrow> bool \<Rightarrow> bool \<Rightarrow> parse_node list \<Rightarrow> parse_node list" where
  "scalar_to m pp k raw str null ns =
     (if length pp < m then assign_first (pp @ [k]) (k \<noteq> []) raw str null ns else ns)"

definition block_to :: "nat \<Rightarrow> path \<Rightarrow> bytes \<Rightarrow> bytes \<Rightarrow> parse_node list \<Rightarrow> parse_node list" where
  "block_to m pp k block ns =
     (if length pp < m then assign_block (pp @ [k]) (k \<noteq> []) block ns else ns)"

fun deliver :: "nat \<Rightarrow> path \<Rightarrow> bytes \<Rightarrow> json \<Rightarrow> parse_node list \<Rightarrow> parse_node list" where
  "deliver m pp k (JStr s) ns = scalar_to m pp k (escape s) True False ns"
| "deliver m pp k (JPrim t) ns = scalar_to m pp k t False (t = ''null'') ns"
| "deliver m pp k (JArr js) ns =
     fold (\<lambda>j. deliver m pp [] j) js (block_to m pp k (json_str (JArr js)) ns)"
| "deliver m pp k (JObj ms) ns =
     fold (\<lambda>(k', j). deliver m (if k = [] then pp else pp @ [k]) (escape k') j) ms
       (block_to m pp k (json_str (JObj ms)) ns)"

text \<open>
  The documents for which the parser's depth is right: the keys are not empty and arrays contain no
  objects.
\<close>

fun no_object :: "json \<Rightarrow> bool" where
  "no_object (JStr s) = True"
| "no_object (JPrim t) = True"
| "no_object (JArr js) = list_all no_object js"
| "no_object (JObj ms) = False"

fun parseable :: "json \<Rightarrow> bool" where
  "parseable (JStr s) = True"
| "parseable (JPrim t) = prim_text t"
| "parseable (JArr js) = list_all (\<lambda>j. json_ok j \<and> no_object j) js"
| "parseable (JObj ms) = list_all (\<lambda>(k, j). k \<noteq> [] \<and> parseable j) ms"

lemma parseable_ok: "parseable j \<Longrightarrow> json_ok j"
  by (induction j) (auto simp: list_all_iff)

lemma no_object_parseable: "json_ok j \<Longrightarrow> no_object j \<Longrightarrow> parseable j"
  by (induction j) (auto simp: list_all_iff)

section \<open>Single tokens\<close>

abbreviation pst :: "nat \<Rightarrow> nat \<Rightarrow> bytes \<Rightarrow> bytes list \<Rightarrow> parse_node list \<Rightarrow> pstate" where
  "pst i d k stk ns \<equiv> \<lparr>ps_i = i, ps_depth = d, ps_key = k, ps_stack = stk, ps_nodes = ns\<rparr>"

text \<open>The stack holds the keys of the enclosing objects, as far as it reaches.\<close>

definition on_path :: "nat \<Rightarrow> path \<Rightarrow> bytes list \<Rightarrow> bool" where
  "on_path m pp stk \<longleftrightarrow> length stk = m \<and> take (length pp) stk = take m pp"

lemma on_path_current:
  "on_path m pp stk \<Longrightarrow> length pp < m \<Longrightarrow> take (length pp + 1) (stk[length pp := k]) = pp @ [k]"
  by (simp add: on_path_def take_Suc_conv_app_nth)

lemma on_path_update: "on_path m pp stk \<Longrightarrow> on_path m pp (stk[length pp := k])"
  by (simp add: on_path_def)

lemma on_path_deeper:
  assumes "on_path m pp stk"
  shows "on_path m (pp @ [k]) (if length pp < m then stk[length pp := k] else stk)"
proof (cases "length pp < m")
  case True
  then show ?thesis
    using on_path_current[OF assms, of k] assms by (simp add: on_path_def)
next
  case False
  have "length stk = m" "take (length pp) stk = take m pp" using assms by (auto simp: on_path_def)
  moreover from this(1) False have "take (length pp) stk = stk" by (intro take_all) simp
  ultimately show ?thesis using False by (simp add: on_path_def)
qed

lemma on_path_outer: "on_path m (pp @ [k]) stk \<Longrightarrow> on_path m pp stk"
proof -
  assume "on_path m (pp @ [k]) stk"
  then have "length stk = m" "take (length pp + 1) stk = take m (pp @ [k])"
    by (simp_all add: on_path_def)
  from this(1) arg_cong[OF this(2), of "take (length pp)"] show "on_path m pp stk"
    by (cases "length pp < m") (simp_all add: on_path_def)
qed

lemma bind_scalar_to:
  "on_path m pp stk \<Longrightarrow> \<exists>stk'. on_path m pp stk' \<and>
    bind_scalar raw str null (pst i (length pp) k stk ns) =
      pst i (length pp) [] stk' (scalar_to m pp k raw str null ns)"
  using on_path_current[of m pp stk k] on_path_update[of m pp stk k]
  by (cases "length pp < m") (auto simp: bind_scalar_def Let_def scalar_to_def on_path_def)

lemma capture_block_to:
  assumes "on_path m pp stk" "json_ok j" "j = JArr js \<or> j = JObj ms"
  shows "\<exists>stk'. on_path m pp stk' \<and>
    capture_structural_value (pre @ json_str j @ post) (pst (length pre) (length pp) k stk ns) =
      pst (length pre) (length pp) k stk' (block_to m pp k (json_str j) ns)"
proof -
  have "substr (pre @ json_str j @ post) (length pre)
      (capture_end (pre @ json_str j @ post) (length pre) 0 False - length pre) = json_str j"
    using capture.scan_json_block[OF assms(2,3), of pre post] by simp
  then show ?thesis
    using on_path_current[OF assms(1), of k] on_path_update[OF assms(1), of k] assms(1)
    by (cases "length pp < m")
      (auto simp: capture_structural_value_def Let_def block_to_def on_path_def)
qed

lemma parse_loop_token:
  assumes "json = pre @ c # rest" "\<not> is_json_whitespace c" "c \<noteq> CHR ''/''"
  shows "parse_loop json (pst (length pre) d k stk ns) =
    parse_loop json (parse_token json (pst (length pre) d k stk ns))"
proof -
  have "skip_ws json (length pre) = length pre"
    using assms by (intro skip_ws_none) simp
  then show ?thesis
    using assms(1) by (subst parse_loop.simps) (simp add: Let_def)
qed

lemma parse_skip:
  assumes "json = pre @ c # rest" "c = CHR '','' \<or> c = CHR '':'' \<or> c = CHR '']''"
  shows "parse_loop json (pst (length pre) d k stk ns) = parse_loop json (pst (length pre + 1) d k stk ns)"
  using assms parse_loop_token[of json pre c rest d k stk ns]
  by (auto simp: parse_token_def Let_def is_json_whitespace_def)

lemma parse_close:
  assumes "json = pre @ CHR ''}'' # rest"
  shows "parse_loop json (pst (length pre) d k stk ns) = parse_loop json (pst (length pre + 1) (d - 1) k stk ns)"
  using assms parse_loop_token[of json pre "CHR ''}''" rest d k stk ns]
  by (simp add: parse_token_def Let_def is_json_whitespace_def)

lemma parse_key:
  assumes "json = pre @ quoted k' @ CHR '':'' # rest"
  shows "parse_loop json (pst (length pre) d k stk ns) =
    parse_loop json (pst (length pre + length (quoted k') + 1) d (escape k') stk ns)"
proof -
  have e: "scan_string json (length pre + 1) = length pre + 1 + length (escape k')"
    using scan_string_quoted[of "pre @ [ch_quote]" k' "CHR '':'' # rest"] assms
    by (simp add: quoted_def)
  have "substr json (length pre + 1) (length (escape k')) = escape k'"
    using substr_append_exact[of "pre @ [ch_quote]" "escape k'" "ch_quote # CHR '':'' # rest"] assms
    by (simp add: quoted_def)
  moreover have "json ! (length pre + length (quoted k')) = CHR '':''"
    using nth_append_length[of "pre @ quoted k'" "CHR '':''" rest] assms by simp
  ultimately have "parse_token json (pst (length pre) d k stk ns) =
      pst (length pre + length (quoted k') + 1) d (escape k') stk ns"
    using assms e by (simp add: parse_token_def Let_def quoted_def nth_append)
  with parse_loop_token[of json pre ch_quote "escape k' @ ch_quote # CHR '':'' # rest"] assms
  show ?thesis by (simp add: quoted_def is_json_whitespace_def)
qed

text \<open>What may follow a value.\<close>

definition ends_value :: "bytes \<Rightarrow> bool" where
  "ends_value post \<longleftrightarrow> post = [] \<or> hd post = CHR '','' \<or> hd post = CHR ''}'' \<or> hd post = CHR '']''"

lemma ends_value_Cons: "ends_value (c # post) \<longleftrightarrow> c = CHR '','' \<or> c = CHR ''}'' \<or> c = CHR '']''"
  by (simp add: ends_value_def)

lemma parse_string:
  assumes json: "json = pre @ quoted s @ post" and post: "ends_value post" and stk: "on_path m pp stk"
  shows "\<exists>stk'. on_path m pp stk' \<and> parse_loop json (pst (length pre) (length pp) k stk ns) =
    parse_loop json (pst (length pre + length (quoted s)) (length pp) [] stk'
      (scalar_to m pp k (escape s) True False ns))"
proof -
  let ?i = "length pre + length (quoted s)" and ?e = "length pre + 1 + length (escape s)"
  have e: "scan_string json (length pre + 1) = ?e"
    using scan_string_quoted[of "pre @ [ch_quote]" s post] json by (simp add: quoted_def)
  have raw: "substr json (length pre + 1) (?e - (length pre + 1)) = escape s"
    using substr_append_exact[of "pre @ [ch_quote]" "escape s" "ch_quote # post"] json
    by (simp add: quoted_def)
  have next_char: "?i < length json \<longrightarrow> json ! ?i = hd post \<and> post \<noteq> []"
    using json by (cases post) (auto simp: nth_append)
  have skip: "skip_ws json ?i = ?i"
    using next_char post by (intro skip_ws_none) (auto simp: ends_value_def is_json_whitespace_def)
  have colon: "\<not> (?i < length json \<and> json ! ?i = CHR '':'')"
    using next_char post by (auto simp: ends_value_def)
  have "parse_token json (pst (length pre) (length pp) k stk ns) =
      (bind_scalar (escape s) True False (pst (length pre) (length pp) k stk ns))\<lparr>ps_i := ?i\<rparr>"
  proof -
    have "json ! length pre = ch_quote" "?e < length json" "?e + 1 = ?i"
      using json by (simp_all add: quoted_def nth_append)
    then show ?thesis
      using e raw skip colon by (auto simp: parse_token_def Let_def quoted_def)
  qed
  with bind_scalar_to[OF stk, of "escape s" True False "length pre" k ns]
    parse_loop_token[of json pre ch_quote "escape s @ ch_quote # post"] json
  show ?thesis by (auto simp: quoted_def is_json_whitespace_def)
qed

lemma parse_prim:
  assumes json: "json = pre @ t @ post" and t: "prim_text t"
    and post: "ends_value post" and stk: "on_path m pp stk"
  shows "\<exists>stk'. on_path m pp stk' \<and> parse_loop json (pst (length pre) (length pp) k stk ns) =
    parse_loop json (pst (length pre + length t) (length pp) [] stk'
      (scalar_to m pp k t False (t = ''null'') ns))"
proof -
  obtain c t' where c: "t = c # t'" using t by (cases t) (auto simp: prim_text_def)
  have "list_all (\<lambda>c. \<not> is_primitive_delim c) t"
    using t by (auto simp: prim_text_def list_all_iff)
  then have e: "scan_while (\<lambda>c. \<not> is_primitive_delim c) json (length pre) = length pre + length t"
    unfolding json using post
    by (intro scan_while_all) (auto simp: ends_value_def is_primitive_delim_def)
  have raw: "substr json (length pre) (length t) = t" by (simp add: json)
  have "c \<notin> {CHR ''{'', CHR ''['', CHR ''}'', CHR '','', CHR '':'', CHR '']'', ch_quote, CHR ''/''}"
    and ws: "\<not> is_json_whitespace c"
    using t by (auto simp: c prim_text_def is_primitive_delim_def is_json_whitespace_def)
  moreover from this have "parse_token json (pst (length pre) (length pp) k stk ns) =
      (bind_scalar t False (t = ''null'') (pst (length pre) (length pp) k stk ns))\<lparr>ps_i := length pre + length t\<rparr>"
    using e raw by (simp add: parse_token_def Let_def json c)
  ultimately show ?thesis
    using bind_scalar_to[OF stk, of t False "t = ''null''" "length pre" k ns]
      parse_loop_token[of json pre c "t' @ post"] json c
    by auto
qed

section \<open>Values\<close>

text \<open>
  The pass moves over the text \<open>t\<close> that starts behind \<open>pre\<close>, in an object with path \<open>pp\<close>, and
  changes the bindings by \<open>f\<close>; the key is used up.
\<close>

definition advances ::
  "bytes \<Rightarrow> bytes \<Rightarrow> bytes \<Rightarrow> nat \<Rightarrow> path \<Rightarrow> bytes \<Rightarrow> (parse_node list \<Rightarrow> parse_node list) \<Rightarrow> bool" where
  "advances json pre t m pp k f \<longleftrightarrow>
     (\<forall>stk ns. on_path m pp stk \<longrightarrow>
       (\<exists>stk'. on_path m pp stk' \<and> parse_loop json (pst (length pre) (length pp) k stk ns) =
         parse_loop json (pst (length pre + length t) (length pp) [] stk' (f ns))))"

lemma advancesE:
  assumes "advances json pre t m pp k f" "on_path m pp stk"
  obtains stk' where "on_path m pp stk'" "parse_loop json (pst (length pre) (length pp) k stk ns) =
    parse_loop json (pst (length pre + length t) (length pp) [] stk' (f ns))"
  using assms unfolding advances_def by blast

lemma advances_append:
  assumes "advances json pre s m pp k f" "advances json (pre @ s) t m pp [] g"
  shows "advances json pre (s @ t) m pp k (g \<circ> f)"
  unfolding advances_def
proof (intro allI impI)
  fix stk ns assume "on_path m pp stk"
  from advancesE[OF assms(1) this, of ns] obtain stk1 where 1: "on_path m pp stk1"
    "parse_loop json (pst (length pre) (length pp) k stk ns) =
      parse_loop json (pst (length pre + length s) (length pp) [] stk1 (f ns))" .
  from advancesE[OF assms(2) 1(1), of "f ns"] 1(2)
  show "\<exists>stk'. on_path m pp stk' \<and> parse_loop json (pst (length pre) (length pp) k stk ns) =
      parse_loop json (pst (length pre + length (s @ t)) (length pp) [] stk' ((g \<circ> f) ns))"
    by (metis add.assoc comp_apply length_append)
qed

lemma advances_Nil: "advances json pre [] m pp [] id"
  by (auto simp: advances_def)

lemma advances_skip:
  "json = pre @ c # rest \<Longrightarrow> c = CHR '','' \<or> c = CHR '':'' \<or> c = CHR '']'' \<Longrightarrow>
    advances json pre [c] m pp [] id"
  using parse_skip[of json pre c rest] by (auto simp: advances_def)

lemma advances_commas:
  assumes "length fs = length ts"
    and "\<And>i pre post. i < length ts \<Longrightarrow> json = pre @ ts ! i @ post \<Longrightarrow> ends_value post \<Longrightarrow>
      advances json pre (ts ! i) m pp [] (fs ! i)"
    and "json = pre @ commas first ts @ post" "ends_value post"
  shows "advances json pre (commas first ts) m pp [] (fold (\<lambda>f. f) fs)"
  using assms
proof (induction fs ts arbitrary: pre first rule: list_induct2)
  case Nil
  then show ?case by (simp add: advances_Nil[unfolded id_def] id_def)
next
  case (Cons f fs t ts)
  let ?sep = "if first then [] else '',''"
  have sep: "advances json pre ?sep m pp [] id"
    using advances_skip[of json pre "CHR '',''" "t @ commas False ts @ post" m pp] Cons.prems(2)
    by (simp add: advances_Nil)
  have "ends_value (commas False ts @ post)"
    using Cons.prems(3) by (cases ts) (simp_all add: ends_value_Cons)
  then have val: "advances json (pre @ ?sep) t m pp [] f"
    using Cons.prems(1)[of 0 "pre @ ?sep" "commas False ts @ post"] Cons.prems(2) by auto
  have rest: "advances json ((pre @ ?sep) @ t) (commas False ts) m pp [] (fold (\<lambda>f. f) fs)"
    by (rule Cons.IH) (use Cons.prems(1)[of "Suc i" for i] Cons.prems(2,3) in auto)
  have "advances json pre (?sep @ t @ commas False ts) m pp [] ((fold (\<lambda>f. f) fs \<circ> f) \<circ> id)"
    by (rule advances_append[OF sep advances_append[OF val rest]])
  then show ?case by (simp add: comp_def)
qed

lemma fold_map_apply: "fold (\<lambda>f. f) (map g xs) = fold g xs"
  by (induction xs) (auto simp: fun_eq_iff)

lemma parse_open_array:
  assumes json: "json = pre @ json_str (JArr js) @ post" and ok: "json_ok (JArr js)"
    and stk: "on_path m pp stk"
  shows "\<exists>stk'. on_path m pp stk' \<and> parse_loop json (pst (length pre) (length pp) k stk ns) =
    parse_loop json (pst (length pre + 1) (length pp) [] stk' (block_to m pp k (json_str (JArr js)) ns))"
proof -
  from capture_block_to[OF stk ok, of js "[]" pre post k ns] obtain stk' where
    "on_path m pp stk'" "capture_structural_value json (pst (length pre) (length pp) k stk ns) =
      pst (length pre) (length pp) k stk' (block_to m pp k (json_str (JArr js)) ns)"
    unfolding json by blast
  then show ?thesis
    using parse_loop_token[of json pre "CHR ''[''" _ "length pp" k stk ns] json
    by (auto simp: parse_token_def Let_def is_json_whitespace_def)
qed

lemma parse_open_object:
  assumes json: "json = pre @ json_str (JObj ms) @ post" and ok: "json_ok (JObj ms)"
    and stk: "on_path m pp stk"
  shows "\<exists>stk'. on_path m (if k = [] then pp else pp @ [k]) stk' \<and>
    parse_loop json (pst (length pre) (length pp) k stk ns) =
    parse_loop json (pst (length pre + 1) (length (if k = [] then pp else pp @ [k])) [] stk'
      (block_to m pp k (json_str (JObj ms)) ns))"
proof -
  from capture_block_to[OF stk ok, of "[]" ms pre post k ns] obtain stk' where stk':
    "on_path m pp stk'" "capture_structural_value json (pst (length pre) (length pp) k stk ns) =
      pst (length pre) (length pp) k stk' (block_to m pp k (json_str (JObj ms)) ns)"
    unfolding json by blast
  have "length stk' = m" using stk'(1) by (simp add: on_path_def)
  with stk' on_path_deeper[OF stk'(1), of k]
    parse_loop_token[of json pre "CHR ''{''" _ "length pp" k stk ns] json
  show ?thesis
    by (auto simp: parse_token_def Let_def is_json_whitespace_def)
qed

text \<open>An array whose elements advance the loop, and an object whose members do.\<close>

lemma parse_array:
  assumes ok: "json_ok (JArr js)" and whole: "json = pre @ json_str (JArr js) @ post"
    and elements: "\<And>i pre' post'. i < length js \<Longrightarrow> json = pre' @ json_str (js ! i) @ post' \<Longrightarrow> ends_value post' \<Longrightarrow>
      advances json pre' (json_str (js ! i)) m pp [] (deliver m pp [] (js ! i))"
  shows "advances json pre (json_str (JArr js)) m pp k (deliver m pp k (JArr js))"
proof -
  let ?ts = "map json_str js" and ?fs = "map (\<lambda>j. deliver m pp [] j) js"
  have json: "json = (pre @ ''['') @ commas True ?ts @ '']'' @ post" using whole by simp
  have items: "advances json pre' (?ts ! i) m pp [] (?fs ! i)"
    if "i < length ?ts" "json = pre' @ ?ts ! i @ post'" "ends_value post'" for i pre' post'
    using that elements[of i pre' post'] by simp
  have body: "advances json (pre @ ''['') (commas True ?ts) m pp [] (fold (\<lambda>f. f) ?fs)"
    by (rule advances_commas[OF _ items json]) (simp_all add: ends_value_Cons)
  have close: "advances json ((pre @ ''['') @ commas True ?ts) '']'' m pp [] id"
    by (rule advances_skip[where rest = post]) (simp_all add: json)
  have inside: "advances json (pre @ ''['') (commas True ?ts @ '']'') m pp [] (fold (\<lambda>j. deliver m pp [] j) js)"
    using advances_append[OF body close] by (simp add: fold_map_apply)
  show ?thesis
    unfolding advances_def
  proof (intro allI impI)
    fix stk ns assume "on_path m pp stk"
    from parse_open_array[OF whole ok this, of k ns] obtain stk1 where 1: "on_path m pp stk1"
      "parse_loop json (pst (length pre) (length pp) k stk ns) = parse_loop json
        (pst (length pre + 1) (length pp) [] stk1 (block_to m pp k (json_str (JArr js)) ns))" by blast
    from advancesE[OF inside 1(1), of "block_to m pp k (json_str (JArr js)) ns"] obtain stk2 where 2:
      "on_path m pp stk2"
      "parse_loop json (pst (length (pre @ ''['')) (length pp) [] stk1 (block_to m pp k (json_str (JArr js)) ns)) =
        parse_loop json (pst (length (pre @ ''['') + length (commas True ?ts @ '']'')) (length pp) [] stk2
          (fold (\<lambda>j. deliver m pp [] j) js (block_to m pp k (json_str (JArr js)) ns)))" .
    then show "\<exists>stk'. on_path m pp stk' \<and> parse_loop json (pst (length pre) (length pp) k stk ns) =
        parse_loop json (pst (length pre + length (json_str (JArr js))) (length pp) [] stk'
          (deliver m pp k (JArr js) ns))"
      using 1(2) by (intro exI[of _ stk2]) simp
  qed
qed

lemma parse_object:
  assumes ok: "json_ok (JObj ms)" and key: "k \<noteq> [] \<or> no_object (JObj ms) \<or> pp = []"
    and whole: "json = pre @ json_str (JObj ms) @ post"
    and members: "\<And>i k' j pre' post'. i < length ms \<Longrightarrow> ms ! i = (k', j) \<Longrightarrow>
      json = pre' @ (quoted k' @ '':'' @ json_str j) @ post' \<Longrightarrow> ends_value post' \<Longrightarrow>
      advances json pre' (quoted k' @ '':'' @ json_str j) m (if k = [] then pp else pp @ [k]) []
        (deliver m (if k = [] then pp else pp @ [k]) (escape k') j)"
  shows "advances json pre (json_str (JObj ms)) m pp k (deliver m pp k (JObj ms))"
proof -
  let ?pp = "if k = [] then pp else pp @ [k]"
  let ?ts = "map (\<lambda>(k, j). quoted k @ '':'' @ json_str j) ms"
    and ?fs = "map (\<lambda>(k', j). deliver m ?pp (escape k') j) ms"
  have json: "json = (pre @ ''{'') @ commas True ?ts @ ''}'' @ post" using whole by simp
  have items: "advances json pre' (?ts ! i) m ?pp [] (?fs ! i)"
    if "i < length ?ts" "json = pre' @ ?ts ! i @ post'" "ends_value post'" for i pre' post'
    using that members[of i "fst (ms ! i)" "snd (ms ! i)" pre' post'] by (simp add: split_beta)
  have body: "advances json (pre @ ''{'') (commas True ?ts) m ?pp [] (fold (\<lambda>f. f) ?fs)"
    by (rule advances_commas[OF _ items json]) (simp_all add: ends_value_Cons)
  have outer: "on_path m pp stk \<and> length ?pp - 1 = length pp" if "on_path m ?pp stk" for stk
    using that key on_path_outer[of m pp k stk] by (auto split: if_splits)
  show ?thesis
    unfolding advances_def
  proof (intro allI impI)
    fix stk ns assume "on_path m pp stk"
    from parse_open_object[OF whole ok this, of k ns] obtain stk1 where 1: "on_path m ?pp stk1"
      "parse_loop json (pst (length pre) (length pp) k stk ns) = parse_loop json
        (pst (length pre + 1) (length ?pp) [] stk1 (block_to m pp k (json_str (JObj ms)) ns))" by blast
    from advancesE[OF body 1(1), of "block_to m pp k (json_str (JObj ms)) ns"] obtain stk2 where 2:
      "on_path m ?pp stk2"
      "parse_loop json (pst (length pre) (length pp) k stk ns) = parse_loop json
        (pst (length pre + 1 + length (commas True ?ts)) (length ?pp) [] stk2 (deliver m pp k (JObj ms) ns))"
      using 1(2) by (auto simp: fold_map_apply)
    have "parse_loop json (pst (length ((pre @ ''{'') @ commas True ?ts)) (length ?pp) [] stk2 ns') =
        parse_loop json (pst (length ((pre @ ''{'') @ commas True ?ts) + 1) (length ?pp - 1) [] stk2 ns')" for ns'
      by (rule parse_close[where rest = post]) (simp add: json)
    then show "\<exists>stk'. on_path m pp stk' \<and> parse_loop json (pst (length pre) (length pp) k stk ns) =
        parse_loop json (pst (length pre + length (json_str (JObj ms))) (length pp) [] stk'
          (deliver m pp k (JObj ms) ns))"
      using outer[OF 2(1)] 2(2) by (intro exI[of _ stk2]) simp
  qed
qed

lemma parse_value:
  "parseable j \<Longrightarrow> k \<noteq> [] \<or> no_object j \<or> pp = [] \<Longrightarrow> json = pre @ json_str j @ post \<Longrightarrow> ends_value post \<Longrightarrow>
    advances json pre (json_str j) m pp k (deliver m pp k j)"
proof (induction j arbitrary: pre post pp k)
  case (JStr s)
  then show ?case using parse_string[of json pre s post m pp] by (simp add: advances_def)
next
  case (JPrim t)
  then show ?case using parse_prim[of json pre t post m pp] by (simp add: advances_def)
next
  case (JArr js)
  show ?case
  proof (rule parse_array[OF parseable_ok[OF JArr.prems(1)] JArr.prems(3)])
    fix i pre' post' assume "i < length js" "json = pre' @ json_str (js ! i) @ post'" "ends_value post'"
    then show "advances json pre' (json_str (js ! i)) m pp [] (deliver m pp [] (js ! i))"
      using JArr.IH[OF nth_mem, of i "[]" pp pre' post'] JArr.prems(1) no_object_parseable[of "js ! i"]
      by (simp add: list_all_length)
  qed
next
  case (JObj ms)
  let ?pp = "if k = [] then pp else pp @ [k]"
  show ?case
  proof (rule parse_object[OF parseable_ok[OF JObj.prems(1)] JObj.prems(2,3)])
    fix i k' j pre' post'
    assume i: "i < length ms" "ms ! i = (k', j)" "json = pre' @ (quoted k' @ '':'' @ json_str j) @ post'" "ends_value post'"
    with JObj.prems(1) have j: "k' \<noteq> []" "parseable j" by (auto simp: list_all_length)
    have "(k', j) \<in> set ms" using i(1,2) by (metis nth_mem)
    moreover have "escape k' \<noteq> []" using j(1) length_escape[of k'] by auto
    ultimately have "advances json (pre' @ quoted k' @ '':'') (json_str j) m ?pp (escape k') (deliver m ?pp (escape k') j)"
      using JObj.IH[of "(k', j)" j "escape k'" ?pp "pre' @ quoted k' @ '':''" post'] j(2) i by simp
    with i(3) parse_key[of json pre' k' "json_str j @ post'"]
    show "advances json pre' (quoted k' @ '':'' @ json_str j) m ?pp [] (deliver m ?pp (escape k') j)"
      by (simp add: advances_def add.assoc)
  qed
qed

text \<open>A whole document is delivered to the bindings.\<close>

lemma parse_json_nodes_deliver:
  assumes "parseable (JObj ms)" "length path_stack = m"
  shows "parse_json_nodes (json_str (JObj ms)) nodes path_stack =
    deliver m [] [] (JObj ms) (map node_reset nodes)"
proof -
  let ?json = "json_str (JObj ms)"
  have "advances ?json [] ?json m [] [] (deliver m [] [] (JObj ms))"
    by (rule parse_value[where post = "[]"]) (use assms(1) in \<open>simp_all add: ends_value_def\<close>)
  moreover have "on_path m [] path_stack" using assms(2) by (simp add: on_path_def)
  ultimately obtain stk' where "parse_loop ?json (pst 0 0 [] path_stack (map node_reset nodes)) =
      parse_loop ?json (pst (length ?json) 0 [] stk' (deliver m [] [] (JObj ms) (map node_reset nodes)))"
    by (fastforce simp: advances_def simp del: json_str.simps deliver.simps)
  moreover have "parse_loop ?json (pst (length ?json) 0 [] stk' ns) = pst (length ?json) 0 [] stk' ns" for ns
    by (subst parse_loop.simps) simp
  ultimately show ?thesis
    by (simp add: parse_json_nodes_def del: json_str.simps deliver.simps)
qed

section \<open>Properties\<close>

text \<open>C9: The pass over the text of a JSON object that contains no object inside of an array and no empty key
  makes exactly the deliveries that the structural recursion over the object prescribes: every scalar and every
  block at its path, in the order of the text, with the key stack bounded by the span it is given.\<close>

theorem parse_delivers:
  assumes "parseable (JObj ms)" "length path_stack = m"
  shows "parse_json_nodes (json_str (JObj ms)) nodes path_stack =
    deliver m [] [] (JObj ms) (map node_reset nodes)"
  by (rule parse_json_nodes_deliver[OF assms])

theorem parse_delivers_witness:
  "parse_json_nodes (json_str (JObj [(''a'', JPrim ''true'')])) [bind_node [''a''] (TBool False)] [[]] =
     [(bind_node [''a''] (TBool True))\<lparr>is_set := True\<rparr>]"
proof -
  have "parseable (JObj [(''a'', JPrim ''true'')])" by (simp add: prim_text_def is_primitive_delim_def)
  from parse_delivers[OF this, of "[[]]" 1 "[bind_node [''a''] (TBool False)]"] show ?thesis
    by (simp add: scalar_to_def block_to_def assign_block_def assign_first_def wants_block_def is_catch_all_def
      bind_node_def node_reset_def matches_parent_prefix assign_def escape_char_def needs_escape_def
      del: json_str.simps)
qed

end
