(* ===== verification/Bindings.thy ===== *)
theory Bindings
  imports Parse_Json
begin

text \<open>
  What one binding receives from a parse: the blocks of the objects along its path and then the
  value at its path, and nothing else.
\<close>

section \<open>The reference\<close>

definition raw_members :: "(bytes \<times> json) list \<Rightarrow> (bytes \<times> json) list" where
  "raw_members ms = map (\<lambda>(k, j). (escape k, j)) ms"

text \<open>\<open>ks\<close> is what remains of the path of the binding below the key \<open>k\<close> of the value.\<close>

fun received :: "path \<Rightarrow> bytes \<Rightarrow> path \<Rightarrow> json \<Rightarrow> parse_node \<Rightarrow> parse_node" where
  "received pp k ks (JStr s) n = assign (pp @ [k]) (escape s) True False n"
| "received pp k ks (JPrim t) n = assign (pp @ [k]) t False (t = ''null'') n"
| "received pp k ks (JArr js) n = assign (pp @ [k]) (json_str (JArr js)) False False n"
| "received pp k [] (JObj ms) n = assign (pp @ [k]) (json_str (JObj ms)) False False n"
| "received pp k (k' # ks) (JObj ms) n =
     (let n' = assign (pp @ [k]) (json_str (JObj ms)) False False n in
      case map_of (raw_members ms) k' of
        None \<Rightarrow> n'
      | Some j \<Rightarrow> received (pp @ [k]) k' ks j n')"

text \<open>No scalar sits at a proper prefix of the path.\<close>

fun admits :: "path \<Rightarrow> json \<Rightarrow> bool" where
  "admits ks (JStr s) = (ks = [])"
| "admits ks (JPrim t) = (ks = [])"
| "admits ks (JArr js) = True"
| "admits [] (JObj ms) = True"
| "admits (k' # ks) (JObj ms) =
     (case map_of (raw_members ms) k' of None \<Rightarrow> True | Some j \<Rightarrow> admits ks j)"

fun json_distinct :: "json \<Rightarrow> bool" where
  "json_distinct (JStr s) = True"
| "json_distinct (JPrim t) = True"
| "json_distinct (JArr js) = True"
| "json_distinct (JObj ms) = (distinct (map fst ms) \<and> list_all (\<lambda>(k, j). json_distinct j) ms)"

section \<open>Single deliveries\<close>

text \<open>What a delivery never changes.\<close>

definition shape :: "parse_node list \<Rightarrow> (path \<times> bool) list" where
  "shape ns = map (\<lambda>n. (pn_path n, is_catch_all n)) ns"

lemma assign_shape [simp]:
  "pn_path (assign p raw str null n) = pn_path n"
  "is_catch_all (assign p raw str null n) = is_catch_all n"
  by (simp_all add: assign_def is_catch_all_def split: node_class.splits)

lemma shape_update [simp]: "shape (ns[i := assign p raw str null (ns ! i)]) = shape ns"
  by (cases "i < length ns") (auto simp: shape_def nth_list_update intro!: nth_equalityI)

lemma shape_assign_first [simp]: "shape (assign_first cur keyed raw str null ns) = shape ns"
  by (simp add: assign_first_def split: option.splits)

lemma shape_map: "(\<And>n. pn_path (f n) = pn_path n \<and> is_catch_all (f n) = is_catch_all n) \<Longrightarrow>
    shape (map f ns) = shape ns"
  by (simp add: shape_def comp_def)

lemma shape_assign_block [simp]: "shape (assign_block cur keyed block ns) = shape ns"
  by (auto simp: assign_block_def shape_map split: option.splits)

lemma shape_deliver [simp]: "shape (deliver m pp k j ns) = shape ns"
proof (induction j arbitrary: pp k ns)
  case (JArr js)
  have "shape (fold (\<lambda>j. deliver m pp [] j) js' ns) = shape ns" if "set js' \<subseteq> set js" for js' ns
    using that by (induction js' arbitrary: ns) (auto simp: JArr)
  then show ?case by (simp add: block_to_def)
next
  case (JObj ms)
  have "shape (fold (\<lambda>(k', j). deliver m pp' (escape k') j) ms' ns) = shape ns" if "set ms' \<subseteq> set ms" for ms' pp' ns
    using that
  proof (induction ms' arbitrary: ns)
    case (Cons kj ms')
    obtain k' j' where "kj = (k', j')" by (cases kj)
    with Cons JObj[of kj j'] show ?case by simp
  qed simp
  then show ?case by (simp add: block_to_def)
qed (simp_all add: scalar_to_def)

lemma shape_length: "shape ns = shape ns' \<Longrightarrow> length ns = length ns'"
  by (metis length_map shape_def)

lemma shape_nth: "shape ns = shape ns' \<Longrightarrow> i < length ns \<Longrightarrow>
    pn_path (ns ! i) = pn_path (ns' ! i) \<and> is_catch_all (ns ! i) = is_catch_all (ns' ! i)"
  using shape_length[of ns ns'] by (metis (mono_tags, lifting) Pair_inject nth_map shape_def)

lemma find_binding_result:
  "find_binding cur keyed ns idx ca = Some r \<Longrightarrow> ca = Some r \<or>
    (\<exists>i<length ns. r = idx + i \<and> (is_catch_all (ns ! i) \<or> prefix cur (pn_path (ns ! i))))"
proof (induction ns arbitrary: idx ca)
  case (Cons n ns)
  show ?case
  proof (cases "\<not> is_catch_all n \<and> prefix cur (pn_path n)")
    case True
    with Cons.prems show ?thesis by (auto simp: matches_parent_prefix intro!: exI[of _ 0])
  next
    case False
    then have "find_binding cur keyed ns (idx + 1) (if is_catch_all n \<and> keyed then Some idx else ca) = Some r"
      using Cons.prems by (auto simp: matches_parent_prefix split: if_splits)
    from Cons.IH[OF this] consider "(if is_catch_all n \<and> keyed then Some idx else ca) = Some r"
      | i where "i < length ns" "r = idx + 1 + i" "is_catch_all (ns ! i) \<or> prefix cur (pn_path (ns ! i))"
      by blast
    then show ?thesis
    proof cases
      case 1
      then show ?thesis by (auto split: if_splits intro!: exI[of _ 0])
    next
      case (2 i)
      then show ?thesis by (intro disjI2 exI[of _ "Suc i"]) simp
    qed
  qed
qed simp

lemma find_binding_first:
  "i < length ns \<Longrightarrow> \<not> is_catch_all (ns ! i) \<Longrightarrow> prefix cur (pn_path (ns ! i)) \<Longrightarrow>
    (\<And>i'. i' < i \<Longrightarrow> is_catch_all (ns ! i') \<or> \<not> prefix cur (pn_path (ns ! i'))) \<Longrightarrow>
    find_binding cur keyed ns idx ca = Some (idx + i)"
proof (induction ns arbitrary: idx ca i)
  case (Cons n ns)
  show ?case
  proof (cases i)
    case 0
    with Cons.prems show ?thesis by (simp add: matches_parent_prefix)
  next
    case (Suc i')
    have "is_catch_all n \<or> \<not> prefix cur (pn_path n)" using Cons.prems(4)[of 0] Suc by simp
    moreover have "find_binding cur keyed ns (idx + 1) ca' = Some (idx + 1 + i')" for ca'
      by (rule Cons.IH) (use Cons.prems(1-3) Cons.prems(4)[of "Suc _"] Suc in auto)
    ultimately show ?thesis using Suc by (auto simp: matches_parent_prefix)
  qed
qed simp

lemma last_catch_all_result:
  "last_catch_all keyed ns idx ca = Some r \<Longrightarrow> ca = Some r \<or>
    (\<exists>i<length ns. r = idx + i \<and> is_catch_all (ns ! i))"
proof (induction ns arbitrary: idx ca)
  case (Cons n ns)
  then have "last_catch_all keyed ns (idx + 1) (if is_catch_all n \<and> keyed then Some idx else ca) = Some r"
    by simp
  from Cons.IH[OF this] consider "(if is_catch_all n \<and> keyed then Some idx else ca) = Some r"
    | i where "i < length ns" "r = idx + 1 + i" "is_catch_all (ns ! i)"
    by blast
  then show ?case
  proof cases
    case 1
    then show ?thesis by (auto split: if_splits intro!: exI[of _ 0])
  next
    case (2 i)
    then show ?thesis by (intro disjI2 exI[of _ "Suc i"]) simp
  qed
qed simp

lemma assign_first_other:
  assumes "i < length ns" "\<not> is_catch_all (ns ! i)" "\<not> prefix cur (pn_path (ns ! i))"
  shows "assign_first cur keyed raw str null ns ! i = ns ! i"
proof (cases "find_binding cur keyed ns 0 None")
  case (Some r)
  with find_binding_result[OF Some] assms have "r \<noteq> i" by auto
  with Some show ?thesis by (simp add: assign_first_def)
qed (simp add: assign_first_def)

lemma assign_first_hit:
  assumes "i < length ns" "\<not> is_catch_all (ns ! i)" "prefix cur (pn_path (ns ! i))"
    and "\<And>i'. i' < length ns \<Longrightarrow> i' \<noteq> i \<Longrightarrow> is_catch_all (ns ! i') \<or> \<not> prefix cur (pn_path (ns ! i'))"
  shows "assign_first cur keyed raw str null ns ! i = assign cur raw str null (ns ! i)"
proof -
  have "find_binding cur keyed ns 0 None = Some (0 + i)"
    by (rule find_binding_first) (use assms in auto)
  with assms(1) show ?thesis by (simp add: assign_first_def)
qed

lemma assign_block_other:
  assumes "i < length ns" "\<not> is_catch_all (ns ! i)" "\<not> prefix cur (pn_path (ns ! i))"
  shows "assign_block cur keyed block ns ! i = ns ! i"
proof (cases "last_catch_all keyed ns 0 None")
  case None
  with assms show ?thesis by (auto simp: assign_block_def wants_block_def matches_parent_prefix)
next
  case (Some r)
  with last_catch_all_result[OF Some] assms have "r \<noteq> i" by auto
  with Some assms show ?thesis by (auto simp: assign_block_def wants_block_def matches_parent_prefix)
qed

lemma assign_block_hit:
  assumes "i < length ns" "\<not> is_catch_all (ns ! i)" "prefix cur (pn_path (ns ! i))"
  shows "assign_block cur keyed block ns ! i = assign cur block False False (ns ! i)"
proof -
  have w: "wants_block cur (ns ! i)"
    using assms by (simp add: wants_block_def matches_parent_prefix)
  moreover from this assms(1) have "list_ex (wants_block cur) ns" by (auto simp: list_ex_iff)
  ultimately show ?thesis using assms(1) by (simp add: assign_block_def)
qed

section \<open>Deliveries to one binding\<close>

text \<open>The binding at position \<open>i\<close>: not a catch-all, no empty keys in its path, which no other
  binding extends and which the path stack can hold.\<close>

definition alone :: "nat \<Rightarrow> parse_node list \<Rightarrow> nat \<Rightarrow> bool" where
  "alone m ns i \<longleftrightarrow> i < length ns \<and> \<not> is_catch_all (ns ! i) \<and> [] \<notin> set (pn_path (ns ! i))
     \<and> length (pn_path (ns ! i)) \<le> m
     \<and> (\<forall>i'<length ns. i' \<noteq> i \<longrightarrow> is_catch_all (ns ! i') \<or> \<not> prefix (pn_path (ns ! i)) (pn_path (ns ! i')))"

lemma alone_shape: "shape ns = shape ns' \<Longrightarrow> alone m ns i \<Longrightarrow> alone m ns' i"
  using shape_length[of ns ns'] shape_nth[of ns ns'] unfolding alone_def by metis

lemma prefix_snoc_empty: "prefix (pp @ [k]) p \<Longrightarrow> [] \<notin> set p \<Longrightarrow> k \<noteq> []"
  by (auto simp: prefix_def)

lemma scalar_to_other: "alone m ns i \<Longrightarrow> \<not> prefix (pp @ [k]) (pn_path (ns ! i)) \<Longrightarrow>
    scalar_to m pp k raw str null ns ! i = ns ! i"
  by (simp add: scalar_to_def alone_def assign_first_other)

lemma block_to_other: "alone m ns i \<Longrightarrow> \<not> prefix (pp @ [k]) (pn_path (ns ! i)) \<Longrightarrow>
    block_to m pp k block ns ! i = ns ! i"
  by (simp add: block_to_def alone_def assign_block_other)

lemma block_to_hit:
  assumes "alone m ns i" "prefix (pp @ [k]) (pn_path (ns ! i))"
  shows "block_to m pp k block ns ! i = assign (pp @ [k]) block False False (ns ! i)"
proof -
  have "length pp < m" using assms prefix_length_le[OF assms(2)] by (simp add: alone_def)
  with assms show ?thesis by (simp add: block_to_def alone_def assign_block_hit)
qed

lemma scalar_to_hit:
  assumes "alone m ns i" "pn_path (ns ! i) = pp @ [k]"
  shows "scalar_to m pp k raw str null ns ! i = assign (pp @ [k]) raw str null (ns ! i)"
proof -
  have "length pp < m" using assms by (simp add: alone_def)
  moreover have "assign_first (pp @ [k]) (k \<noteq> []) raw str null ns ! i = assign (pp @ [k]) raw str null (ns ! i)"
    by (rule assign_first_hit) (use assms in \<open>auto simp: alone_def\<close>)
  ultimately show ?thesis by (simp add: scalar_to_def)
qed

lemma shape_block_to [simp]: "shape (block_to m pp k block ns) = shape ns"
  by (simp add: block_to_def)

text \<open>A sequence of deliveries that all miss the binding.\<close>

lemma fold_other:
  assumes "\<And>x ns. x \<in> set xs \<Longrightarrow> shape ns = shape ns0 \<Longrightarrow> f x ns ! i = ns ! i"
    and "\<And>x ns. shape (f x ns) = shape ns" "shape ns = shape ns0"
  shows "fold f xs ns ! i = ns ! i \<and> shape (fold f xs ns) = shape ns"
  using assms
proof (induction xs arbitrary: ns)
  case (Cons x xs)
  have "fold f xs (f x ns) ! i = f x ns ! i \<and> shape (fold f xs (f x ns)) = shape (f x ns)"
    by (rule Cons.IH) (use Cons.prems in auto)
  with Cons.prems(1)[of x ns] Cons.prems(2,3) show ?case by simp
qed simp

lemma deliver_other:
  "parseable j \<Longrightarrow> k \<noteq> [] \<or> no_object j \<Longrightarrow> alone m ns i \<Longrightarrow>
    \<not> prefix (pp @ [k]) (pn_path (ns ! i)) \<Longrightarrow> deliver m pp k j ns ! i = ns ! i"
proof (induction j arbitrary: pp k ns)
  case (JArr js)
  let ?ns = "block_to m pp k (json_str (JArr js)) ns"
  have al: "alone m ns' i" "\<not> prefix (pp @ [[]]) (pn_path (ns' ! i))" if "shape ns' = shape ?ns" for ns'
  proof -
    show *: "alone m ns' i" using that JArr.prems(3) alone_shape[of ns ns'] by simp
    then show "\<not> prefix (pp @ [[]]) (pn_path (ns' ! i))"
      using prefix_snoc_empty[of pp "[]"] by (auto simp: alone_def)
  qed
  have "fold (\<lambda>j. deliver m pp [] j) js ?ns ! i = ?ns ! i \<and>
      shape (fold (\<lambda>j. deliver m pp [] j) js ?ns) = shape ?ns"
    by (rule fold_other[where ns0 = ?ns])
      (use JArr.IH JArr.prems(1) al no_object_parseable in \<open>auto simp: list_all_iff\<close>)
  then show ?case using block_to_other[OF JArr.prems(3,4)] by simp
next
  case (JObj ms)
  then have k: "k \<noteq> []" by simp
  let ?ns = "block_to m pp k (json_str (JObj ms)) ns"
  have al: "alone m ns' i" "\<not> prefix ((pp @ [k]) @ [k']) (pn_path (ns' ! i))"
    if "shape ns' = shape ?ns" for ns' k'
  proof -
    show "alone m ns' i" using that JObj.prems(3) alone_shape[of ns ns'] by simp
    have "pn_path (ns' ! i) = pn_path (ns ! i)"
      using that shape_nth[of ns ns' i] JObj.prems(3) by (simp add: alone_def)
    then show "\<not> prefix ((pp @ [k]) @ [k']) (pn_path (ns' ! i))"
      using JObj.prems(4) append_prefixD[of "pp @ [k]" "[k']"] by metis
  qed
  let ?f = "\<lambda>(k', j). deliver m (pp @ [k]) (escape k') j"
  have step: "?f x ns' ! i = ns' ! i" if x: "x \<in> set ms" and ns': "shape ns' = shape ?ns" for x ns'
  proof -
    obtain k' j where kj: "x = (k', j)" by (cases x)
    have "k' \<noteq> []" "parseable j" using JObj.prems(1) x kj by (auto simp: list_all_iff)
    moreover from this have "escape k' \<noteq> []" using length_escape[of k'] by auto
    ultimately show ?thesis
      using JObj.IH[OF x, of j "escape k'" ns' "pp @ [k]"] al[OF ns'] kj by simp
  qed
  have "fold ?f ms ?ns ! i = ?ns ! i \<and> shape (fold ?f ms ?ns) = shape ?ns"
    by (rule fold_other[OF step]) (auto split: prod.splits)
  then show ?case using block_to_other[OF JObj.prems(3,4)] k by simp
qed (simp_all add: scalar_to_other)

lemma escape_inject: "escape s = escape t \<longleftrightarrow> s = t"
proof
  assume "escape s = escape t"
  moreover have "decode_json_string (escape u) (replicate (length (escape u)) ch_nul) =
      (u @ replicate (length (escape u) - length u) ch_nul, length u)" for u
    using decode_escape[of u "replicate (length (escape u)) ch_nul"] length_escape[of u] by simp
  ultimately show "s = t" by (metis append_eq_conv_conj fst_conv snd_conv)
qed simp

text \<open>The members of an object, for a binding with the path \<open>pp @ k' # ks\<close> or \<open>pp\<close>.\<close>

abbreviation members_to :: "nat \<Rightarrow> path \<Rightarrow> (bytes \<times> json) list \<Rightarrow> parse_node list \<Rightarrow> parse_node list" where
  "members_to m pp ms ns \<equiv> fold (\<lambda>(k', j). deliver m pp (escape k') j) ms ns"

lemma members_other:
  assumes "\<And>k' j. (k', j) \<in> set ms \<Longrightarrow> k' \<noteq> [] \<and> parseable j \<and>
      \<not> prefix (pp @ [escape k']) (pn_path (ns ! i))"
    and "alone m ns i"
  shows "members_to m pp ms ns ! i = ns ! i" "shape (members_to m pp ms ns) = shape ns"
proof -
  let ?f = "\<lambda>(k', j). deliver m pp (escape k') j"
  have step: "?f x ns' ! i = ns' ! i" if x: "x \<in> set ms" and ns': "shape ns' = shape ns" for x ns'
  proof -
    obtain k' j where kj: "x = (k', j)" by (cases x)
    have "escape k' \<noteq> []" using assms(1)[of k' j] x kj length_escape[of k'] by auto
    moreover have "alone m ns' i" using ns' alone_shape[of ns ns'] assms(2) by simp
    moreover have "pn_path (ns' ! i) = pn_path (ns ! i)"
      using ns' shape_nth[of ns ns' i] assms(2) by (simp add: alone_def)
    ultimately show ?thesis
      using assms(1)[of k' j] x kj deliver_other[of j "escape k'" m ns' i pp] by simp
  qed
  have "fold ?f ms ns ! i = ns ! i \<and> shape (fold ?f ms ns) = shape ns"
    by (rule fold_other[OF step]) (auto split: prod.splits)
  then show "members_to m pp ms ns ! i = ns ! i" "shape (members_to m pp ms ns) = shape ns"
    by simp_all
qed

lemma members_hit:
  assumes one: "\<And>ns. alone m ns i \<Longrightarrow> pn_path (ns ! i) = pp @ escape k # ks \<Longrightarrow>
      deliver m pp (escape k) j ns ! i = received pp (escape k) ks j (ns ! i)"
    and ok: "\<And>k' j'. (k', j') \<in> set a \<union> set b \<Longrightarrow> k' \<noteq> [] \<and> parseable j' \<and> k' \<noteq> k"
    and al: "alone m ns i" and path: "pn_path (ns ! i) = pp @ escape k # ks"
  shows "members_to m pp (a @ (k, j) # b) ns ! i = received pp (escape k) ks j (ns ! i)"
proof -
  have misses: "k' \<noteq> [] \<and> parseable j' \<and> \<not> prefix (pp @ [escape k']) (pn_path n)"
    if "(k', j') \<in> set a \<union> set b" "pn_path n = pn_path (ns ! i)" for k' j' n
    using ok[OF that(1)] that(2) by (simp add: path escape_inject)
  let ?n1 = "members_to m pp a ns"
  let ?n2 = "deliver m pp (escape k) j ?n1"
  have n1: "?n1 ! i = ns ! i" "shape ?n1 = shape ns"
    by (rule members_other[OF _ al]; use misses in blast)+
  have al1: "alone m ?n1 i" using alone_shape[OF n1(2)[symmetric] al] .
  have n2: "?n2 ! i = received pp (escape k) ks j (ns ! i)" using one[OF al1] n1(1) path by simp
  have "pn_path (?n2 ! i) = pn_path (ns ! i)"
    using shape_nth[of ?n2 ns i] n1(2) al shape_length[of ?n2 ns] by (simp add: alone_def)
  moreover have "alone m ?n2 i" by (rule alone_shape[OF _ al1]) simp
  ultimately have "members_to m pp b ?n2 ! i = ?n2 ! i" by (intro members_other(1)) (use misses in blast)+
  with n2 show ?thesis by simp
qed

lemma members_received:
  assumes one: "\<And>k' j ns. (k', j) \<in> set ms \<Longrightarrow> alone m ns i \<Longrightarrow> pn_path (ns ! i) = pp @ escape k' # ks \<Longrightarrow>
      admits ks j \<Longrightarrow> deliver m pp (escape k') j ns ! i = received pp (escape k') ks j (ns ! i)"
    and ok: "\<And>k' j. (k', j) \<in> set ms \<Longrightarrow> k' \<noteq> [] \<and> parseable j" and dist: "distinct (map fst ms)"
    and al: "alone m ns i" and path: "pn_path (ns ! i) = pp @ k # ks"
    and ad: "case map_of (raw_members ms) k of None \<Rightarrow> True | Some j \<Rightarrow> admits ks j"
  shows "members_to m pp ms ns ! i =
    (case map_of (raw_members ms) k of None \<Rightarrow> ns ! i | Some j \<Rightarrow> received pp k ks j (ns ! i))"
proof (cases "map_of (raw_members ms) k")
  case None
  then have "\<not> prefix (pp @ [escape k']) (pn_path (ns ! i))" if "(k', j) \<in> set ms" for k' j
    using that by (force simp: path map_of_eq_None_iff raw_members_def)
  then have "members_to m pp ms ns ! i = ns ! i"
    by (intro members_other(1)[OF _ al]) (use ok in blast)
  with None show ?thesis by simp
next
  case (Some j)
  then have "(k, j) \<in> set (raw_members ms)" by (rule map_of_SomeD)
  then obtain k0 where k0: "k = escape k0" "(k0, j) \<in> set ms" by (auto simp: raw_members_def)
  then obtain a b where ms: "ms = a @ (k0, j) # b" by (meson split_list)
  have others: "k' \<noteq> k0" if "(k', j') \<in> set a \<union> set b" for k' j'
    using that dist by (auto simp: ms dest: in_set_zipE) (metis fst_conv image_eqI)+
  have "members_to m pp ms ns ! i = received pp (escape k0) ks j (ns ! i)"
    unfolding ms by (rule members_hit[OF _ _ al]) (use one[OF k0(2)] ok others path ad Some k0(1) in \<open>auto simp: ms\<close>)
  with Some k0(1) show ?thesis by simp
qed

lemma array_received:
  assumes "parseable (JArr js)" "alone m ns i" "pn_path (ns ! i) = pp @ k # ks" "k \<noteq> []"
  shows "deliver m pp k (JArr js) ns ! i = received pp k ks (JArr js) (ns ! i)"
proof -
  let ?ns = "block_to m pp k (json_str (JArr js)) ns"
  have al: "alone m ns' i" "\<not> prefix (pp @ [[]]) (pn_path (ns' ! i))" if "shape ns' = shape ?ns" for ns'
  proof -
    show *: "alone m ns' i" using that assms(2) alone_shape[of ns ns'] by simp
    then show "\<not> prefix (pp @ [[]]) (pn_path (ns' ! i))"
      using prefix_snoc_empty[of pp "[]"] by (auto simp: alone_def)
  qed
  have "fold (\<lambda>j. deliver m pp [] j) js ?ns ! i = ?ns ! i \<and>
      shape (fold (\<lambda>j. deliver m pp [] j) js ?ns) = shape ?ns"
    by (rule fold_other[where ns0 = ?ns])
      (use assms(1) al no_object_parseable deliver_other in \<open>auto simp: list_all_iff\<close>)
  then show ?thesis using block_to_hit[OF assms(2), of pp k] assms(3) by simp
qed

lemma object_received:
  assumes IH: "\<And>k' j ns. (k', j) \<in> set ms \<Longrightarrow> parseable j \<Longrightarrow> json_distinct j \<Longrightarrow> admits (tl ks) j \<Longrightarrow> escape k' \<noteq> [] \<Longrightarrow>
      alone m ns i \<Longrightarrow> pn_path (ns ! i) = pp @ k # escape k' # tl ks \<Longrightarrow>
      deliver m (pp @ [k]) (escape k') j ns ! i = received (pp @ [k]) (escape k') (tl ks) j (ns ! i)"
    and j: "parseable (JObj ms)" "json_distinct (JObj ms)" "admits ks (JObj ms)" and k: "k \<noteq> []"
    and al0: "alone m ns i" and path: "pn_path (ns ! i) = pp @ k # ks"
  shows "deliver m pp k (JObj ms) ns ! i = received pp k ks (JObj ms) (ns ! i)"
proof -
  let ?ns = "block_to m pp k (json_str (JObj ms)) ns" and ?pp = "pp @ [k]"
  have hit: "?ns ! i = assign ?pp (json_str (JObj ms)) False False (ns ! i)"
    using block_to_hit[OF al0, of pp k] path by simp
  have al: "alone m ?ns i" by (rule alone_shape[OF _ al0]) simp
  have ok: "k' \<noteq> [] \<and> parseable j" if "(k', j) \<in> set ms" for k' j
    using j(1) that by (auto simp: list_all_iff)
  show ?thesis
  proof (cases ks)
    case Nil
    have "members_to m ?pp ms ?ns ! i = ?ns ! i"
      by (rule members_other(1)[OF _ al]) (use ok path Nil hit in auto)
    with Nil hit k show ?thesis by simp
  next
    case (Cons k1 ks1)
    have one: "deliver m ?pp (escape k') j ns' ! i = received ?pp (escape k') ks1 j (ns' ! i)"
      if "(k', j) \<in> set ms" "alone m ns' i" "pn_path (ns' ! i) = ?pp @ escape k' # ks1" "admits ks1 j" for k' j ns'
    proof -
      have "json_distinct j" "escape k' \<noteq> []"
        using j(2) that(1) ok[OF that(1)] length_escape[of k'] by (auto simp: list_all_iff)
      with IH[OF that(1), of ns'] that ok[OF that(1)] Cons show ?thesis by simp
    qed
    have "members_to m ?pp ms ?ns ! i =
        (case map_of (raw_members ms) k1 of None \<Rightarrow> ?ns ! i | Some j \<Rightarrow> received ?pp k1 ks1 j (?ns ! i))"
      by (rule members_received[OF one _ _ al]) (use ok j path Cons hit in auto)
    with Cons hit k show ?thesis by (simp add: Let_def split: option.splits)
  qed
qed

lemma deliver_received:
  "parseable j \<Longrightarrow> json_distinct j \<Longrightarrow> admits ks j \<Longrightarrow> k \<noteq> [] \<Longrightarrow> alone m ns i \<Longrightarrow>
    pn_path (ns ! i) = pp @ k # ks \<Longrightarrow> deliver m pp k j ns ! i = received pp k ks j (ns ! i)"
proof (induction j arbitrary: pp k ks ns)
  case (JArr js)
  then show ?case by (intro array_received)
next
  case (JObj ms)
  show ?case
  proof (rule object_received[OF _ JObj.prems])
    fix k' j ns
    assume "(k', j) \<in> set ms" "parseable j" "json_distinct j" "admits (tl ks) j" "escape k' \<noteq> []" "alone m ns i"
      "pn_path (ns ! i) = pp @ k # escape k' # tl ks"
    then show "deliver m (pp @ [k]) (escape k') j ns ! i = received (pp @ [k]) (escape k') (tl ks) j (ns ! i)"
      using JObj.IH[of "(k', j)" j "tl ks" "escape k'" ns "pp @ [k]"] by simp
  qed
qed (simp_all add: scalar_to_hit)

text \<open>What a binding has after a parse.\<close>

lemma shape_reset [simp]: "shape (map node_reset ns) = shape ns"
  by (rule shape_map) (simp add: node_reset_def is_catch_all_def)

lemma parser_receives:
  assumes ok: "parseable (JObj ms)" "json_distinct (JObj ms)"
    and al: "alone (max_path_depth nodes) nodes i" and path: "pn_path (nodes ! i) = k # ks"
    and ad: "case map_of (raw_members ms) k of None \<Rightarrow> True | Some j \<Rightarrow> admits ks j"
  shows "parser_parse (json_str (JObj ms)) nodes ! i =
    (case map_of (raw_members ms) k of
       None \<Rightarrow> node_reset (nodes ! i)
     | Some j \<Rightarrow> received [] k ks j (node_reset (nodes ! i)))"
proof -
  let ?m = "max_path_depth nodes" and ?ns = "map node_reset nodes"
  let ?n1 = "block_to ?m [] [] (json_str (JObj ms)) ?ns"
  have al0: "alone ?m ?ns i" by (rule alone_shape[OF _ al]) simp
  have path0: "?ns ! i = node_reset (nodes ! i)" "pn_path (?ns ! i) = k # ks"
    using al path by (simp_all add: alone_def node_reset_def)
  have "k \<noteq> []" using al path by (auto simp: alone_def)
  then have "\<not> prefix ([] @ [[]]) (pn_path (?ns ! i))" using path0(2) by simp
  from block_to_other[OF al0 this] have n1: "?n1 ! i = node_reset (nodes ! i)"
    using path0(1) by simp
  have "members_to ?m [] ms ?n1 ! i =
      (case map_of (raw_members ms) k of None \<Rightarrow> ?n1 ! i | Some j \<Rightarrow> received [] k ks j (?n1 ! i))"
  proof (rule members_received)
    show "alone ?m ?n1 i" by (rule alone_shape[OF _ al0]) simp
    show "pn_path (?n1 ! i) = [] @ k # ks" using n1 path0 by simp
    show "deliver ?m [] (escape k') j ns' ! i = received [] (escape k') ks j (ns' ! i)"
      if "(k', j) \<in> set ms" "alone ?m ns' i" "pn_path (ns' ! i) = [] @ escape k' # ks" "admits ks j" for k' j ns'
    proof (rule deliver_received)
      show "escape k' \<noteq> []" using ok(1) that(1) length_escape[of k'] by (auto simp: list_all_iff)
    qed (use ok that in \<open>auto simp: list_all_iff\<close>)
  qed (use ok ad in \<open>auto simp: list_all_iff\<close>)
  moreover have "parser_parse (json_str (JObj ms)) nodes = members_to ?m [] ms ?n1"
    using parse_json_nodes_deliver[OF ok(1), of "replicate ?m []" ?m nodes]
    by (simp add: parser_parse_def del: json_str.simps)
  ultimately show ?thesis by (simp only: n1)
qed

section \<open>Arbitrary text\<close>

text \<open>\<open>view_of\<close> is the text that a node which has been set refers to, when it refers to any.\<close>

definition view_of :: "parse_node \<Rightarrow> bytes option" where
  "view_of n =
     (if \<not> is_set n then None
      else case pn_class n of
        BindNode (TView v) \<Rightarrow> Some v
      | BindNode _ \<Rightarrow> None
      | DynamicNode d \<Rightarrow> Some (raw_val d)
      | UnknownBindNode d calls \<Rightarrow> Some (raw_val d))"

definition views_into :: "bytes \<Rightarrow> parse_node list \<Rightarrow> bool" where
  "views_into json ns \<longleftrightarrow> (\<forall>n\<in>set ns. \<forall>v. view_of n = Some v \<longrightarrow> sublist v json)"

lemma sublist_substr: "sublist (substr s p n) s"
  unfolding substr_def sublist_def by (metis append_take_drop_id)

lemma coerce_view: "coerce_value raw null t = TView v \<Longrightarrow> v = raw \<or> v = []"
  by (cases t) (auto split: if_splits prod.splits)

lemma view_assign:
  "sublist raw json \<Longrightarrow> view_of (assign p raw str null n) = Some v \<Longrightarrow> sublist v json"
  by (auto simp: view_of_def assign_def dynamic_assign_def split: node_class.splits target.splits if_splits
    dest!: coerce_view)

lemma views_update: "views_into json ns \<Longrightarrow> sublist raw json \<Longrightarrow>
    views_into json (ns[j := assign p raw str null (ns ! j)])"
  unfolding views_into_def by (metis in_set_conv_nth length_list_update nth_list_update_eq nth_list_update_neq view_assign)

lemma views_assign_first: "views_into json ns \<Longrightarrow> sublist raw json \<Longrightarrow>
    views_into json (assign_first cur keyed raw str null ns)"
  by (simp add: assign_first_def views_update split: option.splits)

lemma views_assign_block: "views_into json ns \<Longrightarrow> sublist block json \<Longrightarrow>
    views_into json (assign_block cur keyed block ns)"
  by (auto simp: assign_block_def views_update split: option.splits)
    (auto simp: views_into_def dest: view_assign)

text \<open>What every round of the pass keeps, on any text.\<close>

lemma bind_scalar_keeps:
  assumes "sublist raw json" "views_into json (ps_nodes st)"
  shows "views_into json (ps_nodes (bind_scalar raw str null st)) \<and>
    shape (ps_nodes (bind_scalar raw str null st)) = shape (ps_nodes st)"
  using assms by (simp add: bind_scalar_def views_assign_first Let_def)

lemma capture_keeps:
  assumes "views_into json (ps_nodes st)"
  shows "views_into json (ps_nodes (capture_structural_value json st)) \<and>
    shape (ps_nodes (capture_structural_value json st)) = shape (ps_nodes st)"
  using assms by (simp add: capture_structural_value_def views_assign_block sublist_substr Let_def)

lemma parse_token_keeps:
  assumes "views_into json (ps_nodes st)"
  shows "views_into json (ps_nodes (parse_token json st)) \<and>
    shape (ps_nodes (parse_token json st)) = shape (ps_nodes st)"
  using assms bind_scalar_keeps[OF sublist_substr] capture_keeps
  by (simp add: parse_token_def Let_def)

lemma parse_loop_keeps:
  "views_into json (ps_nodes st) \<Longrightarrow>
    views_into json (ps_nodes (parse_loop json st)) \<and> shape (ps_nodes (parse_loop json st)) = shape (ps_nodes st)"
proof (induction json st rule: parse_loop.induct)
  case (1 json st)
  show ?case
    using 1 parse_token_keeps[of json "st\<lparr>ps_i := skip_ws json (ps_i st)\<rparr>"]
    by (subst (1 2) parse_loop.simps) (auto simp: Let_def)
qed

section \<open>Properties\<close>

text \<open>C12: On arbitrary bytes a parse returns, keeps the number, the paths and the kinds of the bindings,
  and whatever a \<open>string_view\<close> target, a dynamic node or a catch-all refers to afterwards is a
  contiguous slice of the text.\<close>

theorem parse_any_text:
  "views_into json (parser_parse json nodes) \<and> shape (parser_parse json nodes) = shape nodes"
proof -
  have "views_into json (map node_reset nodes)"
    by (auto simp: views_into_def view_of_def node_reset_def)
  then show ?thesis
    using parse_loop_keeps by (simp add: parser_parse_def parse_json_nodes_def)
qed

text \<open>C10: Isolation of bindings: a parse of the text of an object without duplicate or empty keys and without
  objects inside of arrays leaves a binding whose path is not empty, has no empty key and is within the depth, when
  no other binding is at or below its path and the object has no scalar at a proper prefix of its path, with
  everything the values along its own path deliver to it, in order, and nothing else. Bindings elsewhere, catch-alls
  included, make no difference.\<close>

theorem binding_isolated:
  assumes "parseable (JObj ms)" "json_distinct (JObj ms)"
    and "alone (max_path_depth nodes) nodes i" "pn_path (nodes ! i) = k # ks"
    and "case map_of (raw_members ms) k of None \<Rightarrow> True | Some j \<Rightarrow> admits ks j"
  shows "parser_parse (json_str (JObj ms)) nodes ! i =
    (case map_of (raw_members ms) k of
       None \<Rightarrow> node_reset (nodes ! i)
     | Some j \<Rightarrow> received [] k ks j (node_reset (nodes ! i)))"
  by (rule parser_receives[OF assms])

theorem binding_isolated_witness:
  "pn_class (parser_parse (json_str (JObj [(''a'', JPrim ''5''), (''b'', JStr ''x'')]))
     [bind_node [''a''] (TInt (Signed 32) 0), bind_node [''b''] (TString [])] ! 0) = BindNode (TInt (Signed 32) 5)"
proof -
  let ?nodes = "[bind_node [''a''] (TInt (Signed 32) 0), bind_node [''b''] (TString [])]"
  have e: "escape ''a'' = ''a''" "escape ''b'' = ''b''" by (simp_all add: escape_char_def needs_escape_def)
  have al: "alone (max_path_depth ?nodes) ?nodes 0"
    by (auto simp: alone_def bind_node_def is_catch_all_def max_path_depth_def less_Suc_eq)
  have "parser_parse (json_str (JObj [(''a'', JPrim ''5''), (''b'', JStr ''x'')])) ?nodes ! 0 =
      received [] ''a'' [] (JPrim ''5'') (node_reset (?nodes ! 0))"
    using binding_isolated[OF _ _ al, of "[(''a'', JPrim ''5''), (''b'', JStr ''x'')]" "''a''" "[]"] e
    by (simp add: raw_members_def prim_text_def is_primitive_delim_def bind_node_def del: json_str.simps escape_Cons)
  then show ?thesis
    by (simp add: assign_def node_reset_def bind_node_def coerce_int_def from_chars_int_def is_digit_def dec_value_def
      del: json_str.simps)
qed

text \<open>\<open>matches_parent\<close> lets a binding match at every proper prefix of its path: a binding of
  \<open>path("a", "b")\<close> is set from the scalar \<open>{"a":5}\<close> and from the whole block of \<open>a\<close>, where the
  path \<open>a.b\<close> does not occur.\<close>

theorem binding_set_from_prefix:
  "parser_parse (json_str (JObj [(''a'', JPrim ''5'')])) [bind_node [''a'', ''b''] (TInt (Signed 32) 0)] =
     [(bind_node [''a'', ''b''] (TInt (Signed 32) 5))\<lparr>is_set := True\<rparr>]"
  by code_simp

text \<open>After an object inside of an array, whose opening brace has no key and so does not enter a
  level, the closing brace leaves one: the next key of the enclosing object is reported at the wrong
  path, here \<open>y\<close> of \<open>{"o":{"x":[{"z":1}],"y":2}}\<close> at the top level.\<close>

theorem array_object_depth_lost:
  "pn_class (parser_parse
     (json_str (JObj [(''o'', JObj [(''x'', JArr [JObj [(''z'', JPrim ''1'')]]), (''y'', JPrim ''2'')])]))
     [bind_node [''y''] (TInt (Signed 32) 0), bind_node [''o'', ''x'', ''q''] (TBool False)] ! 0) =
   BindNode (TInt (Signed 32) 2)"
  by code_simp

end
