(* ===== verification/Round_Trip.thy ===== *)
theory Round_Trip
  imports Bindings
begin

text \<open>
  Emission followed by parsing: a binding at the path of a node reads the value that the node
  wrote.
\<close>

section \<open>Reading a tree\<close>

fun json_at :: "json \<Rightarrow> path \<Rightarrow> json option" where
  "json_at j [] = Some j"
| "json_at (JObj ms) (k # ks) = (case map_of ms k of None \<Rightarrow> None | Some j \<Rightarrow> json_at j ks)"
| "json_at j (k # ks) = None"

lemma map_of_raw: "map_of (raw_members ms) (escape k) = map_of ms k"
  by (induction ms) (auto simp: raw_members_def escape_inject)

lemma json_at_admits: "json_at j ks = Some v \<Longrightarrow> admits (map escape ks) j"
proof (induction j ks rule: json_at.induct)
  case (1 j)
  then show ?case by (cases j) auto
next
  case (2 ms k ks)
  then show ?case by (auto simp: map_of_raw split: option.splits)
qed auto

lemma json_at_tree: "lookup ms p = Some j \<Longrightarrow> json_at (tree_json (Branch ms)) p = Some j"
proof (induction ms p rule: lookup.induct)
  case (2 ms k ks)
  obtain t where t: "map_of ms k = Some t" "t = Leaf j \<and> ks = [] \<or> (\<exists>ms'. t = Branch ms' \<and> lookup ms' ks = Some j)"
    using "2.prems" by (auto split: option.splits jtree.splits if_splits)
  have "map_of (map (\<lambda>(k, t). (k, tree_json t)) ms) k = Some (tree_json t)"
    using t(1) by (simp add: map_of_map)
  moreover have "json_at (tree_json t) ks = Some j"
    using t "2.IH"[OF t(1)] by auto
  ultimately show ?case by simp
qed simp

text \<open>Blocks that have been delivered before the value.\<close>

inductive blocked :: "parse_node \<Rightarrow> parse_node \<Rightarrow> bool" where
  none: "blocked n n"
| block: "blocked n n' \<Longrightarrow> blocked n (assign p (CHR ''{'' # s) False False n')"

lemma blocked_first: "blocked (assign p (CHR ''{'' # s) False False n) n' \<Longrightarrow> blocked n n'"
  by (induction "assign p (CHR ''{'' # s) False False n" n' rule: blocked.induct)
    (auto intro: blocked.intros)

lemma received_at:
  "json_at j ks = Some v \<Longrightarrow>
    \<exists>pp' k' n'. blocked n n' \<and> received pp k (map escape ks) j n = received pp' k' [] v n'"
proof (induction ks arbitrary: j pp k n)
  case Nil
  then show ?case by (auto intro: blocked.intros)
next
  case (Cons k1 ks)
  then obtain ms j' where j: "j = JObj ms" "map_of ms k1 = Some j'" "json_at j' ks = Some v"
    by (cases j) (auto split: option.splits)
  from Cons.IH[OF j(3), of "assign (pp @ [k]) (json_str (JObj ms)) False False n" "pp @ [k]" "escape k1"]
  show ?case by (auto simp: j map_of_raw Let_def dest!: blocked_first)
qed

text \<open>A block leaves an integer as it is and a target of its type.\<close>

lemma from_chars_block: "from_chars_int ty (CHR ''{'' # s) = None"
  by (simp add: from_chars_int_def is_digit_def split: int_type.splits)

lemma blocked_int: "blocked n n' \<Longrightarrow> pn_class n = BindNode (TInt ty t) \<Longrightarrow> pn_class n' = BindNode (TInt ty t)"
  by (induction rule: blocked.induct) (auto simp: assign_def coerce_int_def from_chars_block)

lemma blocked_string: "blocked n n' \<Longrightarrow> pn_class n = BindNode (TString t) \<Longrightarrow> \<exists>t'. pn_class n' = BindNode (TString t')"
  by (induction rule: blocked.induct) (auto simp: assign_def split: prod.splits)

lemma blocked_bool: "blocked n n' \<Longrightarrow> pn_class n = BindNode (TBool t) \<Longrightarrow> \<exists>t'. pn_class n' = BindNode (TBool t')"
  by (induction rule: blocked.induct) (auto simp: assign_def)

lemma blocked_real: "blocked n n' \<Longrightarrow> pn_class n = BindNode (TReal fmt t) \<Longrightarrow> \<exists>t'. pn_class n' = BindNode (TReal fmt t')"
  by (induction rule: blocked.induct) (auto simp: assign_def)

lemma blocked_dynamic: "blocked n n' \<Longrightarrow> pn_class n = DynamicNode d \<Longrightarrow> \<exists>d'. pn_class n' = DynamicNode d'"
  by (induction rule: blocked.induct) (auto simp: assign_def)

section \<open>Documents\<close>

definition entries :: "jnode list \<Rightarrow> (path \<times> json) list" where
  "entries ns = concat (map entry_json ns)"

text \<open>Documents that the parser reads back: distinct incomparable paths without empty keys, and
  values that it can traverse.\<close>

definition readable :: "jnode list \<Rightarrow> bool" where
  "readable ns \<longleftrightarrow> prefix_free (map fst (entries ns)) \<and>
     list_all (\<lambda>(p, j). [] \<notin> set p \<and> parseable j \<and> json_distinct j) (entries ns)"

fun keys_nonempty :: "'v jtree \<Rightarrow> bool" where
  "keys_nonempty (Leaf v) = True"
| "keys_nonempty (Branch ms) = list_all (\<lambda>(k, t). k \<noteq> [] \<and> keys_nonempty t) ms"

lemma build_keys_nonempty:
  "\<forall>p\<in>fst ` set ns. [] \<notin> set p \<Longrightarrow> keys_nonempty (Branch (build ns))"
proof (induction ns rule: build.induct)
  case (4 k k' ks v ns)
  have "\<forall>p\<in>fst ` set ((k' # ks, v) # below k ns). [] \<notin> set p"
    using "4.prems" by (fastforce simp: below_def dest: list.set_sel(2))
  moreover have "\<forall>p\<in>fst ` set (beside k ns). [] \<notin> set p"
    using "4.prems" by (auto simp: beside_def)
  moreover have "k \<noteq> []" using "4.prems" by auto
  ultimately show ?case using "4.IH" by simp
qed auto

lemma tree_parseable:
  "keys_nonempty t \<Longrightarrow> \<forall>j\<in>set_jtree t. parseable j \<Longrightarrow> parseable (tree_json t)"
proof (induction t)
  case (Branch ms)
  then show ?case by (fastforce simp: list_all_iff)
qed simp

lemma tree_distinct:
  "keys_distinct t \<Longrightarrow> \<forall>j\<in>set_jtree t. json_distinct j \<Longrightarrow> json_distinct (tree_json t)"
proof (induction t)
  case (Branch ms)
  have "map fst (map (\<lambda>(k, t). (k, tree_json t)) ms) = map fst ms" by auto
  moreover have "json_distinct (tree_json t)" if "(k, t) \<in> set ms" for k t
    by (rule Branch.IH[OF that]) (use Branch.prems that in \<open>force simp: list_all_iff\<close>)+
  ultimately show ?case using Branch.prems by (auto simp: list_all_iff simp del: map_map)
qed simp

lemma build_leaves: "j \<in> set_jtree (Branch (build ns)) \<Longrightarrow> j \<in> snd ` set ns"
  using build_values by fastforce

lemma readable_document:
  assumes "readable ns"
  shows "parseable (value_json (Doc ns))" "json_distinct (value_json (Doc ns))"
proof -
  have leaves: "parseable j \<and> json_distinct j" if "j \<in> set_jtree (Branch (build (entries ns)))" for j
    using build_leaves[OF that] assms by (auto simp: readable_def list_all_iff)
  have "keys_nonempty (Branch (build (entries ns)))"
    by (rule build_keys_nonempty) (use assms in \<open>auto simp: readable_def list_all_iff\<close>)
  from tree_parseable[OF this] leaves show "parseable (value_json (Doc ns))"
    by (simp add: entries_def del: tree_json.simps)
  have "keys_distinct (Branch (build (entries ns)))"
    using assms by (intro build_distinct) (simp add: readable_def)
  from tree_distinct[OF this] leaves show "json_distinct (value_json (Doc ns))"
    by (simp add: entries_def del: tree_json.simps)
qed

lemma readable_at:
  assumes "readable ns" "(p, j) \<in> set (entries ns)"
  shows "json_at (value_json (Doc ns)) p = Some j"
proof -
  have "map_of (entries ns) p = Some j"
  proof (rule map_of_is_SomeI[OF _ assms(2)])
    have "prefix_free ps \<Longrightarrow> distinct ps" for ps
      by (induction ps) (auto simp: prefix_free_Cons)
    then show "distinct (map fst (entries ns))" using assms(1) by (simp add: readable_def)
  qed
  then have "lookup (build (entries ns)) p = Some j"
    using lookup_build[of "entries ns" p] assms(1) by (simp add: readable_def)
  from json_at_tree[OF this] show ?thesis by (simp add: entries_def del: tree_json.simps)
qed

text \<open>The binding at position \<open>i\<close> is at the path \<open>p\<close>, spelled as in the text of the document.\<close>

definition bound_at :: "parse_node list \<Rightarrow> nat \<Rightarrow> path \<Rightarrow> bool" where
  "bound_at nodes i p \<longleftrightarrow> alone (max_path_depth nodes) nodes i \<and> pn_path (nodes ! i) = map escape p"

lemma parser_receives_at:
  assumes r: "readable ns" "(p, v) \<in> set (entries ns)" and b: "bound_at nodes i p"
  obtains k ks j where "p = k # ks" "json_at j ks = Some v"
    "parser_parse (json_str (value_json (Doc ns))) nodes ! i =
      received [] (escape k) (map escape ks) j (node_reset (nodes ! i))"
proof -
  obtain ms where ms: "value_json (Doc ns) = JObj ms" by simp
  have "p \<noteq> []" using r by (force simp: readable_def prefix_free_def)
  then obtain k ks where p: "p = k # ks" by (cases p) auto
  with readable_at[OF r] ms obtain j where j: "map_of ms k = Some j" "json_at j ks = Some v"
    by (auto split: option.splits)
  have "parser_parse (json_str (JObj ms)) nodes ! i =
      (case map_of (raw_members ms) (escape k) of
         None \<Rightarrow> node_reset (nodes ! i)
       | Some j \<Rightarrow> received [] (escape k) (map escape ks) j (node_reset (nodes ! i)))"
    by (rule parser_receives[OF readable_document[OF r(1), unfolded ms]])
      (use b p j json_at_admits[OF j(2)] in \<open>simp_all add: bound_at_def map_of_raw\<close>)
  also have "\<dots> = received [] (escape k) (map escape ks) j (node_reset (nodes ! i))"
    using j(1) by (simp add: map_of_raw)
  finally show ?thesis by (rule that[OF p j(2), unfolded ms])
qed

text \<open>The four kinds of reading.\<close>

lemma coerce_string_escape: "coerce_value (escape s) False (TString t) = TString s"
  using decode_escape[of s "resize t (length (escape s))"] length_escape[of s] by simp

lemma reads_at:
  assumes "readable ns" "(p, v) \<in> set (entries ns)" "bound_at nodes i p"
  obtains pp' k' n' where "blocked (node_reset (nodes ! i)) n'"
    "parser_parse (json_str (value_json (Doc ns))) nodes ! i = received pp' k' [] v n'"
proof -
  from parser_receives_at[OF assms] obtain k ks j where 1: "json_at j ks = Some v"
    "parser_parse (json_str (value_json (Doc ns))) nodes ! i =
      received [] (escape k) (map escape ks) j (node_reset (nodes ! i))" by metis
  from received_at[OF 1(1), of "node_reset (nodes ! i)" "[]" "escape k"] that show ?thesis
    unfolding 1(2) by blast
qed

lemma reset_class: "pn_class n = BindNode t \<Longrightarrow> pn_class (node_reset n) = BindNode t"
  "pn_class n = DynamicNode d \<Longrightarrow> \<exists>d'. pn_class (node_reset n) = DynamicNode d'"
  by (simp_all add: node_reset_def)

lemma reads_string:
  assumes "readable ns" "(p, JStr s) \<in> set (entries ns)" "bound_at nodes i p"
    and "pn_class (nodes ! i) = BindNode (TString t)"
  shows "let n = parser_parse (json_str (value_json (Doc ns))) nodes ! i in
    is_set n \<and> \<not> is_null n \<and> pn_class n = BindNode (TString s)"
proof -
  from reads_at[OF assms(1-3)] obtain pp k n' where n': "blocked (node_reset (nodes ! i)) n'"
    "parser_parse (json_str (value_json (Doc ns))) nodes ! i = received pp k [] (JStr s) n'" .
  from blocked_string[OF n'(1) reset_class(1)[OF assms(4)]] show ?thesis unfolding n'(2) Let_def
    by (auto simp: assign_def coerce_string_escape simp del: coerce_value.simps)
qed

lemma int_string_not_null: "int_string v \<noteq> ''null''"
  using is_digit_dec_string[of "nat v"] by (auto simp: int_string_def is_digit_def split: if_splits)

lemma reads_int:
  assumes "readable ns" "(p, JPrim (int_string v)) \<in> set (entries ns)" "bound_at nodes i p"
    and "pn_class (nodes ! i) = BindNode (TInt ty t)" "in_range ty v"
  shows "let n = parser_parse (json_str (value_json (Doc ns))) nodes ! i in
    is_set n \<and> \<not> is_null n \<and> pn_class n = BindNode (TInt ty v)"
proof -
  from reads_at[OF assms(1-3)] obtain pp k n' where n': "blocked (node_reset (nodes ! i)) n'"
    "parser_parse (json_str (value_json (Doc ns))) nodes ! i = received pp k [] (JPrim (int_string v)) n'" .
  from blocked_int[OF n'(1) reset_class(1)[OF assms(4)]] show ?thesis
    using from_chars_int_string[OF assms(5), of "[]"] int_string_not_null
    unfolding n'(2) Let_def by (simp add: assign_def coerce_int_def)
qed

lemma reads_real:
  assumes "readable ns" "(p, JPrim (int_string v)) \<in> set (entries ns)" "bound_at nodes i p"
    and "pn_class (nodes ! i) = BindNode (TReal fmt t)" "\<bar>v\<bar> < 2 ^ precision fmt"
  shows "let n = parser_parse (json_str (value_json (Doc ns))) nodes ! i in
    is_set n \<and> \<not> is_null n \<and> (\<exists>w. pn_class n = BindNode (TReal fmt w) \<and> real_integer fmt w = Some v)"
proof -
  from reads_at[OF assms(1-3)] obtain pp k n' where n': "blocked (node_reset (nodes ! i)) n'"
    "parser_parse (json_str (value_json (Doc ns))) nodes ! i = received pp k [] (JPrim (int_string v)) n'" .
  from blocked_real[OF n'(1) reset_class(1)[OF assms(4)]] obtain t' where "pn_class n' = BindNode (TReal fmt t')" ..
  then show ?thesis
    using coerce_real_int_string[OF assms(5), of "[]" t'] int_string_not_null
    unfolding n'(2) Let_def by (simp add: assign_def ends_integer_def)
qed

lemma reads_bool:
  assumes "readable ns" "(p, JPrim (if v then ''true'' else ''false'')) \<in> set (entries ns)"
    and "bound_at nodes i p" "pn_class (nodes ! i) = BindNode (TBool t)"
  shows "let n = parser_parse (json_str (value_json (Doc ns))) nodes ! i in
    is_set n \<and> \<not> is_null n \<and> pn_class n = BindNode (TBool v)"
proof -
  from reads_at[OF assms(1-3)] obtain pp k n' where n': "blocked (node_reset (nodes ! i)) n'"
    "parser_parse (json_str (value_json (Doc ns))) nodes ! i =
      received pp k [] (JPrim (if v then ''true'' else ''false'')) n'" .
  from blocked_bool[OF n'(1) reset_class(1)[OF assms(4)]] show ?thesis
    unfolding n'(2) Let_def by (auto simp: assign_def)
qed

lemma reads_dynamic:
  assumes "readable ns" "(p, JStr s) \<in> set (entries ns)" "bound_at nodes i p"
    and "pn_class (nodes ! i) = DynamicNode d"
  shows "\<exists>d'. pn_class (parser_parse (json_str (value_json (Doc ns))) nodes ! i) = DynamicNode d' \<and>
    raw_val d' = escape s \<and> is_string d'"
proof -
  from reads_at[OF assms(1-3)] obtain pp k n' where n': "blocked (node_reset (nodes ! i)) n'"
    "parser_parse (json_str (value_json (Doc ns))) nodes ! i = received pp k [] (JStr s) n'" .
  from blocked_dynamic[OF n'(1)] reset_class(2)[OF assms(4)] show ?thesis
    unfolding n'(2) by (auto simp: assign_def dynamic_assign_def)
qed

lemma reads_array:
  assumes "readable ns" "(p, JArr js) \<in> set (entries ns)" "bound_at nodes i p"
    and "pn_class (nodes ! i) = DynamicNode d"
  shows "let n = parser_parse (json_str (value_json (Doc ns))) nodes ! i in
    is_set n \<and> \<not> is_null n \<and>
    (\<exists>d'. pn_class n = DynamicNode d' \<and> raw_val d' = json_str (JArr js) \<and> \<not> iter_started d')"
proof -
  from reads_at[OF assms(1-3)] obtain pp k n' where n': "blocked (node_reset (nodes ! i)) n'"
    "parser_parse (json_str (value_json (Doc ns))) nodes ! i = received pp k [] (JArr js) n'" .
  from blocked_dynamic[OF n'(1)] reset_class(2)[OF assms(4)] show ?thesis
    unfolding n'(2) Let_def by (auto simp: assign_def dynamic_assign_def)
qed

end
