(* ===== verification/Catch_All.thy ===== *)
theory Catch_All
  imports Bindings
begin

text \<open>
  What the callback of a parser with a catch-all is called with (\<open>json_parser(cb, ...)\<close>): the values
  that no other binding claims, in the order of the text.
\<close>

section \<open>The reference\<close>

type_synonym offer = "path \<times> bytes \<times> bool \<times> bool"

text \<open>The values of a document that have a key and lie within the key stack, a block before its members.\<close>

definition offer :: "nat \<Rightarrow> path \<Rightarrow> bytes \<Rightarrow> bytes \<Rightarrow> bool \<Rightarrow> bool \<Rightarrow> offer list" where
  "offer m pp k raw str null = (if length pp < m \<and> k \<noteq> [] then [(pp @ [k], raw, str, null)] else [])"

fun offers :: "nat \<Rightarrow> path \<Rightarrow> bytes \<Rightarrow> json \<Rightarrow> offer list" where
  "offers m pp k (JStr s) = offer m pp k (escape s) True False"
| "offers m pp k (JPrim t) = offer m pp k t False (t = ''null'')"
| "offers m pp k (JArr js) = offer m pp k (json_str (JArr js)) False False @ concat (map (offers m pp []) js)"
| "offers m pp k (JObj ms) = offer m pp k (json_str (JObj ms)) False False @
     concat (map (\<lambda>(k', j). offers m (if k = [] then pp else pp @ [k]) (escape k') j) ms)"

definition claimed :: "parse_node list \<Rightarrow> path \<Rightarrow> bool" where
  "claimed ns p = list_ex (wants_block p) ns"

definition unclaimed :: "parse_node list \<Rightarrow> offer list \<Rightarrow> offer list" where
  "unclaimed ns = filter (\<lambda>(p, _). \<not> claimed ns p)"

definition calls_of :: "parse_node \<Rightarrow> offer list" where
  "calls_of n = (case pn_class n of UnknownBindNode d calls \<Rightarrow> calls | _ \<Rightarrow> [])"

text \<open>The node at \<open>u\<close> is the only catch-all.\<close>

definition sole :: "nat \<Rightarrow> parse_node list \<Rightarrow> bool" where
  "sole u ns \<longleftrightarrow> u < length ns \<and> (\<forall>v<length ns. is_catch_all (ns ! v) \<longleftrightarrow> v = u)"

section \<open>One delivery\<close>

lemma unclaimed_append [simp]: "unclaimed ns (xs @ ys) = unclaimed ns xs @ unclaimed ns ys"
  by (simp add: unclaimed_def)

lemma claimed_shape: "shape ns = shape ns' \<Longrightarrow> claimed ns = claimed ns'"
proof -
  have "list_ex (wants_block p) ns = list_ex (\<lambda>(q, c). \<not> c \<and> matches_parent q p) (shape ns)" for p ns
    by (induction ns) (auto simp: shape_def wants_block_def)
  then show "shape ns = shape ns' \<Longrightarrow> claimed ns = claimed ns'" by (simp add: claimed_def fun_eq_iff)
qed

lemma unclaimed_shape: "shape ns = shape ns' \<Longrightarrow> unclaimed ns = unclaimed ns'"
  using claimed_shape[of ns ns'] by (simp add: unclaimed_def fun_eq_iff)

lemma sole_shape: "shape ns = shape ns' \<Longrightarrow> sole u ns \<Longrightarrow> sole u ns'"
  using shape_length[of ns ns'] shape_nth[of ns ns'] unfolding sole_def by metis

lemma find_binding_claimed:
  "list_ex (wants_block cur) ns \<Longrightarrow>
    \<exists>i<length ns. find_binding cur keyed ns idx ca = Some (idx + i) \<and> wants_block cur (ns ! i)"
proof (induction ns arbitrary: idx ca)
  case (Cons n ns)
  show ?case
  proof (cases "wants_block cur n")
    case True
    then show ?thesis by (intro exI[of _ 0]) (simp add: wants_block_def)
  next
    case False
    with Cons.prems have "list_ex (wants_block cur) ns" by simp
    from Cons.IH[OF this, of "idx + 1" "if is_catch_all n \<and> keyed then Some idx else ca"] obtain i where
      "i < length ns" "wants_block cur (ns ! i)"
      "find_binding cur keyed ns (idx + 1) (if is_catch_all n \<and> keyed then Some idx else ca) = Some (idx + 1 + i)"
      by blast
    with False show ?thesis by (intro exI[of _ "Suc i"]) (auto simp: wants_block_def split: if_splits)
  qed
qed simp

lemma find_binding_unclaimed:
  "\<not> list_ex (wants_block cur) ns \<Longrightarrow> find_binding cur keyed ns idx ca = last_catch_all keyed ns idx ca"
  by (induction ns arbitrary: idx ca) (auto simp: wants_block_def)

lemma last_catch_all_unkeyed: "last_catch_all False ns idx ca = ca"
  by (induction ns arbitrary: idx ca) auto

lemma last_catch_all_none: "(\<forall>v<length ns. \<not> is_catch_all (ns ! v)) \<Longrightarrow> last_catch_all keyed ns idx ca = ca"
proof (induction ns arbitrary: idx ca)
  case (Cons n ns)
  from Cons.prems have "\<not> is_catch_all n" "\<forall>v<length ns. \<not> is_catch_all (ns ! v)" by (auto simp: nth_Cons' dest: spec[of _ "Suc _"])
  with Cons.IH show ?case by simp
qed simp

lemma last_catch_all_sole: "sole u ns \<Longrightarrow> last_catch_all True ns idx ca = Some (idx + u)"
proof (induction ns arbitrary: u idx ca)
  case (Cons n ns)
  have n: "is_catch_all n \<longleftrightarrow> u = 0" using Cons.prems by (force simp: sole_def)
  have ns: "v < length ns \<Longrightarrow> is_catch_all (ns ! v) \<longleftrightarrow> Suc v = u" for v
    using Cons.prems by (auto simp: sole_def dest: spec[of _ "Suc v"])
  show ?case
  proof (cases u)
    case 0
    with n ns show ?thesis by (simp add: last_catch_all_none)
  next
    case (Suc w)
    with ns Cons.prems have "sole w ns" by (auto simp: sole_def)
    with Cons.IH[OF this] n Suc show ?thesis by simp
  qed
qed (simp add: sole_def)

lemma calls_assign: "is_catch_all n \<Longrightarrow> calls_of (assign p raw str null n) = calls_of n @ [(p, raw, str, null)]"
  by (auto simp: is_catch_all_def calls_of_def assign_def split: node_class.splits)

lemma wants_not_sole: "sole u ns \<Longrightarrow> i < length ns \<Longrightarrow> wants_block p (ns ! i) \<Longrightarrow> i \<noteq> u"
  by (auto simp: sole_def wants_block_def)

lemma scalar_to_calls:
  assumes s: "sole u ns"
  shows "calls_of (scalar_to m pp k raw str null ns ! u) = calls_of (ns ! u) @ unclaimed ns (offer m pp k raw str null)"
proof (cases "length pp < m \<and> \<not> list_ex (wants_block (pp @ [k])) ns")
  case True
  then have "find_binding (pp @ [k]) (k \<noteq> []) ns 0 None = (if k \<noteq> [] then Some u else None)"
    using last_catch_all_sole[OF s, of 0 None] by (simp add: find_binding_unclaimed last_catch_all_unkeyed)
  with True s show ?thesis
    by (auto simp: scalar_to_def assign_first_def offer_def unclaimed_def claimed_def calls_assign sole_def)
next
  case False
  show ?thesis
  proof (cases "length pp < m")
    case True
    with False have w: "list_ex (wants_block (pp @ [k])) ns" by simp
    from find_binding_claimed[OF w, of "k \<noteq> []" 0 None] obtain i where i: "i < length ns"
      "find_binding (pp @ [k]) (k \<noteq> []) ns 0 None = Some i" "wants_block (pp @ [k]) (ns ! i)" by auto
    with wants_not_sole[OF s i(1,3)] w True show ?thesis
      by (simp add: scalar_to_def assign_first_def offer_def unclaimed_def claimed_def)
  qed (simp add: scalar_to_def offer_def unclaimed_def)
qed

lemma block_to_calls:
  assumes s: "sole u ns"
  shows "calls_of (block_to m pp k raw ns ! u) = calls_of (ns ! u) @ unclaimed ns (offer m pp k raw False False)"
proof (cases "length pp < m \<and> \<not> list_ex (wants_block (pp @ [k])) ns")
  case True
  then have "last_catch_all (k \<noteq> []) ns 0 None = (if k \<noteq> [] then Some u else None)"
    using last_catch_all_sole[OF s, of 0 None] by (simp add: last_catch_all_unkeyed)
  with True s show ?thesis
    by (auto simp: block_to_def assign_block_def offer_def unclaimed_def claimed_def calls_assign sole_def)
next
  case False
  have "\<not> wants_block (pp @ [k]) (ns ! u)" using s by (auto simp: sole_def wants_block_def)
  with False s show ?thesis
    by (auto simp: block_to_def assign_block_def offer_def unclaimed_def claimed_def sole_def)
qed

section \<open>The whole document\<close>

lemma fold_calls:
  assumes "\<And>x ns. x \<in> set xs \<Longrightarrow> sole u ns \<Longrightarrow> calls_of (f x ns ! u) = calls_of (ns ! u) @ unclaimed ns (g x)"
    and "\<And>x ns. shape (f x ns) = shape ns" "sole u ns"
  shows "calls_of (fold f xs ns ! u) = calls_of (ns ! u) @ unclaimed ns (concat (map g xs))"
  using assms(1,3)
proof (induction xs arbitrary: ns)
  case (Cons x xs)
  have "sole u (f x ns)" by (rule sole_shape[OF _ Cons.prems(2)]) (simp add: assms(2))
  from Cons.IH[OF _ this] Cons.prems(1)[of x ns] Cons.prems show ?case
    using unclaimed_shape[OF assms(2), of x ns] by simp
qed (simp add: unclaimed_def)

lemma deliver_calls:
  "sole u ns \<Longrightarrow> calls_of (deliver m pp k j ns ! u) = calls_of (ns ! u) @ unclaimed ns (offers m pp k j)"
proof (induction j arbitrary: pp k ns)
  case (JArr js)
  let ?n = "block_to m pp k (json_str (JArr js)) ns"
  have s: "sole u ?n" by (rule sole_shape[OF _ JArr.prems]) simp
  have "calls_of (fold (\<lambda>j. deliver m pp [] j) js ?n ! u) =
      calls_of (?n ! u) @ unclaimed ?n (concat (map (offers m pp []) js))"
    by (rule fold_calls[OF _ _ s]) (use JArr.IH in auto)
  then show ?case using block_to_calls[OF JArr.prems] unclaimed_shape[of ?n ns] by simp
next
  case (JObj ms)
  let ?n = "block_to m pp k (json_str (JObj ms)) ns"
  have s: "sole u ?n" by (rule sole_shape[OF _ JObj.prems]) simp
  have "calls_of (fold (\<lambda>(k', j). deliver m (if k = [] then pp else pp @ [k]) (escape k') j) ms ?n ! u) =
      calls_of (?n ! u) @ unclaimed ?n (concat (map (\<lambda>(k', j). offers m (if k = [] then pp else pp @ [k]) (escape k') j) ms))"
    by (rule fold_calls[OF _ _ s]) (use JObj.IH in \<open>auto split: prod.splits\<close>)
  then show ?case using block_to_calls[OF JObj.prems] unclaimed_shape[of ?n ns] by simp
qed (simp_all add: scalar_to_calls)

section \<open>Properties\<close>

text \<open>C11: The catch-all: parsing the text of an object (without objects inside of arrays and without empty keys)
  with one catch-all among the bindings reports the keyed values down to the depth of the longest path of a binding:
  of these its callback sees exactly those that no other binding claims, each once and in the order of the text, whole
  blocks before their members, with their texts and flags. Elements of arrays and values below this depth are never
  reported.\<close>

theorem catch_all_calls:
  assumes "parseable (JObj ms)" "sole u nodes" "calls_of (nodes ! u) = []"
  shows "calls_of (parser_parse (json_str (JObj ms)) nodes ! u) =
    filter (\<lambda>(p, _). \<not> list_ex (wants_block p) nodes) (offers (max_path_depth nodes) [] [] (JObj ms))"
proof -
  let ?ns = "map node_reset nodes"
  have sh: "shape ?ns = shape nodes" by simp
  have s: "sole u ?ns" by (rule sole_shape[OF sh[symmetric] assms(2)])
  have "calls_of (?ns ! u) = []" using assms(2,3) by (simp add: sole_def calls_of_def node_reset_def)
  then have "calls_of (deliver (max_path_depth nodes) [] [] (JObj ms) ?ns ! u) =
      unclaimed nodes (offers (max_path_depth nodes) [] [] (JObj ms))"
    using deliver_calls[OF s, of "max_path_depth nodes" "[]" "[]" "JObj ms"] unclaimed_shape[OF sh]
    by (simp del: deliver.simps offers.simps)
  moreover have "parser_parse (json_str (JObj ms)) nodes = deliver (max_path_depth nodes) [] [] (JObj ms) ?ns"
    using parse_json_nodes_deliver[OF assms(1), of "replicate (max_path_depth nodes) []" "max_path_depth nodes" nodes]
    by (simp add: parser_parse_def del: json_str.simps deliver.simps)
  ultimately show ?thesis by (simp add: unclaimed_def claimed_def del: json_str.simps deliver.simps offers.simps)
qed

theorem catch_all_calls_witness:
  "calls_of (parser_parse (json_str (JObj [(''a'', JPrim ''1''), (''b'', JPrim ''2'')]))
     (json_parser_unknown [bind_key (Some ''a'') (TBool False)]) ! 0) = [([''b''], ''2'', False, False)]"
proof -
  let ?nodes = "json_parser_unknown [bind_key (Some ''a'') (TBool False)]"
  have "parseable (JObj [(''a'', JPrim ''1''), (''b'', JPrim ''2'')])" by (simp add: prim_text_def is_primitive_delim_def)
  moreover have "sole 0 ?nodes"
    by (auto simp: sole_def json_parser_unknown_def json_parser_def bind_unknown_def bind_key_def bind_node_def
        is_catch_all_def less_Suc_eq)
  moreover have "calls_of (?nodes ! 0) = []"
    by (simp add: json_parser_unknown_def json_parser_def bind_unknown_def calls_of_def)
  ultimately have "calls_of (parser_parse (json_str (JObj [(''a'', JPrim ''1''), (''b'', JPrim ''2'')])) ?nodes ! 0) =
    filter (\<lambda>(p, _). \<not> list_ex (wants_block p) ?nodes)
      (offers (max_path_depth ?nodes) [] [] (JObj [(''a'', JPrim ''1''), (''b'', JPrim ''2'')]))"
    by (rule catch_all_calls)
  also have "\<dots> = [([''b''], ''2'', False, False)]" by code_simp
  finally show ?thesis .
qed

end
