(* ===== verification/Iterate.thy ===== *)
theory Iterate
  imports Round_Trip
begin

text \<open>
  \<open>DynamicNodeBase\<close> (\<open>stack_json/parser.hpp\<close>, \<open>parser.cpp\<close>): a value kept as raw text, its type
  tests, the nested parser over it, and \<open>operator>>\<close>, which hands out the elements of an array one
  by one.
\<close>

section \<open>Tokens of an array\<close>

text \<open>The end of a string token: the loop of \<open>next_array_token\<close>.\<close>

function token_string_end :: "bytes \<Rightarrow> nat \<Rightarrow> nat" where
  "token_string_end s e =
     (if e < length s then
        if s ! e = ch_bslash then
          let e = e + 1 in token_string_end s (if e < length s then e + 1 else e)
        else if s ! e = ch_quote then e + 1
        else token_string_end s (e + 1)
      else e)"
  by pat_completeness auto
termination by (relation "measure (\<lambda>(s, e). length s - e)") (auto split: if_splits)

declare token_string_end.simps [simp del]

text \<open>The inner loop over a string literal and the loop over a nested array or object.\<close>

function nested_string :: "bytes \<Rightarrow> nat \<Rightarrow> nat" where
  "nested_string s p =
     (if p < length s then
        let sc = s ! p; p = p + 1 in
        if sc = ch_bslash then nested_string s (if p < length s then p + 1 else p)
        else if sc = ch_quote then p
        else nested_string s p
      else p)"
  by pat_completeness auto
termination by (relation "measure (\<lambda>(s, p). length s - p)") (auto split: if_splits)

declare nested_string.simps [simp del]

lemma nested_string_le: "p \<le> nested_string s p"
proof (induction "length s - p" arbitrary: p rule: less_induct)
  case less
  have "p + 1 \<le> nested_string s (p + 1)" "p + 1 + 1 \<le> nested_string s (p + 1 + 1)" if "p < length s"
    using that by (auto intro!: less)
  then show ?case by (subst nested_string.simps) (auto simp: Let_def)
qed

function nested_end :: "bytes \<Rightarrow> nat \<Rightarrow> int \<Rightarrow> nat" where
  "nested_end s p depth =
     (if p < length s then
        let c = s ! p; p = p + 1 in
        if c = ch_quote then nested_end s (nested_string s p) depth
        else if c = CHR ''{'' \<or> c = CHR ''['' then nested_end s p (depth + 1)
        else if c = CHR ''}'' \<or> c = CHR '']'' then
          if depth - 1 = 0 then p else nested_end s p (depth - 1)
        else nested_end s p depth
      else p)"
  by pat_completeness auto
termination
proof (relation "measure (\<lambda>(s, p, depth). length s - p)", goal_cases)
  case (2 s p depth c q)
  then show ?case using nested_string_le[of "p + 1" s] by (auto intro!: diff_less_mono2)
qed auto

declare nested_end.simps [simp del]

text \<open>
  \<open>next_array_token\<close>: the rest of the iteration, the token and the flag \<open>is_str\<close>. The view
  \<open>iter_state_\<close> is the text that is left; the flag keeps its old value when there is no token.
\<close>

definition next_array_token :: "bytes \<Rightarrow> bool \<Rightarrow> bytes \<times> bytes \<times> bool" where
  "next_array_token iter is_str =
     (let iter = dropWhile (\<lambda>c. is_json_whitespace c \<or> c = CHR '','') iter in
      if iter = [] \<or> hd iter = CHR '']'' then (iter, [], is_str)
      else
        let is_str = (hd iter = ch_quote);
            e = (if hd iter = ch_quote then token_string_end iter 1
                 else if hd iter = CHR ''{'' \<or> hd iter = CHR ''['' then nested_end iter 0 0
                 else scan_while (\<lambda>c. \<not> is_primitive_delim c) iter 0);
            token = substr iter 0 e;
            iter = drop e iter;
            token = (if is_str \<and> length token \<ge> 2 then substr token 1 (length token - 2) else token)
        in (iter, token, is_str))"

section \<open>Dynamic nodes\<close>

definition is_array :: "dynamic \<Rightarrow> bool" where
  "is_array d \<longleftrightarrow> raw_val d \<noteq> [] \<and> hd (raw_val d) = CHR ''[''"

definition is_object :: "dynamic \<Rightarrow> bool" where
  "is_object d \<longleftrightarrow> raw_val d \<noteq> [] \<and> hd (raw_val d) = CHR ''{''"

definition is_boolean :: "dynamic \<Rightarrow> bool" where
  "is_boolean d \<longleftrightarrow> raw_val d = ''true'' \<or> raw_val d = ''false''"

definition is_number :: "bool \<Rightarrow> bool \<Rightarrow> dynamic \<Rightarrow> bool" where
  "is_number isset null d \<longleftrightarrow>
     isset \<and> \<not> null \<and> \<not> is_string d \<and> \<not> is_array d \<and> \<not> is_object d \<and> \<not> is_boolean d"

text \<open>\<open>operator>>(target)\<close>, with \<open>is_set_\<close> and \<open>is_null_\<close> of the node.\<close>

definition extract_value :: "bool \<Rightarrow> bool \<Rightarrow> dynamic \<Rightarrow> target \<Rightarrow> dynamic \<times> target \<times> bool" where
  "extract_value isset null d t =
     (if \<not> isset then (d, t, False)
      else if raw_val d \<noteq> [] \<and> hd (raw_val d) = CHR ''['' then
        let d = (if \<not> iter_started d then d\<lparr>iter_state := drop 1 (raw_val d), iter_started := True\<rparr> else d);
            (iter, token, _) = next_array_token (iter_state d) False;
            d = d\<lparr>iter_state := iter\<rparr>
        in if token = [] then (d, t, False)
           else (d, coerce_value token (token = ''null'') t, True)
      else if iter_started d then (d, t, False)
      else (d\<lparr>iter_started := True\<rparr>, coerce_value (raw_val d) null t, True))"

text \<open>\<open>DynamicNodeBase::parse(nodes...)\<close>: the nodes after the parse and the result.\<close>

definition dynamic_parse :: "bool \<Rightarrow> bool \<Rightarrow> dynamic \<Rightarrow> parse_node list \<Rightarrow> parse_node list \<times> bool" where
  "dynamic_parse isset null d nodes =
     (if \<not> isset \<or> null then (nodes, False) else (parser_parse (raw_val d) nodes, True))"

text \<open>Every token takes something off the text that is left, so a loop over the tokens ends.\<close>

lemma next_array_token_shorter:
  assumes "next_array_token iter is_str = (iter', token, b)" "token \<noteq> []"
  shows "length iter' < length iter"
proof -
  let ?w = "dropWhile (\<lambda>c. is_json_whitespace c \<or> c = CHR '','') iter"
  obtain e where e: "iter' = drop e ?w" "substr ?w 0 e \<noteq> []"
    using assms by (auto simp: next_array_token_def Let_def substr_def split: if_splits)
  then have "0 < e" "?w \<noteq> []" by (auto simp: substr_def)
  then have "length iter' < length ?w" by (simp add: e(1))
  then show ?thesis using length_dropWhile_le[of _ iter] by (rule less_le_trans)
qed

text \<open>\<open>while (node >> target)\<close>: the values read.\<close>

definition left_to_read :: "dynamic \<Rightarrow> nat" where
  "left_to_read d = (if \<not> iter_started d then length (raw_val d) + 1 else if is_array d then length (iter_state d) else 0)"

lemma extract_value_decreases:
  "extract_value isset null d t = (d', t', True) \<Longrightarrow> left_to_read d' < left_to_read d"
  by (auto simp: extract_value_def left_to_read_def is_array_def Let_def split: if_splits prod.splits
      dest!: next_array_token_shorter)

function extract_all :: "bool \<Rightarrow> bool \<Rightarrow> dynamic \<Rightarrow> target \<Rightarrow> target list" where
  "extract_all isset null d t =
     (let (d', t', ok) = extract_value isset null d t in if ok then t' # extract_all isset null d' t' else [])"
  by pat_completeness auto
termination
  by (relation "measure (\<lambda>(isset, null, d, t). left_to_read d)") (auto dest!: extract_value_decreases[OF sym])

declare extract_all.simps [simp del]

section \<open>Tokens of a printed array\<close>

lemma token_string_end_body:
  "str_body t \<Longrightarrow> token_string_end (pre @ t @ post) (length pre) =
    token_string_end (pre @ t @ post) (length pre + length t)"
proof (induction t arbitrary: pre rule: str_body.induct)
  case (2 c)
  then show ?case by (subst token_string_end.simps) (simp add: nth_append)
next
  case (3 c d t)
  show ?case
  proof (cases "c = ch_bslash")
    case True
    with 3(1)[of "pre @ [c, d]"] 3(3) show ?thesis
      by (subst token_string_end.simps) (simp add: nth_append)
  next
    case False
    with 3(2)[of "pre @ [c]"] 3(3) show ?thesis
      by (subst token_string_end.simps) (simp add: nth_append)
  qed
qed simp

lemma token_string_end_quoted: "token_string_end (quoted s @ post) 1 = length (quoted s)"
  using token_string_end_body[OF str_body_escape, of "[ch_quote]" s "ch_quote # post"]
  by (simp add: quoted_def token_string_end.simps[of _ "Suc (length (escape s))"] nth_append)

definition nested_scan :: "bytes \<Rightarrow> nat \<Rightarrow> int \<Rightarrow> bool \<Rightarrow> nat" where
  "nested_scan s i b q = (if q then nested_end s (nested_string s i) b else nested_end s i b)"

lemma nested_end_at: "p < length s \<Longrightarrow> nested_end s p depth =
    (if s ! p = ch_quote then nested_end s (nested_string s (p + 1)) depth
     else if s ! p = CHR ''{'' \<or> s ! p = CHR ''['' then nested_end s (p + 1) (depth + 1)
     else if s ! p = CHR ''}'' \<or> s ! p = CHR '']'' then
       if depth - 1 = 0 then p + 1 else nested_end s (p + 1) (depth - 1)
     else nested_end s (p + 1) depth)"
  by (subst nested_end.simps) (simp add: Let_def)

lemma nested_string_at: "p < length s \<Longrightarrow> nested_string s p =
    (if s ! p = ch_bslash then nested_string s (if p + 1 < length s then p + 1 + 1 else p + 1)
     else if s ! p = ch_quote then p + 1
     else nested_string s (p + 1))"
  by (subst nested_string.simps) (simp add: Let_def)

interpretation nested: block_scanner nested_scan
  by unfold_locales (auto simp: nested_scan_def nested_end_at nested_string_at)

lemma nested_end_json:
  assumes "json_ok j" "j = JArr js \<or> j = JObj ms"
  shows "nested_end (json_str j @ post) 0 0 = length (json_str j)"
  using nested.scan_json_block[OF assms, of "[]" post] by (simp add: nested_scan_def)

text \<open>The token that an element is handed out as: a string without its quotes.\<close>

fun token_of :: "json \<Rightarrow> bytes" where
  "token_of (JStr s) = escape s"
| "token_of j = json_str j"

lemma json_str_hd:
  assumes "json_ok j"
  shows "json_str j \<noteq> []" "\<not> is_json_whitespace (hd (json_str j))" "hd (json_str j) \<noteq> CHR '',''"
    "hd (json_str j) \<noteq> CHR '']''"
  using assms
  by (cases j; auto simp: quoted_def prim_text_def is_json_whitespace_def is_primitive_delim_def
      list_all_iff dest: hd_in_set)+

lemma token_of_empty: "json_ok j \<Longrightarrow> token_of j = [] \<longleftrightarrow> j = JStr []"
  using json_str_hd(1)[of j] escape_inject[of _ "[]"] by (cases j) auto

lemma next_array_token_json:
  assumes ok: "json_ok j" and post: "ends_value post"
    and sep: "list_all (\<lambda>c. is_json_whitespace c \<or> c = CHR '','') sep"
  shows "\<exists>b. next_array_token (sep @ json_str j @ post) is_str = (post, token_of j, b)"
proof -
  let ?it = "json_str j @ post"
  note hd = json_str_hd[OF ok]
  have skip: "dropWhile (\<lambda>c. is_json_whitespace c \<or> c = CHR '','') (sep @ ?it) = ?it"
    using sep hd(1-3) by (cases "json_str j") (auto simp: dropWhile_append list_all_iff)
  have some: "\<not> (?it = [] \<or> hd ?it = CHR '']'')" and hd_it: "hd ?it = hd (json_str j)"
    using hd(1,4) by auto
  show ?thesis
  proof (cases j)
    case (JStr s)
    then show ?thesis
      using skip some token_string_end_quoted[of s post]
      by (auto simp: next_array_token_def Let_def substr_def quoted_def)
  next
    case (JPrim t)
    have "list_all (\<lambda>c. \<not> is_primitive_delim c) t" using ok JPrim by (auto simp: prim_text_def list_all_iff)
    then have "scan_while (\<lambda>c. \<not> is_primitive_delim c) (t @ post) 0 = length t"
      using scan_while_all[of "\<lambda>c. \<not> is_primitive_delim c" t post "[]"] post
      by (auto simp: ends_value_def is_primitive_delim_def)
    moreover have "hd t \<notin> {ch_quote, CHR ''{'', CHR ''[''}"
      using ok JPrim by (cases t) (auto simp: prim_text_def is_primitive_delim_def)
    ultimately show ?thesis
      using skip some hd_it JPrim by (auto simp: next_array_token_def Let_def substr_def)
  next
    case (JArr js)
    with skip some nested_end_json[OF ok, of js "[]" post] show ?thesis
      by (auto simp: next_array_token_def Let_def substr_def)
  next
    case (JObj ms)
    with skip some nested_end_json[OF ok, of "[]" ms post] show ?thesis
      by (auto simp: next_array_token_def Let_def substr_def)
  qed
qed

lemma next_array_token_end: "next_array_token (CHR '']'' # post) is_str = (CHR '']'' # post, [], is_str)"
  by (simp add: next_array_token_def is_json_whitespace_def)

text \<open>Extraction from a node in the middle of an array with the elements \<open>js\<close> left.\<close>

lemma extract_next:
  assumes "iter_started d" "is_array d" "iter_state d = sep @ json_str j @ post" "json_ok j"
    and "ends_value post" "list_all (\<lambda>c. is_json_whitespace c \<or> c = CHR '','') sep"
    and "token_of j \<noteq> []"
  shows "extract_value True null d t =
    (d\<lparr>iter_state := post\<rparr>, coerce_value (token_of j) (token_of j = ''null'') t, True)"
  using next_array_token_json[OF assms(4,5,6), of False] assms
  by (auto simp: extract_value_def is_array_def Let_def)

lemma extract_empty:
  assumes "iter_started d" "is_array d" "iter_state d = sep @ json_str j @ post" "json_ok j"
    and "ends_value post" "list_all (\<lambda>c. is_json_whitespace c \<or> c = CHR '','') sep"
    and "token_of j = []"
  shows "extract_value True null d t = (d\<lparr>iter_state := post\<rparr>, t, False)"
  using next_array_token_json[OF assms(4,5,6), of False] assms
  by (auto simp: extract_value_def is_array_def Let_def)

lemma extract_end:
  assumes "iter_started d" "is_array d" "iter_state d = CHR '']'' # post"
  shows "extract_value True null d t = (d, t, False)"
  using next_array_token_end[of post False] assms
  by (auto simp: extract_value_def is_array_def Let_def)

text \<open>The values of a loop over the elements, each read over the previous one.\<close>

fun read_elements :: "json list \<Rightarrow> target \<Rightarrow> target list" where
  "read_elements [] t = []"
| "read_elements (j # js) t =
     (let t' = coerce_value (token_of j) (token_of j = ''null'') t in t' # read_elements js t')"

text \<open>The elements before the first empty string.\<close>

abbreviation until_empty :: "json list \<Rightarrow> json list" where
  "until_empty js \<equiv> takeWhile (\<lambda>j. token_of j \<noteq> []) js"

lemma extract_all_rest:
  "is_array d \<Longrightarrow> iter_started d \<Longrightarrow> iter_state d = commas first (map json_str js) @ '']'' \<Longrightarrow>
    \<forall>j\<in>set js. json_ok j \<Longrightarrow> extract_all True null d t = read_elements (until_empty js) t"
proof (induction js arbitrary: d first t)
  case Nil
  then show ?case by (subst extract_all.simps) (simp add: extract_end)
next
  case (Cons j js)
  let ?rest = "commas False (map json_str js) @ '']''"
  have pos: "iter_state d = (if first then [] else '','') @ json_str j @ ?rest" "json_ok j" "ends_value ?rest"
    "list_all (\<lambda>c. is_json_whitespace c \<or> c = CHR '','') (if first then [] else '','')"
    using Cons.prems by (cases js; auto simp: ends_value_Cons)+
  show ?case
  proof (cases "token_of j = []")
    case True
    with extract_empty[OF Cons.prems(2,1) pos] show ?thesis by (subst extract_all.simps) simp
  next
    case False
    have "extract_all True null (d\<lparr>iter_state := ?rest\<rparr>) t' = read_elements (until_empty js) t'" for t'
      by (rule Cons.IH[where first = False]) (use Cons.prems in \<open>auto simp: is_array_def\<close>)
    with extract_next[OF Cons.prems(2,1) pos False] False show ?thesis
      by (subst extract_all.simps) (simp add: Let_def)
  qed
qed

lemma extract_all_array:
  assumes "\<forall>j\<in>set js. json_ok j" "raw_val d = json_str (JArr js)" "\<not> iter_started d"
  shows "extract_all True null d t = read_elements (until_empty js) t"
proof -
  let ?d = "d\<lparr>iter_state := drop 1 (raw_val d), iter_started := True\<rparr>"
  have "extract_value True null d t = extract_value True null ?d t" for t
    using assms(2,3) by (simp add: extract_value_def)
  then have "extract_all True null d t = extract_all True null ?d t"
    by (subst (1 2) extract_all.simps) simp
  also have "\<dots> = read_elements (until_empty js) t"
    by (rule extract_all_rest[where first = True]) (use assms in \<open>auto simp: is_array_def\<close>)
  finally show ?thesis .
qed

section \<open>Properties\<close>

text \<open>Iterating with \<open>operator>>\<close> over a dynamic node that holds a printed array gives the elements before the first
  empty string one after the other, nested arrays and objects included, and then ends.\<close>

theorem array_iteration:
  assumes "\<forall>j\<in>set js. json_ok j" "raw_val d = json_str (JArr js)" "\<not> iter_started d"
  shows "extract_all True null d t = read_elements (until_empty js) t"
  by (rule extract_all_array[OF assms])

theorem array_iteration_witness:
  "extract_all True False (dynamic_new\<lparr>raw_val := json_str (JArr [JPrim ''1'', JPrim ''22''])\<rparr>)
     (TInt (Signed 32) 0) = [TInt (Signed 32) 1, TInt (Signed 32) 22]"
  using array_iteration[of "[JPrim ''1'', JPrim ''22'']"
      "dynamic_new\<lparr>raw_val := json_str (JArr [JPrim ''1'', JPrim ''22''])\<rparr>" False "TInt (Signed 32) 0"]
  by (simp add: prim_text_def is_primitive_delim_def dynamic_new_def Let_def coerce_int_def from_chars_int_def
    is_digit_def dec_value_def)

text \<open>An element that is the empty string ends the iteration: the elements after it are lost.\<close>

theorem empty_string_stops_iteration:
  "extract_all True False (dynamic_new\<lparr>raw_val := json_str (JArr [JStr ''a'', JStr [], JStr ''b''])\<rparr>)
     (TString []) = [TString ''a'']"
  by code_simp

end
