(* ===== verification/Pretty.thy ===== *)
theory Pretty
  imports Printer
begin

text \<open>
  \<open>PrettyBuffer\<close> (\<open>stack_json/pretty_buffer.hpp\<close>, \<open>pretty_buffer.cpp\<close>): a buffer that formats the
  compact text written to it on its way to another buffer. The reference formats one character at a
  time, so that the formatting does not depend on how the text is cut into writes.
\<close>

section \<open>The buffer\<close>

text \<open>\<open>depth_\<close> and \<open>indent_size_\<close> are \<open>uint8_t\<close>; \<open>pb_bad\<close> is the flag of the base class, which is
  not the one of the destination.\<close>

record 'b pretty =
  pb_dest :: 'b
  indent_size :: "8 word"
  pb_depth :: "8 word"
  in_string :: bool
  escape_next :: bool
  pb_bad :: bool

definition pretty_new :: "'b \<Rightarrow> 8 word \<Rightarrow> 'b pretty" where
  "pretty_new dest ind =
     \<lparr>pb_dest = dest, indent_size = ind, pb_depth = 0, in_string = False, escape_next = False, pb_bad = False\<rparr>"

text \<open>
  The loop of \<open>write_indent\<close>: its counter is a \<open>uint8_t\<close> that is compared with an \<open>int\<close>, so that
  the loop does not end when the product is 256 or more; then the result is \<^const>\<open>None\<close>.
\<close>

partial_function (option) indent_loop :: "'b buffer_ops \<Rightarrow> nat \<Rightarrow> 8 word \<Rightarrow> 'b \<Rightarrow> 'b option" where
  "indent_loop ops n i b =
     (if unat i < n then do { (b, _) \<leftarrow> op_write ops b '' ''; indent_loop ops n (i + 1) b } else Some b)"

declare indent_loop.simps [code]

definition write_indent :: "'b buffer_ops \<Rightarrow> 'b pretty \<Rightarrow> 'b pretty option" where
  "write_indent ops st =
     do { b \<leftarrow> indent_loop ops (unat (pb_depth st) * unat (indent_size st)) 0 (pb_dest st);
          Some (st\<lparr>pb_dest := b\<rparr>) }"

text \<open>A write to the destination whose result is dropped.\<close>

definition dest_write :: "'b buffer_ops \<Rightarrow> bytes \<Rightarrow> 'b pretty \<Rightarrow> 'b pretty option" where
  "dest_write ops s st = do { (b, _) \<leftarrow> op_write ops (pb_dest st) s; Some (st\<lparr>pb_dest := b\<rparr>) }"

definition is_structural :: "char \<Rightarrow> bool" where
  "is_structural c \<longleftrightarrow> c = CHR ''{'' \<or> c = CHR ''['' \<or> c = CHR ''}'' \<or> c = CHR '']''
     \<or> c = CHR '','' \<or> c = CHR '':'' \<or> c = ch_quote"

text \<open>The branches for a structural character.\<close>

definition format_structural :: "'b buffer_ops \<Rightarrow> char \<Rightarrow> 'b pretty \<Rightarrow> 'b pretty option" where
  "format_structural ops c st =
     (if c = ch_quote then dest_write ops [ch_quote] (st\<lparr>in_string := True\<rparr>)
      else if c = CHR ''{'' \<or> c = CHR ''['' then
        do { st \<leftarrow> dest_write ops (if c = CHR ''{'' then [CHR ''{'', ch_lf] else [CHR ''['', ch_lf]) st;
             write_indent ops (st\<lparr>pb_depth := pb_depth st + 1\<rparr>) }
      else if c = CHR ''}'' \<or> c = CHR '']'' then
        do { st \<leftarrow> dest_write ops [ch_lf] st;
             st \<leftarrow> write_indent ops (if pb_depth st > 0 then st\<lparr>pb_depth := pb_depth st - 1\<rparr> else st);
             dest_write ops (if c = CHR ''}'' then ''}'' else '']'') st }
      else if c = CHR '','' then
        do { st \<leftarrow> dest_write ops [CHR '','', ch_lf] st; write_indent ops st }
      else if c = CHR '':'' then dest_write ops '': '' st
      else Some st)"

definition string_char :: "char \<Rightarrow> 'b pretty \<Rightarrow> 'b pretty" where
  "string_char c st =
     (if escape_next st then st\<lparr>escape_next := False\<rparr>
      else if c = ch_bslash then st\<lparr>escape_next := True\<rparr>
      else if c = ch_quote then st\<lparr>in_string := False\<rparr>
      else st)"

text \<open>The loop; its result is the state, \<open>start\<close>, and false after an early return.\<close>

function pretty_loop ::
  "'b buffer_ops \<Rightarrow> bytes \<Rightarrow> nat \<Rightarrow> nat \<Rightarrow> 'b pretty \<Rightarrow> ('b pretty \<times> nat \<times> bool) option" where
  "pretty_loop ops str i start st =
     (if i < length str then
        let c = str ! i in
        if in_string st then pretty_loop ops str (i + 1) start (string_char c st)
        else if is_structural c then
          do { (b, n) \<leftarrow> (if i > start then op_write ops (pb_dest st) (substr str start (i - start))
                         else Some (pb_dest st, 1));
               if n = 0 then Some (st\<lparr>pb_dest := b\<rparr>, start, False)
               else do {
                 st \<leftarrow> format_structural ops c (st\<lparr>pb_dest := b\<rparr>);
                 pretty_loop ops str (i + 1) (i + 1) st } }
        else pretty_loop ops str (i + 1) start st
      else Some (st, start, True))"
  by pat_completeness auto
termination by (relation "measure (\<lambda>(ops, str, i, start, st). length str - i)") auto

declare pretty_loop.simps [simp del]

definition pretty_write :: "'b buffer_ops \<Rightarrow> 'b pretty \<Rightarrow> bytes \<Rightarrow> ('b pretty \<times> nat) option" where
  "pretty_write ops st str =
     (let before_len = op_length ops (pb_dest st) in
      do { (st, start, ok) \<leftarrow> pretty_loop ops str 0 0 st;
           if \<not> ok then Some (st, 0)
           else if start < length str then
             do { (b, n) \<leftarrow> op_write ops (pb_dest st) (drop start str);
                  if n = 0 then Some (st\<lparr>pb_dest := b\<rparr>, 0)
                  else Some (st\<lparr>pb_dest := b\<rparr>, op_length ops b - before_len) }
           else Some (st, op_length ops (pb_dest st) - before_len) })"

text \<open>The virtual methods of a \<open>PrettyBuffer\<close> over a buffer with the methods \<open>ops\<close>.\<close>

definition pretty_ops :: "'b buffer_ops \<Rightarrow> 'b pretty buffer_ops" where
  "pretty_ops ops =
     \<lparr>op_write = pretty_write ops,
      op_span = (\<lambda>st. let (b, cs) = op_span ops (pb_dest st) in (st\<lparr>pb_dest := b\<rparr>, cs)),
      op_store = (\<lambda>st cs. st\<lparr>pb_dest := op_store ops (pb_dest st) cs\<rparr>),
      op_commit = (\<lambda>st n. st\<lparr>pb_dest := op_commit ops (pb_dest st) n\<rparr>),
      op_before = (\<lambda>st n. op_before ops (pb_dest st) n),
      op_length = (\<lambda>st. op_length ops (pb_dest st)),
      op_bad = pb_bad,
      op_set_bad = (\<lambda>st v. st\<lparr>pb_bad := v\<rparr>)\<rparr>"

section \<open>Formatting one character at a time\<close>

text \<open>The state of the formatter: depth, inside of a string, after a backslash.\<close>

type_synonym fmt = "8 word \<times> bool \<times> bool"

definition indent :: "8 word \<Rightarrow> 8 word \<Rightarrow> bytes" where
  "indent ind d = replicate (unat d * unat ind) CHR '' ''"

fun fmt_next :: "fmt \<Rightarrow> char \<Rightarrow> fmt" where
  "fmt_next (d, True, e) c =
     (if e then (d, True, False) else if c = ch_bslash then (d, True, True)
      else if c = ch_quote then (d, False, e) else (d, True, e))"
| "fmt_next (d, False, e) c =
     (if c = ch_quote then (d, True, e)
      else if c = CHR ''{'' \<or> c = CHR ''['' then (d + 1, False, e)
      else if c = CHR ''}'' \<or> c = CHR '']'' then (if d > 0 then d - 1 else d, False, e)
      else (d, False, e))"

fun fmt_char :: "8 word \<Rightarrow> fmt \<Rightarrow> char \<Rightarrow> bytes" where
  "fmt_char ind (d, True, e) c = [c]"
| "fmt_char ind (d, False, e) c =
     (if c = CHR ''{'' \<or> c = CHR ''['' then c # ch_lf # indent ind (d + 1)
      else if c = CHR ''}'' \<or> c = CHR '']'' then ch_lf # indent ind (if d > 0 then d - 1 else d) @ [c]
      else if c = CHR '','' then c # ch_lf # indent ind d
      else if c = CHR '':'' then '': ''
      else [c])"

fun fmt_text :: "8 word \<Rightarrow> fmt \<Rightarrow> bytes \<Rightarrow> bytes" where
  "fmt_text ind f [] = []"
| "fmt_text ind f (c # cs) = fmt_char ind f c @ fmt_text ind (fmt_next f c) cs"

definition fmt_after :: "fmt \<Rightarrow> bytes \<Rightarrow> fmt" where
  "fmt_after f s = foldl fmt_next f s"

text \<open>The indentation stays below 256 characters.\<close>

fun fmt_fits :: "8 word \<Rightarrow> fmt \<Rightarrow> bytes \<Rightarrow> bool" where
  "fmt_fits ind f [] = True"
| "fmt_fits ind f (c # cs) =
     (unat (fst (fmt_next f c)) * unat ind < 256 \<and> fmt_fits ind (fmt_next f c) cs)"

lemma fmt_text_append: "fmt_text ind f (s @ t) = fmt_text ind f s @ fmt_text ind (fmt_after f s) t"
  by (induction s arbitrary: f) (simp_all add: fmt_after_def)

lemma fmt_after_append: "fmt_after f (s @ t) = fmt_after (fmt_after f s) t"
  by (simp add: fmt_after_def)

text \<open>White space outside of strings carries no information: dropping it gives the text back.\<close>

fun strip :: "fmt \<Rightarrow> bytes \<Rightarrow> bytes" where
  "strip f [] = []"
| "strip f (c # cs) =
     (if \<not> fst (snd f) \<and> (c = CHR '' '' \<or> c = ch_lf) then strip f cs
      else c # strip (fmt_next f c) cs)"

lemma strip_indent: "strip (d, False, e) (indent ind n @ s) = strip (d, False, e) s"
proof -
  have "strip (d, False, e) (replicate k CHR '' '' @ s) = strip (d, False, e) s" for k
    by (induction k) auto
  then show ?thesis by (simp add: indent_def)
qed

text \<open>The text has no white space of its own outside of strings.\<close>

fun compact :: "fmt \<Rightarrow> bytes \<Rightarrow> bool" where
  "compact f [] = True"
| "compact f (c # cs) = ((fst (snd f) \<or> c \<noteq> CHR '' '' \<and> c \<noteq> ch_lf) \<and> compact (fmt_next f c) cs)"

lemma strip_fmt_char:
  "fst (snd f) \<or> c \<noteq> CHR '' '' \<and> c \<noteq> ch_lf \<Longrightarrow>
    strip f (fmt_char ind f c @ s) = c # strip (fmt_next f c) s"
proof (cases "(ind, f, c)" rule: fmt_char.cases)
  case (1 ind d e c)
  then show ?thesis by auto
next
  case (2 ind' d e c')
  assume "fst (snd f) \<or> c \<noteq> CHR '' '' \<and> c \<noteq> ch_lf"
  with 2 show ?thesis by (auto simp: strip_indent)
qed

lemma strip_fmt_text: "compact f t \<Longrightarrow> strip f (fmt_text ind f t) = t"
  by (induction t arbitrary: f) (auto simp: strip_fmt_char)

section \<open>The indentation loop\<close>

lemma indent_loop_returns:
  assumes "indent_loop ops n i b = Some r"
  shows "n < 256"
proof (rule indent_loop.raw_induct[where P = "\<lambda>ops n i b r. n < 256", OF _ assms])
  fix f :: "'b buffer_ops \<Rightarrow> nat \<Rightarrow> 8 word \<Rightarrow> 'b \<Rightarrow> 'b option" and ops n i b y
  assume IH: "\<And>ops n i b y. f ops n i b = Some y \<Longrightarrow> n < 256"
    and y: "(if unat i < n then op_write ops b '' '' \<bind> (\<lambda>(b, _). f ops n (i + 1) b) else Some b) = Some y"
  have "unat i < 256" using unsigned_less[of i] by simp
  with y IH show "n < 256" by (cases "unat i < n") (auto split: bind_splits prod.splits)
qed

lemma indent_loop_diverges: "256 \<le> n \<Longrightarrow> indent_loop ops n i b = None"
  using indent_loop_returns[of ops n i b] by (cases "indent_loop ops n i b") auto

context buffer
begin

lemma indent_loop_emits:
  "n < 256 \<Longrightarrow> unat i \<le> n \<Longrightarrow> ok b \<Longrightarrow>
    \<exists>b'. indent_loop ops n i b = Some b' \<and> emits 0 b (replicate (n - unat i) CHR '' '') b'"
proof (induction "n - unat i" arbitrary: i b)
  case 0
  then show ?case by (subst indent_loop.simps) (simp add: emits_refl)
next
  case (Suc k)
  then have less: "unat i < n" by simp
  then have next_i: "unat (i + 1) = unat i + 1"
    using Suc.prems(1) by (simp add: unat_word_ariths)
  obtain b1 m where b1: "op_write ops b '' '' = Some (b1, m)" "emits 0 b '' '' b1"
    using write_cases[OF Suc.prems(3), of "'' ''"] by metis
  obtain b2 where b2: "indent_loop ops n (i + 1) b1 = Some b2"
    "emits 0 b1 (replicate (n - unat (i + 1)) CHR '' '') b2"
  proof -
    have "k = n - unat (i + 1)" "unat (i + 1) \<le> n" using Suc.hyps(2) next_i less by auto
    from Suc.hyps(1)[OF this(1) Suc.prems(1) this(2) emits_ok[OF b1(2)]] that show ?thesis by blast
  qed
  have "replicate (n - unat i) CHR '' '' = '' '' @ replicate (n - unat (i + 1)) CHR '' ''"
    using less next_i by (simp flip: replicate_Suc add: Suc_diff_Suc)
  with b1 b2 less emits_append[OF b1(2) b2(2)] show ?case
    by (subst indent_loop.simps) simp
qed

text \<open>A step of the formatter: it produces \<open>out\<close> in the destination and goes on as \<open>g\<close>.\<close>

definition fmt_of :: "'b pretty \<Rightarrow> fmt" where
  "fmt_of st = (pb_depth st, in_string st, escape_next st)"

definition formats :: "'b pretty \<Rightarrow> bytes \<Rightarrow> fmt \<Rightarrow> 'b pretty option \<Rightarrow> bool" where
  "formats st out g r \<longleftrightarrow> (\<exists>st'. r = Some st' \<and> emits 0 (pb_dest st) out (pb_dest st') \<and>
     fmt_of st' = g \<and> indent_size st' = indent_size st \<and> pb_bad st' = pb_bad st)"

lemma formats_bind:
  assumes "formats st s g r"
    and "\<And>st1. emits 0 (pb_dest st) s (pb_dest st1) \<Longrightarrow> fmt_of st1 = g \<Longrightarrow>
      indent_size st1 = indent_size st \<Longrightarrow> formats st1 t g' (k st1)"
  shows "formats st (s @ t) g' (r \<bind> k)"
  using assms unfolding formats_def by (metis bind.bind_lunit emits_append)

lemma dest_write_formats: "ok (pb_dest st) \<Longrightarrow> formats st s (fmt_of st) (dest_write ops s st)"
  by (cases rule: write_cases[of "pb_dest st" s]) (auto simp: formats_def dest_write_def fmt_of_def)

lemma write_indent_formats:
  assumes "ok (pb_dest st)" "unat (pb_depth st) * unat (indent_size st) < 256"
  shows "formats st (indent (indent_size st) (pb_depth st)) (fmt_of st) (write_indent ops st)"
  using indent_loop_emits[OF assms(2) _ assms(1), of 0]
  by (auto simp: formats_def write_indent_def indent_def fmt_of_def)

text \<open>The three kinds of structural characters that break the line.\<close>

lemma opens_formats:
  assumes st: "ok (pb_dest st)" "\<not> in_string st" and fits: "unat (pb_depth st + 1) * unat (indent_size st) < 256"
  shows "formats st (c @ indent (indent_size st) (pb_depth st + 1)) (pb_depth st + 1, False, escape_next st)
    (dest_write ops c st \<bind> (\<lambda>st. write_indent ops (st\<lparr>pb_depth := pb_depth st + 1\<rparr>)))"
proof (rule formats_bind[OF dest_write_formats[OF st(1)]])
  fix st1 assume 1: "emits 0 (pb_dest st) c (pb_dest st1)" "fmt_of st1 = fmt_of st" "indent_size st1 = indent_size st"
  then have "pb_depth st1 = pb_depth st" "\<not> in_string st1" "escape_next st1 = escape_next st"
    using st(2) by (auto simp: fmt_of_def)
  with write_indent_formats[of "st1\<lparr>pb_depth := pb_depth st1 + 1\<rparr>"] fits 1 emits_ok[OF 1(1)]
  show "formats st1 (indent (indent_size st) (pb_depth st + 1)) (pb_depth st + 1, False, escape_next st)
      (write_indent ops (st1\<lparr>pb_depth := pb_depth st1 + 1\<rparr>))"
    by (auto simp: formats_def fmt_of_def)
qed

lemma closes_formats:
  defines "dec \<equiv> \<lambda>st. if pb_depth st > 0 then st\<lparr>pb_depth := pb_depth st - 1\<rparr> else st"
  assumes st: "ok (pb_dest st)" "\<not> in_string st"
    and d: "d = (if pb_depth st > 0 then pb_depth st - 1 else pb_depth st)" "unat d * unat (indent_size st) < 256"
  shows "formats st ([ch_lf] @ indent (indent_size st) d @ c) (d, False, escape_next st)
    (dest_write ops [ch_lf] st \<bind> (\<lambda>st. write_indent ops (dec st) \<bind> dest_write ops c))"
proof (rule formats_bind[OF dest_write_formats[OF st(1)]], rule formats_bind)
  fix st1 assume 1: "emits 0 (pb_dest st) [ch_lf] (pb_dest st1)" "fmt_of st1 = fmt_of st" "indent_size st1 = indent_size st"
  then have s: "pb_depth (dec st1) = d" "\<not> in_string st1" "escape_next st1 = escape_next st"
    using st(2) by (auto simp: fmt_of_def d(1) dec_def)
  have "formats (dec st1) (indent (indent_size (dec st1)) (pb_depth (dec st1))) (fmt_of (dec st1)) (write_indent ops (dec st1))"
    by (rule write_indent_formats) (use d(2) 1 emits_ok[OF 1(1)] s(1) in \<open>auto simp: dec_def\<close>)
  with s 1(3) show "formats st1 (indent (indent_size st) d) (d, False, escape_next st) (write_indent ops (dec st1))"
    by (auto simp: formats_def fmt_of_def dec_def split: if_splits)
next
  fix st1 st2 assume "emits 0 (pb_dest st1) (indent (indent_size st) d) (pb_dest st2)" "fmt_of st2 = (d, False, escape_next st)"
  with dest_write_formats[of st2 c] emits_ok show "formats st2 c (d, False, escape_next st) (dest_write ops c st2)" by metis
qed

lemma comma_formats:
  assumes "ok (pb_dest st)" "unat (pb_depth st) * unat (indent_size st) < 256"
  shows "formats st (c @ indent (indent_size st) (pb_depth st)) (fmt_of st) (dest_write ops c st \<bind> write_indent ops)"
proof (rule formats_bind[OF dest_write_formats[OF assms(1)]])
  fix st1 assume 1: "emits 0 (pb_dest st) c (pb_dest st1)" "fmt_of st1 = fmt_of st" "indent_size st1 = indent_size st"
  then show "formats st1 (indent (indent_size st) (pb_depth st)) (fmt_of st) (write_indent ops st1)"
    using write_indent_formats[of st1] assms(2) emits_ok[OF 1(1)] by (auto simp: fmt_of_def)
qed

lemma format_structural_formats:
  assumes st: "ok (pb_dest st)" "\<not> in_string st" "is_structural c"
    and fits: "unat (fst (fmt_next (fmt_of st) c)) * unat (indent_size st) < 256"
  shows "formats st (fmt_char (indent_size st) (fmt_of st) c) (fmt_next (fmt_of st) c)
    (format_structural ops c st)"
proof -
  have f: "fmt_of st = (pb_depth st, False, escape_next st)" using st(2) by (simp add: fmt_of_def)
  consider (quote) "c = ch_quote" | (opens) "c = CHR ''{'' \<or> c = CHR ''[''"
    | (closes) "c = CHR ''}'' \<or> c = CHR '']''" | (comma) "c = CHR '',''" | (colon) "c = CHR '':''"
    using st(3) by (auto simp: is_structural_def)
  then show ?thesis
  proof cases
    case quote
    with dest_write_formats[of "st\<lparr>in_string := True\<rparr>" "[ch_quote]"] st(1,2)
    show ?thesis by (simp add: format_structural_def f formats_def fmt_of_def)
  next
    case opens
    with opens_formats[OF st(1,2), of "[c, ch_lf]"] fits show ?thesis by (auto simp: format_structural_def f)
  next
    case closes
    then have "(if c = CHR ''}'' then ''}'' else '']'') = [c]" by auto
    with closes closes_formats[OF st(1,2) refl, of "[c]"] fits show ?thesis by (auto simp: format_structural_def f)
  next
    case comma
    with comma_formats[OF st(1), of "[CHR '','', ch_lf]"] fits show ?thesis by (simp add: format_structural_def f)
  next
    case colon
    with dest_write_formats[OF st(1), of "'': ''"] show ?thesis by (simp add: format_structural_def f)
  qed
qed

text \<open>\<open>r\<close> is what is left to flush: the formatted text is \<open>out\<close>, its tail \<open>drop start str\<close> is not
  yet written.\<close>

definition loops :: "bytes \<Rightarrow> 'b pretty \<Rightarrow> bytes \<Rightarrow> fmt \<Rightarrow> ('b pretty \<times> nat \<times> bool) option \<Rightarrow> bool" where
  "loops str st out g r \<longleftrightarrow> (\<exists>st' start' fin. r = Some (st', start', fin) \<and> start' \<le> length str \<and>
     indent_size st' = indent_size st \<and> pb_bad st' = pb_bad st \<and>
     (fin \<longrightarrow> fmt_of st' = g \<and>
        (\<exists>w. out = w @ drop start' str \<and> emits 0 (pb_dest st) w (pb_dest st'))) \<and>
     (\<not> fin \<longrightarrow> emits 0 (pb_dest st) out (pb_dest st') \<and> bad (pb_dest st')))"

lemma loops_step:
  assumes "emits 0 (pb_dest st) s (pb_dest st1)" "indent_size st1 = indent_size st" "pb_bad st1 = pb_bad st"
    and "loops str st1 t g r"
  shows "loops str st (s @ t) g r"
  using assms(4) emits_append[OF assms(1)] emits_append[OF assms(1)] assms(2,3)
  unfolding loops_def by (metis append.assoc)

text \<open>The characters kept back are written before a structural one.\<close>

lemma pending_written:
  assumes "start \<le> i" "i < length str" "ok b"
  obtains b1 n where "(if i > start then op_write ops b (substr str start (i - start)) else Some (b, 1)) = Some (b1, n)"
    "emits 0 b (substr str start (i - start)) b1" "n = 0 \<longrightarrow> bad b1"
proof (cases "i > start")
  case True
  then have "substr str start (i - start) \<noteq> []"
    using assms(1,2) length_substr[of start "i - start" str] by (cases "substr str start (i - start)") auto
  with True that show ?thesis
    by (cases rule: write_cases[OF assms(3), of "substr str start (i - start)"]) auto
next
  case False
  with that assms(3) show ?thesis by (simp add: emits_refl)
qed

text \<open>The three rounds of the loop: a character that is kept back, a failure to flush, a structural character.\<close>

definition loops_from :: "bytes \<Rightarrow> nat \<Rightarrow> nat \<Rightarrow> 'b pretty \<Rightarrow> bool" where
  "loops_from str i start st \<longleftrightarrow>
     loops str st (substr str start (i - start) @ fmt_text (indent_size st) (fmt_of st) (drop i str))
       (fmt_after (fmt_of st) (drop i str)) (pretty_loop ops str i start st)"

lemma loops_verbatim:
  assumes "start \<le> i" "i < length str" "loops_from str (i + 1) start st1"
    and "fmt_char (indent_size st) (fmt_of st) (str ! i) = [str ! i]" "fmt_of st1 = fmt_next (fmt_of st) (str ! i)"
    and "pb_dest st1 = pb_dest st" "indent_size st1 = indent_size st" "pb_bad st1 = pb_bad st"
    and "pretty_loop ops str i start st = pretty_loop ops str (i + 1) start st1"
  shows "loops_from str i start st"
proof -
  have "drop i str = str ! i # drop (i + 1) str" using Cons_nth_drop_Suc[OF assms(2)] by simp
  moreover have "substr str start (i + 1 - start) = substr str start (i - start) @ [str ! i]"
    using substr_snoc[OF assms(1,2)] by simp
  ultimately show ?thesis
    using assms(3) unfolding loops_from_def fmt_text.simps assms(9)
    by (simp add: assms(4-8) loops_def fmt_after_def)
qed

lemma loops_structural:
  assumes "start \<le> i" "i < length str" "ok (pb_dest st)" "\<not> in_string st" "is_structural (str ! i)"
    and fits: "unat (fst (fmt_next (fmt_of st) (str ! i))) * unat (indent_size st) < 256"
    and IH: "\<And>st2. ok (pb_dest st2) \<Longrightarrow> indent_size st2 = indent_size st \<Longrightarrow>
      fmt_of st2 = fmt_next (fmt_of st) (str ! i) \<Longrightarrow> loops_from str (i + 1) (i + 1) st2"
  shows "loops_from str i start st"
proof -
  let ?ind = "indent_size st" and ?c = "str ! i"
  obtain b1 n where b1: "(if i > start then op_write ops (pb_dest st) (substr str start (i - start))
      else Some (pb_dest st, 1)) = Some (b1, n)"
    "emits 0 (pb_dest st) (substr str start (i - start)) b1" "n = 0 \<longrightarrow> bad b1"
    by (rule pending_written[OF assms(1-3)])
  have drop: "drop i str = ?c # drop (i + 1) str" using Cons_nth_drop_Suc[OF assms(2)] by simp
  show ?thesis
  proof (cases "n = 0")
    case True
    with b1 assms(1,2,4,5) emits_stop[OF b1(2)] show ?thesis
      unfolding loops_from_def by (subst pretty_loop.simps) (auto simp: loops_def Let_def)
  next
    case n: False
    let ?st1 = "st\<lparr>pb_dest := b1\<rparr>"
    have f1: "fmt_of ?st1 = fmt_of st" by (simp add: fmt_of_def)
    obtain st2 where st2: "format_structural ops ?c ?st1 = Some st2"
      "emits 0 b1 (fmt_char ?ind (fmt_of st) ?c) (pb_dest st2)" "fmt_of st2 = fmt_next (fmt_of st) ?c"
      "indent_size st2 = ?ind" "pb_bad st2 = pb_bad st"
      using format_structural_formats[of ?st1 ?c] emits_ok[OF b1(2)] assms(4,5) fits
      unfolding f1 by (auto simp: formats_def)
    from IH[OF emits_ok[OF st2(2)] st2(4,3)]
    have "loops str st2 (fmt_text ?ind (fmt_of st2) (drop (i + 1) str))
        (fmt_after (fmt_of st) (drop i str)) (pretty_loop ops str i start st)"
      using n b1(1) st2 assms(2,4,5)
      by (simp add: loops_from_def pretty_loop.simps[of ops str i] Let_def drop fmt_after_def)
    from loops_step[OF emits_append[OF b1(2) st2(2)] st2(4,5) this] show ?thesis
      by (simp add: loops_from_def drop st2(3))
  qed
qed

lemma pretty_loop_loops:
  "start \<le> i \<Longrightarrow> i \<le> length str \<Longrightarrow> ok (pb_dest st) \<Longrightarrow> fmt_fits (indent_size st) (fmt_of st) (drop i str) \<Longrightarrow>
    loops_from str i start st"
proof (induction "length str - i" arbitrary: i start st rule: less_induct)
  case less
  note prems = less.prems
  show ?case
  proof (cases "i < length str")
    case False
    with prems have "i = length str" by simp
    with prems show ?thesis unfolding loops_from_def
      by (subst pretty_loop.simps)
        (auto simp: loops_def fmt_after_def substr_to_end emits_refl intro!: exI[of _ "[]"])
  next
    case i: True
    let ?c = "str ! i" and ?ind = "indent_size st"
    have drop: "drop i str = ?c # drop (i + 1) str" using Cons_nth_drop_Suc[OF i] by simp
    have fits: "unat (fst (fmt_next (fmt_of st) ?c)) * unat ?ind < 256"
      "fmt_fits ?ind (fmt_next (fmt_of st) ?c) (drop (i + 1) str)"
      using prems(4) unfolding drop by simp_all
    have IH: "loops_from str (i + 1) start' st'"
      if "start' \<le> i + 1" "ok (pb_dest st')" "indent_size st' = ?ind" "fmt_of st' = fmt_next (fmt_of st) ?c" for start' st'
      by (rule less.hyps) (use i that fits(2) in auto)
    consider "in_string st" | "\<not> in_string st" "\<not> is_structural ?c" | "\<not> in_string st" "is_structural ?c" by blast
    then show ?thesis
    proof cases
      case 1
      show ?thesis
        by (rule loops_verbatim[where ?st1.0 = "string_char ?c st", OF prems(1) i IH])
          (use 1 i prems in \<open>auto simp: fmt_of_def string_char_def pretty_loop.simps[of ops str i] Let_def\<close>)
    next
      case 2
      show ?thesis
        by (rule loops_verbatim[where ?st1.0 = st, OF prems(1) i IH])
          (use 2 i prems in \<open>auto simp: fmt_of_def is_structural_def pretty_loop.simps[of ops str i] Let_def\<close>)
    next
      case 3
      then show ?thesis by (rule loops_structural[OF prems(1) i prems(3) _ _ fits(1)]) (rule IH; simp)
    qed
  qed
qed

text \<open>One write to the formatter.\<close>

lemma pretty_write_emits:
  assumes "ok (pb_dest st)" "fmt_fits (indent_size st) (fmt_of st) str"
  shows "\<exists>st' n. pretty_write ops st str = Some (st', n) \<and>
    emits 0 (pb_dest st) (fmt_text (indent_size st) (fmt_of st) str) (pb_dest st') \<and>
    indent_size st' = indent_size st \<and> pb_bad st' = pb_bad st \<and>
    (\<not> bad (pb_dest st') \<longrightarrow> fmt_of st' = fmt_after (fmt_of st) str \<and>
       n = length (fmt_text (indent_size st) (fmt_of st) str))"
proof -
  let ?out = "fmt_text (indent_size st) (fmt_of st) str"
  have "loops str st ?out (fmt_after (fmt_of st) str) (pretty_loop ops str 0 0 st)"
    using pretty_loop_loops[of 0 0 str st] assms by (simp add: loops_from_def)
  then obtain st1 start fin where 1: "pretty_loop ops str 0 0 st = Some (st1, start, fin)"
    "indent_size st1 = indent_size st" "pb_bad st1 = pb_bad st"
    "fin \<longrightarrow> fmt_of st1 = fmt_after (fmt_of st) str \<and>
      (\<exists>w. ?out = w @ drop start str \<and> emits 0 (pb_dest st) w (pb_dest st1))"
    "\<not> fin \<longrightarrow> emits 0 (pb_dest st) ?out (pb_dest st1) \<and> bad (pb_dest st1)"
    unfolding loops_def by blast
  have len: "op_length ops b - op_length ops (pb_dest st) = length out"
    if "emits 0 (pb_dest st) out b" "\<not> bad b" for out b
    using that emitsD(4)[OF that] op_length[OF assms(1)] op_length[OF emits_ok[OF that(1)]] by simp
  show ?thesis
  proof (cases fin)
    case False
    with 1 show ?thesis by (simp add: pretty_write_def Let_def)
  next
    case True
    then obtain w where w: "?out = w @ drop start str" "emits 0 (pb_dest st) w (pb_dest st1)"
      using 1(4) by blast
    show ?thesis
    proof (cases "start < length str")
      case False
      with 1 True w len[OF w(2)] show ?thesis by (simp add: pretty_write_def Let_def)
    next
      case more: True
      obtain b2 n where b2: "op_write ops (pb_dest st1) (drop start str) = Some (b2, n)"
        "emits 0 (pb_dest st1) (drop start str) b2" "n = 0 \<longrightarrow> bad b2"
        using more by (cases rule: write_cases[OF emits_ok[OF w(2)], of "drop start str"]) auto
      have e: "emits 0 (pb_dest st) ?out b2" unfolding w(1) by (rule emits_append[OF w(2) b2(2)])
      show ?thesis
        using 1 True more b2 e len[OF e] by (auto simp: pretty_write_def Let_def fmt_of_def)
    qed
  qed
qed

end

section \<open>Properties\<close>

lemma stack_formats:
  assumes "sb_ok b" "\<not> sb_bad b" "pb_dest st = b"
    and "fmt_fits (indent_size st) (pb_depth st, in_string st, escape_next st) s"
  shows "\<exists>st' n. pretty_write stack_ops st s = Some (st', n) \<and>
    (let out = fmt_text (indent_size st) (pb_depth st, in_string st, escape_next st) s in
     if sb_head b + length out \<le> sb_max b
     then sb_view (pb_dest st') = sb_view b @ out \<and> n = length out \<and>
       (pb_depth st', in_string st', escape_next st') =
         fmt_after (pb_depth st, in_string st, escape_next st) s
     else sb_bad (pb_dest st'))"
proof -
  have f: "stackb.fmt_of st = (pb_depth st, in_string st, escape_next st)" for st :: "stack_buffer pretty"
    by (simp add: stackb.fmt_of_def)
  obtain st' n where w: "pretty_write stack_ops st s = Some (st', n)"
    "stackb.emits 0 b (fmt_text (indent_size st) (stackb.fmt_of st) s) (pb_dest st')"
    "\<not> sb_bad (pb_dest st') \<longrightarrow> stackb.fmt_of st' = fmt_after (stackb.fmt_of st) s \<and>
       n = length (fmt_text (indent_size st) (stackb.fmt_of st) s)"
    using stackb.pretty_write_emits[of st s] assms by (auto simp: f)
  show ?thesis
    using w stack_outcome[OF w(2) assms(1,2)] by (auto simp: f Let_def not_le)
qed

text \<open>C18: \<open>PrettyBuffer::write\<close> in front of a \<open>StackBuffer\<close>: with room in the destination, and while
  the indentation stays below 256 characters, it appends the text the reference formatter gives and
  leaves the formatter's state after the text; when the formatted text does not fit, the failure is
  recorded in the destination.\<close>

theorem stack_pretty_write:
  assumes "sb_ok b" "\<not> sb_bad b" "pb_dest st = b"
    and "fmt_fits (indent_size st) (pb_depth st, in_string st, escape_next st) s"
  shows "\<exists>st' n. pretty_write stack_ops st s = Some (st', n) \<and>
    (let out = fmt_text (indent_size st) (pb_depth st, in_string st, escape_next st) s in
     if sb_head b + length out \<le> sb_max b
     then sb_view (pb_dest st') = sb_view b @ out \<and> n = length out \<and>
       (pb_depth st', in_string st', escape_next st') =
         fmt_after (pb_depth st, in_string st, escape_next st) s
     else sb_bad (pb_dest st'))"
  by (rule stack_formats[OF assms])

theorem stack_pretty_write_witness:
  "\<exists>st' n. pretty_write stack_ops (pretty_new (stack_buffer_new 16) 1) ''[1]'' = Some (st', n) \<and>
     sb_view (pb_dest st') = [CHR ''['', ch_lf, CHR '' '', CHR ''1'', ch_lf, CHR '']'']"
  using stack_pretty_write[of "stack_buffer_new 16" "pretty_new (stack_buffer_new 16) 1" "''[1]''"]
  by (auto simp: pretty_new_def indent_def)

text \<open>Formatting does not depend on how the caller cuts the text into calls of \<open>write\<close>, and removing
  the white space outside of strings from the formatted text gives the compact text back.\<close>

theorem pretty_is_lossless:
  assumes "compact (0, False, False) (s @ t)"
  shows "fmt_text ind (0, False, False) (s @ t) =
      fmt_text ind (0, False, False) s @ fmt_text ind (fmt_after (0, False, False) s) t \<and>
    strip (0, False, False) (fmt_text ind (0, False, False) (s @ t)) = s @ t"
  using fmt_text_append strip_fmt_text[OF assms] by blast

theorem pretty_is_lossless_witness:
  "strip (0, False, False) (fmt_text 2 (0, False, False) (''[1'' @ '',2]'')) = ''[1'' @ '',2]''"
proof -
  have "compact (0, False, False) (''[1'' @ '',2]'')" by simp
  from pretty_is_lossless[OF this] show ?thesis by (rule conjunct2)
qed

lemma fmt_fits_append: "fmt_fits ind f (s @ t) \<longleftrightarrow> fmt_fits ind f s \<and> fmt_fits ind (fmt_after f s) t"
  by (induction s arbitrary: f) (auto simp: fmt_after_def)

text \<open>Two calls of \<open>write\<close> on the parts of a text leave the same output as one call on the whole.\<close>

theorem pretty_chunks:
  assumes "sb_ok b" "\<not> sb_bad b" "pb_dest st = b"
    and "fmt_fits (indent_size st) (pb_depth st, in_string st, escape_next st) (s @ t)"
    and "sb_head b + length (fmt_text (indent_size st) (pb_depth st, in_string st, escape_next st) (s @ t)) \<le> sb_max b"
  shows "\<exists>st1 n1 st2 n2 st3 n3. pretty_write stack_ops st s = Some (st1, n1) \<and>
    pretty_write stack_ops st1 t = Some (st2, n2) \<and> pretty_write stack_ops st (s @ t) = Some (st3, n3) \<and>
    sb_view (pb_dest st2) = sb_view (pb_dest st3) \<and> n1 + n2 = n3"
proof -
  let ?f = "(pb_depth st, in_string st, escape_next st)" and ?ind = "indent_size st"
  let ?out = "fmt_text ?ind ?f s"
  have out: "fmt_text ?ind ?f (s @ t) = ?out @ fmt_text ?ind (fmt_after ?f s) t"
    by (rule fmt_text_append)
  note fits = assms(4)[unfolded fmt_fits_append] 
  obtain st1 n1 where 1: "pretty_write stack_ops st s = Some (st1, n1)" "stackb.emits 0 b ?out (pb_dest st1)"
    "indent_size st1 = ?ind" "\<not> sb_bad (pb_dest st1) \<longrightarrow>
      (pb_depth st1, in_string st1, escape_next st1) = fmt_after ?f s \<and> n1 = length ?out"
    using stackb.pretty_write_emits[of st s] assms(1,3) fits by (auto simp: stackb.fmt_of_def)
  have st1: "sb_ok (pb_dest st1)" "\<not> sb_bad (pb_dest st1)" "sb_view (pb_dest st1) = sb_view b @ ?out"
    "sb_max (pb_dest st1) = sb_max b" "(pb_depth st1, in_string st1, escape_next st1) = fmt_after ?f s"
    "n1 = length ?out"
    using stack_outcome[OF 1(2) assms(1,2)] assms(5) 1(4) by (auto simp: out)
  from st1(1,3) assms(1) have "sb_head (pb_dest st1) = sb_head b + length ?out"
    by (metis length_append length_sb_view)
  moreover have fits1: "fmt_fits (indent_size st1) (pb_depth st1, in_string st1, escape_next st1) t"
    using fits 1(3) st1(5) by simp
  ultimately obtain st2 n2 where 2: "pretty_write stack_ops st1 t = Some (st2, n2)"
    "sb_view (pb_dest st2) = (sb_view b @ ?out) @ fmt_text ?ind (fmt_after ?f s) t"
    "n2 = length (fmt_text ?ind (fmt_after ?f s) t)"
    using stack_formats[OF st1(1,2) refl fits1] assms(5) st1(3-5) 1(3) by (auto simp: out Let_def)
  obtain st3 n3 where 3: "pretty_write stack_ops st (s @ t) = Some (st3, n3)"
    "sb_view (pb_dest st3) = sb_view b @ ?out @ fmt_text ?ind (fmt_after ?f s) t"
    "n3 = length ?out + length (fmt_text ?ind (fmt_after ?f s) t)"
    using stack_formats[OF assms(1-4)] assms(5) by (auto simp: out Let_def)
  show ?thesis
    by (intro exI[of _ st1] exI[of _ n1] exI[of _ st2] exI[of _ n2] exI[of _ st3] exI[of _ n3])
      (simp add: 1(1) 2 3 st1(6))
qed

theorem pretty_chunks_witness:
  "\<exists>st1 n1 st2 n2 st3. pretty_write stack_ops (pretty_new (stack_buffer_new 16) 1) ''[1'' = Some (st1, n1) \<and>
    pretty_write stack_ops st1 '']'' = Some (st2, n2) \<and>
    pretty_write stack_ops (pretty_new (stack_buffer_new 16) 1) (''[1'' @ '']'') = Some (st3, n1 + n2)"
proof -
  let ?st = "pretty_new (stack_buffer_new 16) 1"
  have fits: "fmt_fits (indent_size ?st) (pb_depth ?st, in_string ?st, escape_next ?st) (''[1'' @ '']'')"
    "sb_head (stack_buffer_new 16) + length (fmt_text (indent_size ?st)
      (pb_depth ?st, in_string ?st, escape_next ?st) (''[1'' @ '']'')) \<le> sb_max (stack_buffer_new 16)"
    by (simp_all add: pretty_new_def indent_def)
  have "pb_dest ?st = stack_buffer_new 16" by (simp add: pretty_new_def)
  from pretty_chunks[OF _ _ this fits] show ?thesis by fastforce
qed

text \<open>C19: \<open>write_indent\<close> counts with a \<open>uint8_t\<close>: it does not return exactly when the indentation is 256
  characters or more.\<close>

theorem indentation_terminates:
  assumes "sb_ok (pb_dest st)"
  shows "(write_indent stack_ops st \<noteq> None) = (unat (pb_depth st) * unat (indent_size st) < 256)"
proof (cases "unat (pb_depth st) * unat (indent_size st) < 256")
  case True
  with stackb.indent_loop_emits[OF True _ assms, of 0] show ?thesis by (auto simp: write_indent_def)
next
  case False
  then show ?thesis by (simp add: write_indent_def indent_loop_diverges)
qed

theorem indentation_terminates_witness:
  "write_indent stack_ops ((pretty_new (stack_buffer_new 8) 4)\<lparr>pb_depth := 64\<rparr>) = None \<and>
   write_indent stack_ops ((pretty_new (stack_buffer_new 8) 4)\<lparr>pb_depth := 63\<rparr>) \<noteq> None"
  using indentation_terminates[of "(pretty_new (stack_buffer_new 8) 4)\<lparr>pb_depth := 64\<rparr>"]
    indentation_terminates[of "(pretty_new (stack_buffer_new 8) 4)\<lparr>pb_depth := 63\<rparr>"]
  by (auto simp: pretty_new_def)

end
