(* ===== verification/Ring.thy ===== *)
theory Ring
  imports Prelude
begin

text \<open>
  \<open>CircularHistoryBuffer\<close> (\<open>circular_history_buffer.hpp\<close>, \<open>circular_history_buffer.cpp\<close>): a ring of
  bytes with one writer at a time (the spin lock makes every method atomic), readers that keep
  their own absolute cursor, and four slots for listeners. The abstraction is the list of all bytes
  written (\<open>ring_rel\<close>); a reader is handed consecutive pieces of it. The log hook and the streaming
  loop of \<open>boot/network_logger.cpp\<close> run on top.
\<close>

section \<open>The buffer\<close>

text \<open>
  \<open>rb_buf\<close> is \<^const>\<open>None\<close> before a successful \<open>init\<close>. The counters are \<open>uint64_t\<close>, given as
  natural numbers with the wrap-around written out; a task handle is a number.
\<close>

record ring =
  rb_buf :: "bytes option"
  rb_size :: nat
  rb_total :: nat
  rb_listeners :: "nat option list"

definition ring_new :: ring where
  "ring_new = \<lparr>rb_buf = None, rb_size = 0, rb_total = 0, rb_listeners = replicate 4 None\<rparr>"

text \<open>\<open>init(size, caps)\<close>: \<open>block\<close> is what \<open>heap_caps_malloc\<close> returns.\<close>

definition ring_init :: "ring \<Rightarrow> nat \<Rightarrow> bytes option \<Rightarrow> ring \<times> bool" where
  "ring_init r sz block = (r\<lparr>rb_size := sz, rb_buf := block\<rparr>, block \<noteq> None)"

fun register_slot :: "nat \<Rightarrow> nat option list \<Rightarrow> nat option list" where
  "register_slot task [] = []"
| "register_slot task (None # ls) = Some task # ls"
| "register_slot task (Some l # ls) = Some l # register_slot task ls"

definition register_listener :: "ring \<Rightarrow> nat \<Rightarrow> ring" where
  "register_listener r task = r\<lparr>rb_listeners := register_slot task (rb_listeners r)\<rparr>"

definition remove_listener :: "ring \<Rightarrow> nat \<Rightarrow> ring" where
  "remove_listener r task =
     r\<lparr>rb_listeners := map (\<lambda>l. if l = Some task then None else l) (rb_listeners r)\<rparr>"

text \<open>
  \<open>write(data, len)\<close>: the new state and the tasks that are notified after the lock is released.
  Without storage or with size 0 the code divides by zero or stores through a null pointer.
\<close>

definition ring_write :: "ring \<Rightarrow> bytes \<Rightarrow> (ring \<times> nat list) option" where
  "ring_write r data =
     (case rb_buf r of
        None \<Rightarrow> None
      | Some buf \<Rightarrow>
        if rb_size r = 0 then None
        else
          let data = (if length data > rb_size r then drop (length data - rb_size r) data else data);
              len = length data;
              offset = rb_total r mod rb_size r;
              space_until_wrap = rb_size r - offset;
              buf = (if len \<le> space_until_wrap then blit buf offset data
                     else blit (blit buf offset (take space_until_wrap data)) 0 (drop space_until_wrap data))
          in Some (r\<lparr>rb_buf := Some buf, rb_total := (rb_total r + len) mod 2 ^ 64\<rparr>,
                   map the (filter (\<lambda>l. l \<noteq> None) (rb_listeners r))))"

text \<open>
  \<open>read_next(cursor, out_buf, max_len)\<close>: the new cursor and the bytes copied. The difference of the
  counters is cut to the 32 bits of \<open>size_t\<close>.
\<close>

definition read_next :: "ring \<Rightarrow> nat \<Rightarrow> nat \<Rightarrow> (nat \<times> bytes) option" where
  "read_next r cursor max_len =
     (let total = rb_total r; sz = rb_size r;
          cursor = (if cursor = 0 \<and> total > 0 then (if total > sz then total - sz else 0) else cursor);
          cursor = (if total > sz \<and> cursor < total - sz then total - sz else cursor);
          available = ((2 ^ 64 + total - cursor) mod 2 ^ 64) mod 2 ^ 32;
          to_read = min available max_len
      in if to_read > 0 then
           (case rb_buf r of
              None \<Rightarrow> None
            | Some buf \<Rightarrow>
              if sz = 0 then None
              else
                let offset = cursor mod sz;
                    space_until_wrap = sz - offset;
                    out = (if to_read \<le> space_until_wrap then substr buf offset to_read
                           else substr buf offset space_until_wrap @ substr buf 0 (to_read - space_until_wrap))
                in if length out = to_read then Some ((cursor + to_read) mod 2 ^ 64, out) else None)
         else Some (cursor, []))"

section \<open>The ring holds the end of the history\<close>

text \<open>\<open>h\<close> is the list of all bytes that entered the ring.\<close>

definition ring_rel :: "ring \<Rightarrow> bytes \<Rightarrow> bool" where
  "ring_rel r h \<longleftrightarrow> (\<exists>buf. rb_buf r = Some buf \<and> 0 < rb_size r \<and> rb_size r < 2 ^ 32 \<and>
     length buf = rb_size r \<and> rb_total r = length h \<and> length h < 2 ^ 64 \<and>
     (\<forall>p. length h \<le> p + rb_size r \<longrightarrow> p < length h \<longrightarrow> buf ! (p mod rb_size r) = h ! p))"

lemma ring_rel_init:
  "0 < sz \<Longrightarrow> sz < 2 ^ 32 \<Longrightarrow> length block = sz \<Longrightarrow>
    ring_rel (fst (ring_init ring_new sz (Some block))) []"
  by (simp add: ring_rel_def ring_init_def ring_new_def)

text \<open>The bytes of a write that enter the ring.\<close>

definition kept :: "ring \<Rightarrow> bytes \<Rightarrow> bytes" where
  "kept r data = drop (length data - rb_size r) data"

lemma length_kept: "length (kept r data) = min (length data) (rb_size r)"
  by (simp add: kept_def)

text \<open>The two copies store byte \<open>k\<close> of the data at position \<open>(offset + k) mod size\<close>.\<close>

lemma wrap_untouched:
  fixes off n j l :: nat
  assumes "off < n" "j < n" "l \<le> n" "\<And>k. k < l \<Longrightarrow> j \<noteq> (off + k) mod n"
  shows "if l \<le> n - off then j < off \<or> off + l \<le> j else l - (n - off) \<le> j \<and> j < off"
proof -
  have 1: "j < off \<or> off + l \<le> j"
  proof (rule ccontr)
    assume "\<not> ?thesis"
    then have "off \<le> j" "j - off < l" by auto
    with assms(4)[of "j - off"] assms(2) show False by simp
  qed
  have "l - (n - off) \<le> j" if "j < off"
  proof (rule ccontr)
    assume "\<not> ?thesis"
    then have "n - off + j < l" by linarith
    with assms(4)[OF this] assms(1,2) show False by simp
  qed
  with 1 assms(1-3) show ?thesis by auto
qed

lemma wrap_store:
  assumes "length buf = n" "off < n" "length d \<le> n"
  defines "buf' \<equiv> (if length d \<le> n - off then blit buf off d
      else blit (blit buf off (take (n - off) d)) 0 (drop (n - off) d))"
  shows "length buf' = n"
    and "k < length d \<Longrightarrow> buf' ! ((off + k) mod n) = d ! k"
    and "j < n \<Longrightarrow> (\<And>k. k < length d \<Longrightarrow> j \<noteq> (off + k) mod n) \<Longrightarrow> buf' ! j = buf ! j"
proof -
  show len: "length buf' = n"
    using assms(1-3) by (auto simp: buf'_def length_blit)
  show "buf' ! ((off + k) mod n) = d ! k" if "k < length d"
  proof (cases "length d \<le> n - off")
    case True
    with that assms(1,2) show ?thesis by (simp add: buf'_def nth_blit)
  next
    case False
    have "(off + k) mod n = (if off + k < n then off + k else off + k - n)"
      using that assms(2,3) by (auto simp: mod_if)
    with that assms(1-3) False show ?thesis
      by (auto simp: buf'_def nth_blit nth_append length_blit min_def)
  qed
  show "buf' ! j = buf ! j" if j: "j < n" "\<And>k. k < length d \<Longrightarrow> j \<noteq> (off + k) mod n"
    using wrap_untouched[OF assms(2) j(1) assms(3) j(2)] j(1) assms(1-3)
    by (auto simp: buf'_def nth_blit nth_append length_blit split: if_splits)
qed

lemma mod_distinct: "p < q \<Longrightarrow> q < p + n \<Longrightarrow> p mod n \<noteq> q mod (n :: nat)"
proof
  assume "p < q" "q < p + n" "p mod n = q mod n"
  then have "n dvd q - p" using mod_eq_dvd_iff_nat[of p q n] by simp
  with \<open>p < q\<close> \<open>q < p + n\<close> show False using nat_dvd_not_less[of "q - p" n] by simp
qed

lemma ring_write_rel:
  assumes rel: "ring_rel r h" and room: "length h + length (kept r data) < 2 ^ 64"
  obtains r' where "ring_write r data = Some (r', map the (filter (\<lambda>l. l \<noteq> None) (rb_listeners r)))"
    "ring_rel r' (h @ kept r data)" "rb_size r' = rb_size r" "rb_listeners r' = rb_listeners r"
proof -
  obtain buf where b: "rb_buf r = Some buf" "0 < rb_size r" "rb_size r < 2 ^ 32" "length buf = rb_size r"
    "rb_total r = length h" "\<And>p. length h \<le> p + rb_size r \<Longrightarrow> p < length h \<Longrightarrow> buf ! (p mod rb_size r) = h ! p"
    using rel by (auto simp: ring_rel_def)
  let ?n = "rb_size r" and ?d = "kept r data"
  let ?off = "length h mod ?n"
  define buf' where "buf' = (if length ?d \<le> ?n - ?off then blit buf ?off ?d
      else blit (blit buf ?off (take (?n - ?off) ?d)) 0 (drop (?n - ?off) ?d))"
  have off: "?off < ?n" and dn: "length ?d \<le> ?n" using b(2) by (simp_all add: length_kept)
  note store = wrap_store[OF b(4) off dn, folded buf'_def]
  have "(if length data > ?n then drop (length data - ?n) data else data) = ?d"
    by (simp add: kept_def)
  then have w: "ring_write r data = Some (r\<lparr>rb_buf := Some buf', rb_total := length h + length ?d\<rparr>,
      map the (filter (\<lambda>l. l \<noteq> None) (rb_listeners r)))"
    using b room by (simp add: ring_write_def buf'_def Let_def)
  have "buf' ! (p mod ?n) = (h @ ?d) ! p"
    if p: "length (h @ ?d) \<le> p + ?n" "p < length (h @ ?d)" for p
  proof (cases "p < length h")
    case True
    have "p mod ?n \<noteq> (?off + k) mod ?n" if "k < length ?d" for k
    proof
      assume "p mod ?n = (?off + k) mod ?n"
      then have "(length h + k) mod ?n = p mod ?n" by (simp add: mod_add_left_eq)
      moreover have "p < length h + k" "length h + k < p + ?n" using that True p(1) by auto
      ultimately show False
        using mod_distinct[of p "length h + k" ?n] by simp
    qed
    then have "buf' ! (p mod ?n) = buf ! (p mod ?n)" using store(3)[of "p mod ?n"] b(2) by simp
    with b(6)[of p] True p(1) show ?thesis by (simp add: nth_append)
  next
    case False
    then have "(?off + (p - length h)) mod ?n = p mod ?n"
      using mod_add_left_eq[of "length h" ?n "p - length h"] by simp
    with store(2)[of "p - length h"] False p(2) show ?thesis by (simp add: nth_append)
  qed
  then have "ring_rel (r\<lparr>rb_buf := Some buf', rb_total := length h + length ?d\<rparr>) (h @ ?d)"
    using b(2,3) store(1) room by (simp add: ring_rel_def)
  from that[OF w this] show ?thesis by simp
qed

text \<open>Where a reader continues, and what it gets.\<close>

definition resume :: "ring \<Rightarrow> bytes \<Rightarrow> nat \<Rightarrow> nat" where
  "resume r h cursor = max cursor (length h - rb_size r)"

lemma wrap_read:
  assumes "length buf = n" "off < n" "m \<le> n" "k < m"
  shows "(if m \<le> n - off then substr buf off m
      else substr buf off (n - off) @ substr buf 0 (m - (n - off))) ! k = buf ! ((off + k) mod n)"
proof -
  have "(off + k) mod n = (if off + k < n then off + k else off + k - n)"
    using assms by (auto simp: mod_if)
  then show ?thesis using assms by (auto simp: substr_def nth_append add.commute)
qed

lemma read_next_rel:
  assumes rel: "ring_rel r h" and "cursor \<le> length h"
  shows "read_next r cursor max_len =
    Some (resume r h cursor + length (take max_len (drop (resume r h cursor) h)),
          take max_len (drop (resume r h cursor) h))"
proof -
  obtain buf where b: "rb_buf r = Some buf" "0 < rb_size r" "rb_size r < 2 ^ 32" "length buf = rb_size r"
    "rb_total r = length h" "length h < 2 ^ 64"
    "\<And>p. length h \<le> p + rb_size r \<Longrightarrow> p < length h \<Longrightarrow> buf ! (p mod rb_size r) = h ! p"
    using rel by (auto simp: ring_rel_def)
  let ?n = "rb_size r" and ?c = "resume r h cursor"
  have c: "?c \<le> length h" "length h \<le> ?c + ?n" using assms(2) by (auto simp: resume_def)
  have cur: "(if length h > ?n \<and> (if cursor = 0 \<and> length h > 0 then (if length h > ?n then length h - ?n else 0) else cursor) < length h - ?n
      then length h - ?n else (if cursor = 0 \<and> length h > 0 then (if length h > ?n then length h - ?n else 0) else cursor)) = ?c"
    by (auto simp: resume_def)
  have "(2 ^ 64 + length h - ?c) mod 2 ^ 64 = length h - ?c"
    using c(1) b(6) by (simp add: mod_if)
  then have avail: "((2 ^ 64 + length h - ?c) mod 2 ^ 64) mod 2 ^ 32 = length h - ?c"
    using c b(3) by simp
  define m where "m = min (length h - ?c) max_len"
  let ?off = "?c mod ?n"
  define out where "out = (if m \<le> ?n - ?off then substr buf ?off m
      else substr buf ?off (?n - ?off) @ substr buf 0 (m - (?n - ?off)))"
  have off: "?off < ?n" and mn: "m \<le> ?n" using b(2) c by (auto simp: m_def)
  have len: "length out = m"
    using off mn b(4) by (auto simp: out_def substr_def)
  have "out ! k = h ! (?c + k)" if k: "k < m" for k
  proof -
    have "out ! k = buf ! ((?off + k) mod ?n)"
      unfolding out_def by (rule wrap_read[OF b(4) off mn k])
    also have "(?off + k) mod ?n = (?c + k) mod ?n" by (simp add: mod_add_left_eq)
    also have "buf ! ((?c + k) mod ?n) = h ! (?c + k)"
      using k c by (intro b(7)) (auto simp: m_def)
    finally show ?thesis .
  qed
  then have out: "out = take max_len (drop ?c h)"
    using len c(1) by (intro nth_equalityI) (simp_all add: m_def min.commute)
  have r: "read_next r cursor max_len =
      (if m > 0 then (if length out = m then Some ((?c + m) mod 2 ^ 64, out) else None) else Some (?c, []))"
    unfolding read_next_def Let_def b(5) cur avail m_def[symmetric]
    using b(1,2) by (simp add: out_def)
  have "?c + m \<le> length h" using c(1) by (simp add: m_def)
  then have "(?c + m) mod 2 ^ 64 = ?c + m" using b(6) by (intro mod_less) simp
  then have "read_next r cursor max_len = Some (?c + m, out)"
    using r len by (cases "m = 0") simp_all
  then show ?thesis using len unfolding out by simp
qed

section \<open>Readers\<close>

text \<open>A reader that is not interrupted: at most \<open>fuel\<close> calls with the same buffer size.\<close>

fun drain :: "nat \<Rightarrow> ring \<Rightarrow> nat \<Rightarrow> nat \<Rightarrow> (nat \<times> bytes) option" where
  "drain 0 r cursor max_len = Some (cursor, [])"
| "drain (Suc fuel) r cursor max_len =
     (case read_next r cursor max_len of
        None \<Rightarrow> None
      | Some (cursor', out) \<Rightarrow>
        if out = [] then Some (cursor', [])
        else map_option (\<lambda>(c, rest). (c, out @ rest)) (drain fuel r cursor' max_len))"

lemma resume_step: "resume r h (resume r h cursor + k) = resume r h cursor + k"
  by (simp add: resume_def)

lemma drain_rel:
  assumes rel: "ring_rel r h" and "0 < max_len"
  shows "cursor \<le> length h \<Longrightarrow> length h - resume r h cursor < fuel \<Longrightarrow>
    drain fuel r cursor max_len = Some (length h, drop (resume r h cursor) h)"
proof (induction fuel arbitrary: cursor)
  case (Suc fuel)
  let ?c = "resume r h cursor" and ?out = "take max_len (drop (resume r h cursor) h)"
  have c: "?c \<le> length h" using Suc.prems(1) by (simp add: resume_def)
  note step = read_next_rel[OF rel Suc.prems(1), of max_len]
  show ?case
  proof (cases "?out = []")
    case True
    with c assms(2) have "?c = length h" by auto
    with step show ?thesis by simp
  next
    case False
    have le: "?c + length ?out \<le> length h" using c by simp
    have "length h - resume r h (?c + length ?out) < fuel"
      unfolding resume_step using False Suc.prems(2) c by auto
    from Suc.IH[OF le this] have "drain fuel r (?c + length ?out) max_len =
        Some (length h, drop (?c + length ?out) h)" by (simp only: resume_step)
    moreover have "?out @ drop (?c + length ?out) h = drop ?c h"
      using append_take_drop_id[of max_len "drop ?c h"] by (cases "max_len \<le> length h - ?c") (auto simp: add.commute)
    ultimately show ?thesis using False step by simp
  qed
qed simp

section \<open>The network logger\<close>

text \<open>
  \<open>log_hook\<close> of \<open>boot/network_logger.cpp\<close>: \<open>formatted\<close> is the full text \<open>vsnprintf\<close> formats,
  \<^const>\<open>None\<close> an error. The local buffer has 256 bytes, of which 255 carry text; \<open>vsnprintf\<close> returns
  the full length, and copying that many bytes out of the local buffer is only defined up to its end.
\<close>

definition log_hook :: "ring \<Rightarrow> bytes option \<Rightarrow> (ring \<times> nat list) option" where
  "log_hook r formatted =
     (case formatted of
        None \<Rightarrow> Some (r, [])
      | Some s \<Rightarrow>
        if length s > 0 then
          (if length s \<le> 256 then ring_write r (if length s \<le> 255 then s else take 255 s @ [ch_nul]) else None)
        else Some (r, []))"

text \<open>
  The body of \<open>stream_log_handler\<close>: one round of its loop, with the results of the calls into the
  server and the kernel as parameters: \<open>sent\<close> says whether \<open>httpd_resp_send_chunk\<close> returned
  \<open>ESP_OK\<close>, \<open>notified\<close> what \<open>ulTaskNotifyTake\<close> returned. The result is the new cursor, the chunk sent and
  whether the loop goes on.
\<close>

definition stream_round :: "ring \<Rightarrow> nat \<Rightarrow> bool \<Rightarrow> nat \<Rightarrow> (nat \<times> bytes \<times> bool) option" where
  "stream_round r cursor sent notified =
     do { (cursor, chunk) \<leftarrow> read_next r cursor 512;
          if length chunk > 0 then Some (cursor, chunk, sent)
          else if notified = 0 then Some (cursor, [ch_lf], sent)
          else Some (cursor, [], True) }"

text \<open>The whole handler, over the sequence of what happens in each round (other tasks' writes
  first), up to the round in which the connection is dropped.\<close>

datatype stream_event = Round "bytes list" bool nat

fun ring_writes :: "ring \<Rightarrow> bytes list \<Rightarrow> ring option" where
  "ring_writes r [] = Some r"
| "ring_writes r (d # ds) = do { (r, _) \<leftarrow> ring_write r d; ring_writes r ds }"

fun stream_loop :: "ring \<Rightarrow> nat \<Rightarrow> stream_event list \<Rightarrow> (ring \<times> bytes list) option" where
  "stream_loop r cursor [] = Some (r, [])"
| "stream_loop r cursor (Round ds sent notified # es) =
     do { r \<leftarrow> ring_writes r ds;
          (cursor, chunk, go) \<leftarrow> stream_round r cursor sent notified;
          if go then do { (r, chunks) \<leftarrow> stream_loop r cursor es; Some (r, chunk # chunks) }
          else Some (r, [chunk]) }"

definition stream_log_handler :: "ring \<Rightarrow> nat \<Rightarrow> stream_event list \<Rightarrow> (ring \<times> bytes list) option" where
  "stream_log_handler r task es =
     do { (r, chunks) \<leftarrow> stream_loop (register_listener r task) 0 es;
          Some (remove_listener r task, chunks) }"

lemma ring_rel_listeners [simp]: "ring_rel (r\<lparr>rb_listeners := ls\<rparr>) h = ring_rel r h"
  by (simp add: ring_rel_def)

lemma ring_rel_register [simp]:
  "ring_rel (register_listener r t) h = ring_rel r h" "ring_rel (remove_listener r t) h = ring_rel r h"
  by (simp_all add: register_listener_def remove_listener_def)

lemma register_slot_length [simp]: "length (register_slot t ls) = length ls"
  by (induction t ls rule: register_slot.induct) auto

lemma register_slot_in: "None \<in> set ls \<Longrightarrow> Some t \<in> set (register_slot t ls)"
  by (induction t ls rule: register_slot.induct) auto

lemma register_slot_keeps: "Some l \<in> set ls \<Longrightarrow> Some l \<in> set (register_slot t ls)"
  by (induction t ls rule: register_slot.induct) auto

section \<open>Properties\<close>

text \<open>C20: A reader of the \<open>CircularHistoryBuffer\<close> that keeps its cursor is handed, in pieces of at most
  \<open>max_len\<close> bytes, exactly the rest of the history from its cursor on, or from the oldest byte that is
  still in the ring when the writer has overtaken it; a piece is never torn by the wrap-around.\<close>

theorem ring_read:
  assumes "ring_rel r h" "cursor \<le> length h"
  shows "read_next r cursor max_len =
    (let from = max cursor (length h - rb_size r); out = take max_len (drop from h)
     in Some (from + length out, out))"
  using read_next_rel[OF assms] by (simp add: resume_def Let_def)

theorem ring_read_witness:
  "\<exists>r. ring_rel r ''abcdef'' \<and> rb_size r = 4 \<and> read_next r 1 3 = Some (5, ''cde'')"
proof -
  let ?r = "\<lparr>rb_buf = Some ''efcd'', rb_size = 4, rb_total = 6, rb_listeners = []\<rparr>"
  have rel: "ring_rel ?r ''abcdef''"
  proof -
    have "''efcd'' ! (p mod 4) = ''abcdef'' ! p" if "6 \<le> p + 4" "p < 6" for p
    proof -
      have "p = 2 \<or> p = 3 \<or> p = 4 \<or> p = 5" using that by linarith
      then show ?thesis by auto
    qed
    then show ?thesis by (simp add: ring_rel_def del: nth_Cons_numeral)
  qed
  from ring_read[OF rel, of 1 3] rel show ?thesis by (intro exI[of _ ?r]) simp
qed

text \<open>C21: A write stores the last \<open>size\<close> bytes of what it is given: the ring then holds the end of the
  extended history, every registered listener is notified once, and the listeners are unchanged.\<close>

theorem ring_write_history:
  assumes "ring_rel r h" "length h + length data < 2 ^ 64"
  shows "\<exists>r'. ring_write r data = Some (r', map the (filter (\<lambda>l. l \<noteq> None) (rb_listeners r))) \<and>
    ring_rel r' (h @ drop (length data - rb_size r) data) \<and> rb_listeners r' = rb_listeners r"
proof -
  have "length h + length (kept r data) < 2 ^ 64" using assms(2) by (simp add: length_kept)
  from ring_write_rel[OF assms(1) this] show ?thesis by (metis kept_def)
qed

theorem ring_write_history_witness:
  "\<exists>r'. ring_write (fst (ring_init ring_new 4 (Some (replicate 4 ch_nul)))) ''abcdef'' = Some (r', []) \<and>
    ring_rel r' ''cdef''"
proof -
  let ?r = "fst (ring_init ring_new 4 (Some (replicate 4 ch_nul)))"
  have "ring_rel ?r []" by (rule ring_rel_init) simp_all
  from ring_write_history[OF this, of "''abcdef''"] show ?thesis
    by (auto simp: ring_init_def ring_new_def)
qed

text \<open>Draining: after a burst of writes, repeated reads with any chunk size end with the cursor at
  the end of the history and have returned everything from the cursor on that is still in the ring.\<close>

theorem ring_drain:
  assumes "ring_rel r h" "0 < max_len" "cursor \<le> length h" "length h < fuel"
  shows "drain fuel r cursor max_len = Some (length h, drop (max cursor (length h - rb_size r)) h)"
  using drain_rel[OF assms(1,2,3), of fuel] assms(4) by (simp add: resume_def)

theorem ring_drain_witness:
  "drain 1 (fst (ring_init ring_new 4 (Some (replicate 4 ch_nul)))) 0 3 = Some (0, [])"
proof -
  let ?r = "fst (ring_init ring_new 4 (Some (replicate 4 ch_nul)))"
  have "ring_rel ?r []" by (rule ring_rel_init) simp_all
  from ring_drain[OF this, of 3 0 1] show ?thesis by simp
qed

text \<open>The log hook copies at most 255 characters of a line, but passes the length that \<open>vsnprintf\<close>
  would have needed: for a line of more than 256 characters the ring is written from beyond the end of
  the hook's buffer, which has no defined result.\<close>

theorem log_hook_long_line:
  assumes "ring_rel r h" "length h + length s < 2 ^ 64" "s \<noteq> []"
  shows "(log_hook r (Some s) \<noteq> None) = (length s \<le> 256)"
proof (cases "length s \<le> 256")
  case True
  define d where "d = (if length s \<le> 255 then s else take 255 s @ [ch_nul])"
  have "length d \<le> length s" by (auto simp: d_def)
  then have "length h + length (kept r d) < 2 ^ 64" using assms(2) by (simp add: length_kept)
  from ring_write_rel[OF assms(1) this] obtain r' ns where "ring_write r d = Some (r', ns)" by metis
  with True assms(3) show ?thesis by (simp add: log_hook_def d_def)
next
  case False
  with assms(3) show ?thesis by (simp add: log_hook_def)
qed

theorem log_hook_long_line_witness:
  "log_hook (fst (ring_init ring_new 4 (Some (replicate 4 ch_nul)))) (Some (replicate 300 (CHR ''x''))) = None"
proof -
  let ?r = "fst (ring_init ring_new 4 (Some (replicate 4 ch_nul)))"
  have "ring_rel ?r []" by (rule ring_rel_init) simp_all
  from log_hook_long_line[OF this, of "replicate 300 (CHR ''x'')"] show ?thesis by (simp del: not_None_eq)
qed

end
