(* ===== verification/Result.thy ===== *)
theory Result
  imports Prelude
begin

text \<open>
  \<open>EspResult\<close>, \<open>EspResult<void>\<close> and \<open>EspError\<close> (\<open>esp_result.hpp\<close>): the value-or-error wrapper that
  the system code returns. An \<open>esp_err_t\<close> is an integer; \<open>ESP_OK\<close> is 0. What is shown is that the
  error code and the optional value never disagree, whichever way a result is made, so that a result
  that tests true always has a value.
\<close>

section \<open>Error codes\<close>

type_synonym esp_err = int

abbreviation ESP_OK :: esp_err where "ESP_OK \<equiv> 0"
abbreviation ESP_FAIL :: esp_err where "ESP_FAIL \<equiv> -1"
abbreviation ESP_ERR_NO_MEM :: esp_err where "ESP_ERR_NO_MEM \<equiv> 0x101"
abbreviation ESP_ERR_INVALID_STATE :: esp_err where "ESP_ERR_INVALID_STATE \<equiv> 0x103"
abbreviation ESP_ERR_INVALID_SIZE :: esp_err where "ESP_ERR_INVALID_SIZE \<equiv> 0x104"

section \<open>Results\<close>

text \<open>\<open>EspResult<T>\<close>: the code of the base class and \<open>value_\<close>. \<open>EspResult<void>\<close> has the code only.\<close>

record 'a esp_result =
  res_err :: esp_err
  res_value :: "'a option"

text \<open>\<open>fail(e)\<close>, \<open>ok(val)\<close> and the implicit constructors from an \<open>esp_err_t\<close> and from an \<open>EspError\<close>;
  \<open>d\<close> is the default-constructed \<open>T\<close>.\<close>

definition result_fail :: "esp_err \<Rightarrow> 'a esp_result" where
  "result_fail e = \<lparr>res_err = (if e = ESP_OK then ESP_FAIL else e), res_value = None\<rparr>"

definition result_ok :: "'a \<Rightarrow> 'a esp_result" where
  "result_ok v = \<lparr>res_err = ESP_OK, res_value = Some v\<rparr>"

definition result_of_err :: "'a \<Rightarrow> esp_err \<Rightarrow> 'a esp_result" where
  "result_of_err d e = \<lparr>res_err = e, res_value = (if e = ESP_OK then Some d else None)\<rparr>"

definition result_of_error :: "'a \<Rightarrow> esp_err \<Rightarrow> 'a esp_result" where
  "result_of_error d e = \<lparr>res_err = e, res_value = (if e = ESP_OK then Some d else None)\<rparr>"

definition result_bool :: "'a esp_result \<Rightarrow> bool" where
  "result_bool r \<longleftrightarrow> res_err r = ESP_OK"

text \<open>\<open>operator*\<close>: the value of an empty optional has no defined result.\<close>

definition deref :: "'a esp_result \<Rightarrow> 'a option" where
  "deref r = res_value r"

definition strip_result :: "'a esp_result \<Rightarrow> esp_err" where
  "strip_result r = res_err r"

text \<open>\<open>log_error(tag, msg)\<close> returns what it is called on; the second component is the line it logs.\<close>

definition log_error :: "bytes \<Rightarrow> bytes \<Rightarrow> 'a esp_result \<Rightarrow> 'a esp_result \<times> (bytes \<times> bytes \<times> esp_err) list" where
  "log_error tag msg r = (r, if res_err r \<noteq> ESP_OK then [(tag, msg, res_err r)] else [])"

text \<open>\<open>EspError\<close>: the test is inverted; \<open>check(res, out_val)\<close> moves the value out on success
  (\<open>out\<close> is \<^const>\<open>None\<close> for a null pointer). Dereferencing has no defined result for an empty
  optional.\<close>

definition error_bool :: "esp_err \<Rightarrow> bool" where
  "error_bool e \<longleftrightarrow> e \<noteq> ESP_OK"

definition error_check :: "'a esp_result \<Rightarrow> 'a option \<Rightarrow> (esp_err \<times> 'a option) option" where
  "error_check r out =
     (if result_bool r \<and> out \<noteq> None then do { v \<leftarrow> deref r; Some (res_err r, Some v) }
      else Some (res_err r, out))"

text \<open>
  \<open>EspResult<void>\<close> has no value: it is made from a code (\<open>ESP_OK\<close> by default) or from an \<open>EspError\<close>, whose code is
  that of a plain code or of any result; \<open>log\<close> and \<open>log_error\<close> give the line they log.
\<close>

definition void_result :: "esp_err option \<Rightarrow> unit esp_result" where
  "void_result e = \<lparr>res_err = (case e of None \<Rightarrow> ESP_OK | Some e \<Rightarrow> e), res_value = None\<rparr>"

definition void_log_error :: "bytes \<Rightarrow> bytes \<Rightarrow> unit esp_result \<Rightarrow> unit esp_result \<times> (bytes \<times> bytes \<times> esp_err) list" where
  "void_log_error tag msg r = (r, if res_err r \<noteq> ESP_OK then [(tag, msg, res_err r)] else [])"

definition error_of_result :: "'a esp_result \<Rightarrow> esp_err" where
  "error_of_result r = res_err r"

definition error_log :: "bytes \<Rightarrow> bytes \<Rightarrow> esp_err \<Rightarrow> esp_err \<times> (bytes \<times> bytes \<times> esp_err) list" where
  "error_log tag msg e = (e, if e \<noteq> ESP_OK then [(tag, msg, e)] else [])"

definition error_check_void :: "unit esp_result \<Rightarrow> esp_err" where
  "error_check_void r = error_of_result r"

text \<open>\<open>ESP_ERROR_CHECK\<close> of the host build aborts the program (\<^const>\<open>None\<close>).\<close>

definition esp_error_check :: "esp_err \<Rightarrow> unit option" where
  "esp_error_check e = (if e \<noteq> ESP_OK then None else Some ())"

section \<open>Consistency\<close>

definition result_sound :: "'a esp_result \<Rightarrow> bool" where
  "result_sound r \<longleftrightarrow> (res_err r = ESP_OK \<longleftrightarrow> res_value r \<noteq> None)"

lemmas result_defs = result_fail_def result_ok_def result_of_err_def result_of_error_def
  result_bool_def deref_def strip_result_def result_sound_def

lemma result_sound_intros [simp]:
  "result_sound (result_fail e)" "result_sound (result_ok v)" "result_sound (result_of_err d e)"
  "result_sound (result_of_error d e)" "result_sound (fst (log_error tag msg r)) = result_sound r"
  by (simp_all add: result_defs log_error_def)

lemma result_fail_err [simp]: "res_err (result_fail e) \<noteq> ESP_OK"
  by (simp add: result_defs)

lemma result_ok_sel [simp]: "res_err (result_ok v) = ESP_OK" "res_value (result_ok v) = Some v"
  by (simp_all add: result_defs)

section \<open>Properties\<close>

text \<open>However a result is made, it tests true exactly when it holds a value: \<open>fail\<close> never makes a
  success, an implicit \<open>ESP_OK\<close> default-constructs the value, and so \<open>operator*\<close> and
  \<open>EspError::check\<close> on a checked result always have a value to give.\<close>

theorem result_consistent:
  assumes "r \<in> {result_fail e, result_ok v, result_of_err d e, result_of_error d e}"
  shows "(result_bool r \<longleftrightarrow> deref r \<noteq> None) \<and> \<not> result_bool (result_fail e :: 'a esp_result) \<and>
    error_check r (Some out) = Some (strip_result r, Some (if result_bool r then the (deref r) else out))"
  using assms by (auto simp: result_defs error_check_def split: if_splits)

theorem result_consistent_witness:
  "error_check (result_of_err (0 :: nat) ESP_OK) (Some 7) = Some (ESP_OK, Some 0)"
  using result_consistent[of "result_of_err (0 :: nat) ESP_OK" ESP_OK 1 0 7]
  by (simp add: result_defs)

end
