(* ===== verification/Net_Logger.thy ===== *)
theory Net_Logger
  imports Ring Result
begin

text \<open>
  The set-up of the network logger (\<open>boot/network_logger.cpp\<close>) and the routes of the HTTP server
  (\<open>boot/favicon_route.cpp\<close> too): the hook that copies the log into the ring and calls what it
  replaced, and the registration of the handlers at a server of ESP-IDF, whose functions are the
  parameter \<open>api\<close> with the laws of the locale \<open>http_server\<close>.
\<close>

section \<open>The hook\<close>

text \<open>
  The functions that can be installed with \<open>esp_log_set_vprintf\<close>: \<open>log_hook\<close> and those of the platform.
  The state is \<open>buffer_\<close>, \<open>original_vprintf_\<close> (a null pointer at first), the installed function, what the
  functions of the platform have printed and which tasks have been notified.
\<close>

datatype vprintf_like = Platform nat | LogHook

record logger =
  lg_ring :: ring
  original_vprintf :: "vprintf_like option"
  installed :: vprintf_like
  printed :: "(nat \<times> bytes option) list"
  woken :: "nat list"

text \<open>
  A call of one of these functions; \<open>formatted\<close> is what \<open>vsnprintf\<close> makes of the format with its arguments.
  \<open>log_hook\<close> hands the \<open>va_list\<close> to \<open>vsnprintf\<close> and then, without a \<open>va_copy\<close>, to the function it replaced. The
  standard leaves it indeterminate by then: \<open>consumed\<close> says that it has been read, and \<open>reused\<close> is what the
  platform makes of the format with a \<open>va_list\<close> in that state.
\<close>

definition read_args :: "(bytes option \<Rightarrow> bytes option) \<Rightarrow> bool \<Rightarrow> bytes option \<Rightarrow> bytes option" where
  "read_args reused consumed formatted = (if consumed then reused formatted else formatted)"

partial_function (option) call_vprintf ::
  "(bytes option \<Rightarrow> bytes option) \<Rightarrow> vprintf_like \<Rightarrow> bool \<Rightarrow> bytes option \<Rightarrow> logger \<Rightarrow> logger option"
where
  "call_vprintf reused f consumed formatted lg =
     (case f of
        Platform k \<Rightarrow> Some (lg\<lparr>printed := printed lg @ [(k, read_args reused consumed formatted)]\<rparr>)
      | LogHook \<Rightarrow>
          do { (r, ts) \<leftarrow> log_hook (lg_ring lg) (read_args reused consumed formatted);
               g \<leftarrow> original_vprintf lg;
               call_vprintf reused g True formatted (lg\<lparr>lg_ring := r, woken := woken lg @ ts\<rparr>) })"

declare call_vprintf.simps [code]

text \<open>\<open>ESP_LOGx\<close> calls the installed function.\<close>

definition esp_log :: "(bytes option \<Rightarrow> bytes option) \<Rightarrow> bytes option \<Rightarrow> logger \<Rightarrow> logger option" where
  "esp_log reused formatted lg = call_vprintf reused (installed lg) False formatted lg"

text \<open>\<open>block\<close> is what \<open>heap_caps_malloc\<close> returns, \<open>failure\<close> the line that is logged.\<close>

definition initialize_network_logger ::
  "(bytes option \<Rightarrow> bytes option) \<Rightarrow> nat \<Rightarrow> bytes option \<Rightarrow> bytes option \<Rightarrow> logger \<Rightarrow> logger option"
where
  "initialize_network_logger reused size_bytes block failure lg =
     (let (r, ok) = ring_init (lg_ring lg) size_bytes block; lg = lg\<lparr>lg_ring := r\<rparr>
      in if \<not> ok then esp_log reused failure lg
         else Some (lg\<lparr>original_vprintf := Some (installed lg), installed := LogHook\<rparr>))"

definition logger_boot :: "nat \<Rightarrow> logger" where
  "logger_boot k = \<lparr>lg_ring = ring_new, original_vprintf = None, installed = Platform k, printed = [], woken = []\<rparr>"

lemma call_platform [simp]: "call_vprintf reused (Platform k) consumed formatted lg =
    Some (lg\<lparr>printed := printed lg @ [(k, read_args reused consumed formatted)]\<rparr>)"
  by (simp add: call_vprintf.simps)

text \<open>A hook that has replaced itself calls itself for ever.\<close>

lemma hooked_twice_diverges:
  assumes "original_vprintf lg = Some LogHook"
  shows "call_vprintf reused LogHook consumed formatted lg = None"
proof (rule ccontr)
  assume "call_vprintf reused LogHook consumed formatted lg \<noteq> None"
  then obtain lg' where "call_vprintf reused LogHook consumed formatted lg = Some lg'" by auto
  then have "LogHook = LogHook \<longrightarrow> original_vprintf lg = Some LogHook \<longrightarrow> False"
  proof (rule call_vprintf.raw_induct[rotated, where P = "\<lambda>_ f _ _ l _. f = LogHook \<longrightarrow> original_vprintf l = Some LogHook \<longrightarrow> False"])
    fix call reused' f consumed' formatted' l l'
    assume IH: "\<And>u f c s l l'. call u f c s l = Some l' \<Longrightarrow> f = LogHook \<longrightarrow> original_vprintf l = Some LogHook \<longrightarrow> False"
      and "(case f of Platform k \<Rightarrow> Some (l\<lparr>printed := printed l @ [(k, read_args reused' consumed' formatted')]\<rparr>)
        | LogHook \<Rightarrow> do { (r, ts) \<leftarrow> log_hook (lg_ring l) (read_args reused' consumed' formatted'); g \<leftarrow> original_vprintf l;
            call reused' g True formatted' (l\<lparr>lg_ring := r, woken := woken l @ ts\<rparr>) }) = Some l'"
    then show "f = LogHook \<longrightarrow> original_vprintf l = Some LogHook \<longrightarrow> False"
      using IH by (fastforce split: Option.bind_splits vprintf_like.splits)
  qed
  with assms show False by simp
qed

text \<open>Lines written through the hook; what enters the ring of each.\<close>

fun esp_logs :: "(bytes option \<Rightarrow> bytes option) \<Rightarrow> bytes list \<Rightarrow> logger \<Rightarrow> logger option" where
  "esp_logs reused [] lg = Some lg"
| "esp_logs reused (s # ss) lg = do { lg \<leftarrow> esp_log reused (Some s) lg; esp_logs reused ss lg }"

definition entering :: "nat \<Rightarrow> bytes \<Rightarrow> bytes" where
  "entering sz s = drop (length s - sz) s"

lemma esp_log_hooked:
  assumes "installed lg = LogHook" "original_vprintf lg = Some (Platform k)" "ring_rel (lg_ring lg) h"
    and "length s \<le> 255" "length h + length (entering (rb_size (lg_ring lg)) s) < 2 ^ 64"
  obtains r ts where "esp_log reused (Some s) lg =
      Some (lg\<lparr>lg_ring := r, woken := woken lg @ ts, printed := printed lg @ [(k, reused (Some s))]\<rparr>)"
    "ring_rel r (h @ entering (rb_size (lg_ring lg)) s)" "rb_size r = rb_size (lg_ring lg)"
proof (cases "s = []")
  case True
  show ?thesis by (rule that[where r = "lg_ring lg" and ts = "[]"])
      (use assms True in \<open>simp_all add: esp_log_def call_vprintf.simps log_hook_def entering_def read_args_def\<close>)
next
  case False
  have "length h + length (kept (lg_ring lg) s) < 2 ^ 64" using assms(5) by (simp add: kept_def entering_def)
  from ring_write_rel[OF assms(3) this] obtain r ts where r: "ring_write (lg_ring lg) s = Some (r, ts)"
    "ring_rel r (h @ kept (lg_ring lg) s)" "rb_size r = rb_size (lg_ring lg)" by metis
  show ?thesis
    by (rule that[where r = r and ts = ts])
      (use assms False r in \<open>simp_all add: esp_log_def call_vprintf.simps[of _ LogHook] log_hook_def kept_def
        entering_def read_args_def\<close>)
qed

lemma esp_logs_hooked:
  assumes "installed lg = LogHook" "original_vprintf lg = Some (Platform k)" "ring_rel (lg_ring lg) h"
    and "rb_size (lg_ring lg) = sz" "\<forall>s\<in>set ss. length s \<le> 255"
    and "length h + length (concat (map (entering sz) ss)) < 2 ^ 64"
  shows "\<exists>lg'. esp_logs reused ss lg = Some lg' \<and> ring_rel (lg_ring lg') (h @ concat (map (entering sz) ss)) \<and>
    printed lg' = printed lg @ map (\<lambda>s. (k, reused (Some s))) ss"
  using assms
proof (induction ss arbitrary: lg h)
  case (Cons s ss)
  have s: "length s \<le> 255" "length h + length (entering (rb_size (lg_ring lg)) s) < 2 ^ 64" using Cons.prems by auto
  from esp_log_hooked[OF Cons.prems(1-3) s, of reused] obtain r ts where r: "esp_log reused (Some s) lg =
      Some (lg\<lparr>lg_ring := r, woken := woken lg @ ts, printed := printed lg @ [(k, reused (Some s))]\<rparr>)"
    "ring_rel r (h @ entering sz s)" "rb_size r = sz" using Cons.prems(4) by blast
  let ?lg = "lg\<lparr>lg_ring := r, woken := woken lg @ ts, printed := printed lg @ [(k, reused (Some s))]\<rparr>"
  show ?case using Cons.IH[of ?lg "h @ entering sz s"] Cons.prems r by simp
qed simp

section \<open>Routes\<close>

text \<open>
  The URI handlers of the library; all are registered for \<open>GET\<close>. \<open>index_handler\<close> sends the compressed
  page that the build embeds; \<open>send\<close> gives the result of \<open>httpd_resp_send\<close>.
\<close>

datatype uri_handler = IndexHandler | StreamLogHandler | FaviconHandler

record httpd_uri =
  uri :: bytes
  route_handler :: uri_handler

record httpd_config =
  max_open_sockets :: nat
  lru_purge_enable :: bool

record response =
  resp_type :: bytes
  resp_headers :: "(bytes \<times> bytes) list"
  resp_body :: bytes

definition index_handler :: "bytes \<Rightarrow> (response \<Rightarrow> esp_err) \<Rightarrow> response \<times> esp_err" where
  "index_handler page send =
     (let r = \<lparr>resp_type = ''text/html'', resp_headers = [(''Content-Encoding'', ''gzip'')], resp_body = page\<rparr>
      in (r, send r))"

text \<open>
  The server of ESP-IDF over a state \<open>'w\<close>. A handle is a number, 0 the null pointer. \<open>httpd_start\<close> gives
  the error code, the handle and the new state.
\<close>

record 'w httpd_api =
  default_config :: httpd_config
  httpd_start :: "httpd_config \<Rightarrow> 'w \<Rightarrow> esp_err \<times> nat \<times> 'w"
  httpd_register :: "nat \<Rightarrow> httpd_uri \<Rightarrow> 'w \<Rightarrow> esp_err \<times> 'w"
  httpd_stop :: "nat \<Rightarrow> 'w \<Rightarrow> 'w"

definition index_uri :: httpd_uri where
  "index_uri = \<lparr>uri = ''/logs/'', route_handler = IndexHandler\<rparr>"

definition stream_uri :: httpd_uri where
  "stream_uri = \<lparr>uri = ''/stream'', route_handler = StreamLogHandler\<rparr>"

definition favicon_uri :: httpd_uri where
  "favicon_uri = \<lparr>uri = ''/favicon.ico'', route_handler = FaviconHandler\<rparr>"

definition install_favicon_route :: "'w httpd_api \<Rightarrow> nat \<Rightarrow> 'w \<Rightarrow> esp_err \<times> 'w" where
  "install_favicon_route api server w = httpd_register api server favicon_uri w"

text \<open>The log lines of the failures are left out; the result is made from their error code.\<close>

definition install_network_logger_routes :: "'w httpd_api \<Rightarrow> nat \<Rightarrow> 'w \<Rightarrow> nat esp_result \<times> 'w" where
  "install_network_logger_routes api server w =
     (let (err, server, w) =
        (if server = 0
         then httpd_start api ((default_config api)\<lparr>max_open_sockets := 4 + 3, lru_purge_enable := True\<rparr>) w
         else (ESP_OK, server, w))
      in if error_bool err then (result_of_err 0 err, w)
         else
           let (err, w) = httpd_register api server index_uri w
           in if error_bool err then (result_of_err 0 err, httpd_stop api server w)
              else
                let (err, w) = httpd_register api server stream_uri w
                in if error_bool err then (result_of_err 0 err, httpd_stop api server w)
                   else (result_ok server, w))"

text \<open>
  What is relied on: \<open>view\<close> gives the routes of the running servers; a start makes a new server without
  routes, a registration adds the route, a failure changes nothing.
\<close>

locale http_server =
  fixes api :: "'w httpd_api" and view :: "'w \<Rightarrow> nat \<Rightarrow> httpd_uri list option"
  assumes start: "httpd_start api c w = (err, h, w') \<Longrightarrow>
      if err = ESP_OK then h \<noteq> 0 \<and> view w h = None \<and> view w' = (view w)(h \<mapsto> []) else view w' = view w"
    and register: "view w h = Some us \<Longrightarrow> httpd_register api h u w = (err, w') \<Longrightarrow>
      view w' = (if err = ESP_OK then (view w)(h \<mapsto> us @ [u]) else view w)"
    and stop: "view (httpd_stop api h w) = (view w)(h := None)"
begin

text \<open>Two registrations after each other, or the server is stopped.\<close>

lemma register_both:
  assumes "view w h = Some us" "httpd_register api h u w = (e1, w1)" "httpd_register api h v w1 = (e2, w2)"
    and "e1 = ESP_OK"
  shows "e2 = ESP_OK \<Longrightarrow> view w2 = (view w)(h \<mapsto> us @ [u, v])" "view (httpd_stop api h w2) = (view w)(h := None)"
  using register[OF assms(1,2)] register[of w1 h "us @ [u]" v e2 w2] assms(3,4) stop[of h w2] by (auto split: if_splits)

lemma install_running:
  assumes "view w h = Some us" "h \<noteq> 0"
  shows "case install_network_logger_routes api h w of (res, w') \<Rightarrow>
    if result_bool res then res_value res = Some h \<and> view w' = (view w)(h \<mapsto> us @ [index_uri, stream_uri])
    else res_value res = None \<and> view w' = (view w)(h := None)"
proof -
  obtain e1 w1 e2 w2 where r: "httpd_register api h index_uri w = (e1, w1)" "httpd_register api h stream_uri w1 = (e2, w2)"
    by (meson surj_pair)
  show ?thesis
    using register[OF assms(1) r(1)] stop[of h w1] register_both[OF assms(1) r] assms(2) r
    by (auto simp: install_network_logger_routes_def error_bool_def result_bool_def result_of_err_def result_ok_def)
qed

lemma install_fresh:
  "case install_network_logger_routes api 0 w of (res, w') \<Rightarrow>
    if result_bool res then \<exists>h. res_value res = Some h \<and> view w h = None \<and> view w' = (view w)(h \<mapsto> [index_uri, stream_uri])
    else res_value res = None \<and> view w' = view w"
proof -
  let ?c = "(default_config api)\<lparr>max_open_sockets := 4 + 3, lru_purge_enable := True\<rparr>"
  obtain e h w0 where s: "httpd_start api ?c w = (e, h, w0)" by (metis prod_cases3)
  show ?thesis
  proof (cases "e = ESP_OK")
    case True
    with start[OF s] have h: "h \<noteq> 0" "view w h = None" "view w0 = (view w)(h \<mapsto> [])" by auto
    have "install_network_logger_routes api 0 w = install_network_logger_routes api h w0"
      using s True h(1) by (simp add: install_network_logger_routes_def)
    moreover have "(view w)(h := None) = view w" using h(2) by auto
    ultimately show ?thesis using install_running[of w0 h "[]"] h by (auto split: prod.splits if_splits)
  next
    case False
    with s start[OF s] show ?thesis
      by (simp add: install_network_logger_routes_def error_bool_def result_bool_def result_of_err_def)
  qed
qed

end

section \<open>An instance\<close>

text \<open>Servers with at most \<open>max\<close> routes each, which refuse a route they have.\<close>

record host_servers =
  servers :: "nat \<Rightarrow> httpd_uri list option"
  next_handle :: nat

definition host_httpd :: "nat \<Rightarrow> host_servers httpd_api" where
  "host_httpd limit = \<lparr>default_config = \<lparr>max_open_sockets = 7, lru_purge_enable = False\<rparr>,
     httpd_start = (\<lambda>c w. if servers w (next_handle w) = None \<and> next_handle w \<noteq> 0
       then (ESP_OK, next_handle w, \<lparr>servers = (servers w)(next_handle w \<mapsto> []), next_handle = next_handle w + 1\<rparr>)
       else (ESP_ERR_NO_MEM, 0, w)),
     httpd_register = (\<lambda>h u w. case servers w h of
         None \<Rightarrow> (0x102, w)
       | Some us \<Rightarrow> if u \<in> set us then (0xB002, w)
                     else if length us < limit then (ESP_OK, w\<lparr>servers := (servers w)(h \<mapsto> us @ [u])\<rparr>)
                     else (0xB001, w)),
     httpd_stop = (\<lambda>h w. w\<lparr>servers := (servers w)(h := None)\<rparr>)\<rparr>"

interpretation host_http: http_server "host_httpd limit" servers
  by unfold_locales (auto simp: host_httpd_def split: if_splits option.splits)

section \<open>Properties\<close>

text \<open>C22: The log hook: when the network logger is initialized for the first time after the boot and its buffer of
  \<open>sz\<close> bytes can be allocated, every line of at most 255 characters that is logged from then on is appended to the
  history that the ring keeps (of a line longer than the buffer, its end), and the function that was installed before
  is called once for each line, in order. This call gets the \<open>va_list\<close> that \<open>vsnprintf\<close> has already read, so what it
  prints is what the platform makes of such a list.\<close>

theorem log_is_copied:
  assumes "0 < sz" "sz < 2 ^ 32" "length block = sz"
    and "\<forall>s\<in>set ss. length s \<le> 255" "length (concat (map (entering sz) ss)) < 2 ^ 64"
  shows "\<exists>lg lg'. initialize_network_logger reused sz (Some block) failure (logger_boot k) = Some lg \<and>
    esp_logs reused ss lg = Some lg' \<and> ring_rel (lg_ring lg') (concat (map (entering sz) ss)) \<and>
    printed lg' = map (\<lambda>s. (k, reused (Some s))) ss"
proof -
  let ?lg = "(logger_boot k)\<lparr>lg_ring := fst (ring_init ring_new sz (Some block)),
    original_vprintf := Some (Platform k), installed := LogHook\<rparr>"
  have "initialize_network_logger reused sz (Some block) failure (logger_boot k) = Some ?lg"
    by (simp add: initialize_network_logger_def logger_boot_def ring_init_def Let_def)
  moreover have "rb_size (lg_ring ?lg) = sz" by (simp add: ring_init_def)
  ultimately show ?thesis
    using esp_logs_hooked[of ?lg k "[]" sz ss reused] ring_rel_init[OF assms(1-3)] assms(4,5)
    by (simp add: logger_boot_def)
qed

theorem log_is_copied_witness:
  "\<exists>lg lg'. initialize_network_logger id 3 (Some (replicate 3 ch_nul)) None (logger_boot 0) = Some lg \<and>
    esp_logs id [''ab'', ''cdef''] lg = Some lg' \<and> ring_rel (lg_ring lg') ''abdef'' \<and>
    printed lg' = [(0, Some ''ab''), (0, Some ''cdef'')]"
  using log_is_copied[of 3 "replicate 3 ch_nul" "[''ab'', ''cdef'']" id None 0] by (simp add: entering_def)

text \<open>A second initialization of the network logger: the hook saves itself as the function to call, so that the
  next line that is logged never returns; and when the allocation fails, the line that reports it is
  written through the hook into the null pointer.\<close>

theorem second_initialization:
  assumes "initialize_network_logger reused n (Some block) failure lg = Some lg1" "failure = Some s" "s \<noteq> []"
  shows "(\<exists>lg2. initialize_network_logger reused n' (Some block') failure lg1 = Some lg2 \<and> esp_log reused line lg2 = None) \<and>
    initialize_network_logger reused n' None failure lg1 = None"
proof -
  have l: "installed lg1 = LogHook" using assms(1) by (auto simp: initialize_network_logger_def ring_init_def Let_def)
  then have "\<exists>lg2. initialize_network_logger reused n' (Some block') failure lg1 = Some lg2 \<and> esp_log reused line lg2 = None"
    by (auto simp: initialize_network_logger_def ring_init_def Let_def esp_log_def hooked_twice_diverges)
  moreover have "initialize_network_logger reused n' None failure lg1 = None"
    using l assms(2,3) by (simp add: initialize_network_logger_def ring_init_def Let_def esp_log_def
        call_vprintf.simps[of _ LogHook] log_hook_def ring_write_def read_args_def)
  ultimately show ?thesis ..
qed

theorem second_initialization_witness:
  "\<exists>lg1. initialize_network_logger id 4 (Some ''abcd'') (Some ''E'') (logger_boot 0) = Some lg1 \<and>
    initialize_network_logger id 4 None (Some ''E'') lg1 = None"
proof -
  let ?lg1 = "(logger_boot 0)\<lparr>lg_ring := fst (ring_init ring_new 4 (Some ''abcd'')),
    original_vprintf := Some (Platform 0), installed := LogHook\<rparr>"
  have 1: "initialize_network_logger id 4 (Some ''abcd'') (Some ''E'') (logger_boot 0) = Some ?lg1"
    by (simp add: initialize_network_logger_def logger_boot_def ring_init_def Let_def)
  from second_initialization[OF 1 refl, of 4] 1 show ?thesis by simp
qed

text \<open>C23: Installing the routes: on success the server that is returned (the caller's, or a new one) has the two routes
  after those it had; on failure there is no server: a new one is stopped, but so is the caller's,
  with all the routes it had.\<close>

theorem install_routes_contract:
  assumes "http_server api view" "server = 0 \<or> view w server = Some us"
  shows "case install_network_logger_routes api server w of (res, w') \<Rightarrow>
    (result_bool res \<longrightarrow> (\<exists>h. res_value res = Some h \<and>
       (if server = 0 then view w h = None \<and> view w' = (view w)(h \<mapsto> [index_uri, stream_uri])
        else h = server \<and> view w' = (view w)(h \<mapsto> us @ [index_uri, stream_uri])))) \<and>
    (\<not> result_bool res \<longrightarrow> res_value res = None \<and> view w' = (if server = 0 then view w else (view w)(server := None)))"
proof (cases "server = 0")
  case True
  with http_server.install_fresh[OF assms(1), of w] show ?thesis by (auto split: prod.splits if_splits)
next
  case False
  with http_server.install_running[OF assms(1)] assms(2) show ?thesis by (fastforce split: prod.splits if_splits)
qed

theorem install_routes_contract_witness:
  "servers (snd (install_network_logger_routes (host_httpd 8) 1 \<lparr>servers = [1 \<mapsto> [index_uri]], next_handle = 2\<rparr>)) 1 = None"
proof -
  let ?w = "\<lparr>servers = [1 \<mapsto> [index_uri]], next_handle = 2\<rparr>"
  have "fst (install_network_logger_routes (host_httpd 8) 1 ?w) = result_of_err 0 0xB002"
    by (simp add: install_network_logger_routes_def host_httpd_def error_bool_def)
  then have "\<not> result_bool (fst (install_network_logger_routes (host_httpd 8) 1 ?w))"
    by (simp add: result_bool_def result_of_err_def)
  with install_routes_contract[OF host_http.http_server_axioms, of 1 ?w "[index_uri]" 8] show ?thesis
    by (auto split: prod.splits)
qed

end
