(* ===== verification/Main_Loop.thy ===== *)
theory Main_Loop
  imports Prelude "HOL-Library.Multiset"
begin

text \<open>
  The command queue of the main loop: \<open>MainLoop\<close> of the device (\<open>main_loop.hpp\<close>) over the queue and the
  timers of FreeRTOS, and its replacement on the host (\<open>src/emulated/espbase/stdlib_main_loop.hpp\<close>) over
  \<open>std::queue\<close> and a worker thread. FreeRTOS is not part of the repository: its functions are the
  fields of the parameter \<open>api\<close> over a kernel state of any type \<open>'e\<close>, and the locale \<open>kernel\<close> states what the loop relies
  on. The queue of the host build has the code in the repository, and it is what the locales are
  interpreted on.
\<close>

section \<open>Commands\<close>

text \<open>\<open>AppCommand\<close>: two pointers.\<close>

record app_command =
  cmd_arg :: nat
  cmd_execute :: nat

section \<open>The device's loop\<close>

text \<open>The kernel's functions; ticks are 32 bits wide. \<open>change_period\<close> arms the one-shot timer of a slot.\<close>

record 'e rtos =
  queue_send :: "app_command \<Rightarrow> 'e \<Rightarrow> bool \<times> 'e"
  queue_send_isr :: "app_command \<Rightarrow> 'e \<Rightarrow> bool \<times> 'e"
  queue_receive :: "'e \<Rightarrow> (app_command \<times> 'e) option"
  ms_to_ticks :: "32 word \<Rightarrow> 32 word"
  change_period :: "nat \<Rightarrow> 32 word \<Rightarrow> 'e \<Rightarrow> bool \<times> 'e"
  change_period_isr :: "nat \<Rightarrow> 32 word \<Rightarrow> 'e \<Rightarrow> bool \<times> 'e"

text \<open>\<open>DelayedTask\<close>, of which \<open>MaxDelayedTasks\<close> exist, each with its own timer.\<close>

record delayed_task =
  dt_cmd :: app_command
  in_use :: bool

record 'e main_loop =
  delayed_tasks :: "delayed_task list"
  krn :: 'e

definition push_func :: "'e rtos \<Rightarrow> bool \<Rightarrow> app_command \<Rightarrow> 'e main_loop \<Rightarrow> bool \<times> 'e main_loop" where
  "push_func api isr cmd l =
     (let (pushed, e) = (if isr then queue_send_isr api cmd (krn l) else queue_send api cmd (krn l))
      in (pushed, l\<lparr>krn := e\<rparr>))"

text \<open>The member-function forms, and below those with a delay: \<open>mem_fn\<close> is the address of \<open>trampoline<MemFn>()\<close> and
  \<open>to_base\<close> the conversion of the instance pointer to the class of the member.\<close>

definition push :: "'e rtos \<Rightarrow> bool \<Rightarrow> nat \<Rightarrow> (nat \<Rightarrow> nat) \<Rightarrow> nat \<Rightarrow> 'e main_loop \<Rightarrow> bool \<times> 'e main_loop" where
  "push api isr mem_fn to_base instance_ptr l =
     push_func api isr \<lparr>cmd_arg = to_base instance_ptr, cmd_execute = mem_fn\<rparr> l"

text \<open>The search for a free slot, first one first.\<close>

fun find_slot :: "delayed_task list \<Rightarrow> nat option" where
  "find_slot [] = None"
| "find_slot (dt # dts) = (if \<not> in_use dt then Some 0 else map_option Suc (find_slot dts))"

text \<open>
  The calls of \<open>post_delayed_func\<close> on the timer's queue and on the pool of slots are one step: a slot
  that is marked as in use is touched by nobody else until its timer is armed.
\<close>

definition post_delayed_func :: "'e rtos \<Rightarrow> bool \<Rightarrow> 32 word \<Rightarrow> app_command \<Rightarrow> 'e main_loop \<Rightarrow> bool \<times> 'e main_loop" where
  "post_delayed_func api isr delay_ms cmd l =
     (if delay_ms = 0 then push_func api isr cmd l
      else let ticks = (let t = ms_to_ticks api delay_ms in if t = 0 then 1 else t) in
        case find_slot (delayed_tasks l) of
          None \<Rightarrow> (False, l)
        | Some i \<Rightarrow>
            (let l = l\<lparr>delayed_tasks := (delayed_tasks l)[i := \<lparr>dt_cmd = cmd, in_use = True\<rparr>]\<rparr>;
                 (success, e) = (if isr then change_period_isr api i ticks (krn l) else change_period api i ticks (krn l));
                 l = l\<lparr>krn := e\<rparr>
             in if success then (True, l)
                else (False, l\<lparr>delayed_tasks := (delayed_tasks l)[i := (delayed_tasks l ! i)\<lparr>in_use := False\<rparr>]\<rparr>)))"

definition post_delayed :: "'e rtos \<Rightarrow> bool \<Rightarrow> nat \<Rightarrow> (nat \<Rightarrow> nat) \<Rightarrow> 32 word \<Rightarrow> nat \<Rightarrow> 'e main_loop \<Rightarrow> bool \<times> 'e main_loop" where
  "post_delayed api isr mem_fn to_base delay_ms instance_ptr l =
     post_delayed_func api isr delay_ms \<lparr>cmd_arg = to_base instance_ptr, cmd_execute = mem_fn\<rparr> l"

text \<open>The callback of slot \<open>i\<close>'s timer; it ignores whether the command was pushed, which the first component shows.\<close>

definition timer_callback :: "'e rtos \<Rightarrow> nat \<Rightarrow> 'e main_loop \<Rightarrow> bool \<times> 'e main_loop" where
  "timer_callback api i l =
     (let (pushed, l) = push_func api False (dt_cmd (delayed_tasks l ! i)) l
      in (pushed, l\<lparr>delayed_tasks := (delayed_tasks l)[i := (delayed_tasks l ! i)\<lparr>in_use := False\<rparr>]\<rparr>))"

text \<open>One round of \<open>run_forever\<close>: the command that is executed, \<^const>\<open>None\<close> while the queue is empty.\<close>

definition run_round :: "'e rtos \<Rightarrow> 'e main_loop \<Rightarrow> (app_command \<times> 'e main_loop) option" where
  "run_round api l = (case queue_receive api (krn l) of None \<Rightarrow> None | Some (cmd, e) \<Rightarrow> Some (cmd, l\<lparr>krn := e\<rparr>))"

text \<open>The constructor: the command of a new slot is not initialised.\<close>

definition main_loop_new :: "app_command \<Rightarrow> nat \<Rightarrow> 'e \<Rightarrow> 'e main_loop" where
  "main_loop_new indeterminate max_delayed_tasks e =
     \<lparr>delayed_tasks = replicate max_delayed_tasks \<lparr>dt_cmd = indeterminate, in_use = False\<rparr>, krn = e\<rparr>"

section \<open>The host's loop\<close>

text \<open>\<open>AppCommand\<close> has the same two fields. \<open>running_cmd\<close> is the command the worker executes outside of the lock,
  \<open>executed\<close> lists those it has finished, and \<open>worker_done\<close> says that the thread has left its loop.\<close>

record mock_loop =
  mock_queue :: "app_command list"
  busy :: bool
  stop_requested :: bool
  running_cmd :: "app_command option"
  executed :: "app_command list"
  worker_done :: bool

definition mock_new :: mock_loop where
  "mock_new = \<lparr>mock_queue = [], busy = False, stop_requested = False, running_cmd = None,
               executed = [], worker_done = False\<rparr>"

definition mock_push_func :: "nat \<Rightarrow> app_command \<Rightarrow> mock_loop \<Rightarrow> bool \<times> mock_loop" where
  "mock_push_func queue_size cmd m =
     (if length (mock_queue m) \<ge> queue_size then (False, m)
      else (True, m\<lparr>mock_queue := mock_queue m @ [cmd]\<rparr>))"

text \<open>The worker's first critical section: it waits (\<^const>\<open>None\<close>) while there is nothing to do, leaves its
  loop when it is told to and the queue is empty, and takes a command otherwise.\<close>

definition worker_take :: "mock_loop \<Rightarrow> mock_loop option" where
  "worker_take m =
     (if mock_queue m = [] \<and> \<not> stop_requested m then None
      else if mock_queue m = [] then Some (m\<lparr>worker_done := True\<rparr>)
      else Some (m\<lparr>mock_queue := tl (mock_queue m), busy := True, running_cmd := Some (hd (mock_queue m))\<rparr>))"

text \<open>The end of the execution and the second critical section.\<close>

definition worker_finish :: "mock_loop \<Rightarrow> mock_loop" where
  "worker_finish m =
     (case running_cmd m of None \<Rightarrow> m
      | Some cmd \<Rightarrow> m\<lparr>executed := executed m @ [cmd], running_cmd := None, busy := False\<rparr>)"

definition mock_receive :: "mock_loop \<Rightarrow> (app_command \<times> mock_loop) option" where
  "mock_receive m =
     (if mock_queue m = [] then None else do {
        m' \<leftarrow> worker_take m; cmd \<leftarrow> running_cmd m'; Some (cmd, worker_finish m') })"

definition request_stop :: "mock_loop \<Rightarrow> mock_loop" where
  "request_stop m = m\<lparr>stop_requested := True\<rparr>"

text \<open>The condition that \<open>wait_idle\<close> waits for.\<close>

definition idle :: "mock_loop \<Rightarrow> bool" where
  "idle m \<longleftrightarrow> mock_queue m = [] \<and> \<not> busy m"

section \<open>The interface: a bounded queue\<close>

locale bounded_fifo =
  fixes send :: "'c \<Rightarrow> 'q \<Rightarrow> bool \<times> 'q"
    and receive :: "'q \<Rightarrow> ('c \<times> 'q) option"
    and contents :: "'q \<Rightarrow> 'c list"
    and capacity :: nat
  assumes send_room: "length (contents q) < capacity \<Longrightarrow> send c q = (b, q') \<Longrightarrow> b \<and> contents q' = contents q @ [c]"
    and send_full: "capacity \<le> length (contents q) \<Longrightarrow> send c q = (b, q') \<Longrightarrow> \<not> b \<and> contents q' = contents q"
    and receive_Some: "receive q = Some (c, q') \<Longrightarrow> contents q = c # contents q'"
    and receive_None: "receive q = None \<Longrightarrow> contents q = []"
begin

lemma send_contents:
  "send c q = (b, q') \<Longrightarrow> b = (length (contents q) < capacity) \<and> contents q' = (if b then contents q @ [c] else contents q)"
  using send_room[of q c b q'] send_full[of q c b q'] by (cases "length (contents q) < capacity") auto

lemma send_bounded: "length (contents q) \<le> capacity \<Longrightarrow> length (contents (snd (send c q))) \<le> capacity"
  using send_contents[of c q "fst (send c q)" "snd (send c q)"] by (auto split: if_splits)

lemma receive_bounded: "length (contents q) \<le> capacity \<Longrightarrow> receive q = Some (c, q') \<Longrightarrow> length (contents q') \<le> capacity"
  using receive_Some[of q c q'] by simp

end

text \<open>The kernel: both ways to send go to the same queue, and arming a timer leaves it alone.\<close>

locale kernel =
  task: bounded_fifo "queue_send api" "queue_receive api" contents capacity +
  isr: bounded_fifo "queue_send_isr api" "queue_receive api" contents capacity
  for api :: "'e rtos" and contents :: "'e \<Rightarrow> app_command list" and capacity :: nat +
  assumes period: "change_period api i t e = (b, e') \<Longrightarrow> contents e' = contents e"
    and period_isr: "change_period_isr api i t e = (b, e') \<Longrightarrow> contents e' = contents e"

section \<open>Accounting for commands\<close>

text \<open>The commands waiting in a slot.\<close>

definition pending_cmds :: "delayed_task list \<Rightarrow> app_command multiset" where
  "pending_cmds dts = mset (map dt_cmd (filter in_use dts))"

lemma pending_update:
  assumes "i < length dts"
  shows "pending_cmds (dts[i := x]) + (if in_use (dts ! i) then {#dt_cmd (dts ! i)#} else {#})
    = pending_cmds dts + (if in_use x then {#dt_cmd x#} else {#})"
proof -
  define a where "a = take i dts"
  define b where "b = drop (Suc i) dts"
  have split: "pending_cmds (a @ d # b) =
      pending_cmds a + pending_cmds b + (if in_use d then {#dt_cmd d#} else {#})" for d
    by (simp add: pending_cmds_def)
  have "dts = a @ dts ! i # b" unfolding a_def b_def using assms by (rule id_take_nth_drop)
  then have "pending_cmds dts = pending_cmds (a @ dts ! i # b)" by (rule arg_cong)
  moreover have "dts[i := x] = a @ x # b"
    unfolding a_def b_def using assms by (rule upd_conv_take_nth_drop)
  ultimately show ?thesis by (simp only: split add_ac)
qed

lemma find_slot_Some: "find_slot dts = Some i \<Longrightarrow> i < length dts \<and> \<not> in_use (dts ! i)"
  by (induction dts arbitrary: i) (auto split: if_splits)

lemma find_slot_None: "find_slot dts = None \<longleftrightarrow> (\<forall>dt\<in>set dts. in_use dt)"
  by (induction dts) auto

text \<open>Commands that were accepted, executed and dropped by a timer that found the queue full.\<close>

record ledger =
  accepted :: "app_command list"
  run_cmds :: "app_command list"
  lost :: "app_command list"

datatype loop_event = Push bool app_command | Post bool "32 word" app_command | Fire nat | Round

text \<open>A timer fires only for a slot that is in use.\<close>

fun loop_step :: "'e rtos \<Rightarrow> loop_event \<Rightarrow> 'e main_loop \<times> ledger \<Rightarrow> 'e main_loop \<times> ledger" where
  "loop_step api (Push isr c) (l, g) =
     (let (b, l) = push_func api isr c l in (l, if b then g\<lparr>accepted := accepted g @ [c]\<rparr> else g))"
| "loop_step api (Post isr delay c) (l, g) =
     (let (b, l) = post_delayed_func api isr delay c l in (l, if b then g\<lparr>accepted := accepted g @ [c]\<rparr> else g))"
| "loop_step api (Fire i) (l, g) =
     (if i < length (delayed_tasks l) \<and> in_use (delayed_tasks l ! i) then
        let c = dt_cmd (delayed_tasks l ! i); (b, l) = timer_callback api i l
        in (l, if b then g else g\<lparr>lost := lost g @ [c]\<rparr>)
      else (l, g))"
| "loop_step api Round (l, g) =
     (case run_round api l of None \<Rightarrow> (l, g) | Some (c, l) \<Rightarrow> (l, g\<lparr>run_cmds := run_cmds g @ [c]\<rparr>))"

definition balanced :: "('e \<Rightarrow> app_command list) \<Rightarrow> nat \<Rightarrow> 'e main_loop \<times> ledger \<Rightarrow> bool" where
  "balanced contents capacity lg = (case lg of (l, g) \<Rightarrow>
     mset (accepted g) = mset (run_cmds g) + mset (contents (krn l)) + pending_cmds (delayed_tasks l) + mset (lost g) \<and>
     length (contents (krn l)) \<le> capacity)"

context kernel
begin

lemma push_contents:
  assumes "push_func api isr c l = (b, l')"
  shows "delayed_tasks l' = delayed_tasks l \<and> b = (length (contents (krn l)) < capacity) \<and>
    contents (krn l') = (if b then contents (krn l) @ [c] else contents (krn l))"
  using assms
    task.send_contents[of c "krn l" "fst (queue_send api c (krn l))" "snd (queue_send api c (krn l))"]
    isr.send_contents[of c "krn l" "fst (queue_send_isr api c (krn l))" "snd (queue_send_isr api c (krn l))"]
  by (auto simp: push_func_def Let_def split_beta split: if_splits)

lemma post_contents:
  assumes "post_delayed_func api isr delay c l = (b, l')" "delay \<noteq> 0"
  shows "contents (krn l') = contents (krn l) \<and>
    pending_cmds (delayed_tasks l') = pending_cmds (delayed_tasks l) + (if b then {#c#} else {#})"
proof (cases "find_slot (delayed_tasks l)")
  case None
  with assms show ?thesis by (simp add: post_delayed_func_def Let_def)
next
  case (Some i)
  note i = find_slot_Some[OF Some]
  define t where "t = (if ms_to_ticks api delay = 0 then 1 else ms_to_ticks api delay)"
  define se where "se = (if isr then change_period_isr api i t (krn l) else change_period api i t (krn l))"
  have "contents (snd se) = contents (krn l)"
    using period[of i t "krn l" "fst se" "snd se"] period_isr[of i t "krn l" "fst se" "snd se"] by (simp add: se_def)
  moreover have "pending_cmds ((delayed_tasks l)[i := \<lparr>dt_cmd = c, in_use = b\<rparr>]) =
      pending_cmds (delayed_tasks l) + (if b then {#c#} else {#})" for b
    using pending_update[of i "delayed_tasks l" "\<lparr>dt_cmd = c, in_use = b\<rparr>"] i by simp
  moreover have "post_delayed_func api isr delay c l = (fst se,
      l\<lparr>delayed_tasks := (delayed_tasks l)[i := \<lparr>dt_cmd = c, in_use = fst se\<rparr>], krn := snd se\<rparr>)"
    using assms(2) i Some
    by (cases l) (auto simp: post_delayed_func_def Let_def t_def[symmetric] se_def split_beta)
  ultimately show ?thesis using assms(1) by auto
qed

lemma loop_step_balanced:
  assumes "balanced contents capacity (l, g)"
  shows "balanced contents capacity (loop_step api ev (l, g))"
proof (cases ev)
  case (Push isr c)
  obtain b l' where p: "push_func api isr c l = (b, l')" by fastforce
  from push_contents[OF p] assms Push p show ?thesis by (auto simp: balanced_def)
next
  case (Post isr delay c)
  obtain b l' where p: "post_delayed_func api isr delay c l = (b, l')" by fastforce
  show ?thesis
  proof (cases "delay = 0")
    case True
    with p have "push_func api isr c l = (b, l')" by (simp add: post_delayed_func_def)
    from push_contents[OF this] assms Post p show ?thesis by (auto simp: balanced_def)
  next
    case False
    from post_contents[OF p False] assms Post p show ?thesis by (auto simp: balanced_def)
  qed
next
  case (Fire i)
  show ?thesis
  proof (cases "i < length (delayed_tasks l) \<and> in_use (delayed_tasks l ! i)")
    case True
    let ?c = "dt_cmd (delayed_tasks l ! i)"
    obtain b l' where p: "push_func api False ?c l = (b, l')" by fastforce
    have "pending_cmds (delayed_tasks l) =
        pending_cmds ((delayed_tasks l)[i := (delayed_tasks l ! i)\<lparr>in_use := False\<rparr>]) + {#?c#}"
      using pending_update[of i "delayed_tasks l" "(delayed_tasks l ! i)\<lparr>in_use := False\<rparr>"] True by simp
    with push_contents[OF p] assms Fire True p show ?thesis
      by (auto simp: balanced_def timer_callback_def)
  qed (use assms Fire in auto)
next
  case Round
  then show ?thesis
    using assms task.receive_Some[of "krn l"]
    by (auto simp: balanced_def run_round_def split: option.splits)
qed

lemma run_balanced:
  assumes "balanced contents capacity (l, g)"
  shows "balanced contents capacity (fold (loop_step api) evs (l, g))"
  using assms
proof (induction evs arbitrary: l g)
  case (Cons ev evs)
  obtain l' g' where "loop_step api ev (l, g) = (l', g')" by fastforce
  with Cons.IH[of l' g'] loop_step_balanced[OF Cons.prems, of ev] show ?case by simp
qed simp

end

section \<open>The host's queue provides the interface\<close>

text \<open>The kernel whose queue is that of the host build, with timers that can always be armed.\<close>

definition mock_rtos :: "nat \<Rightarrow> mock_loop rtos" where
  "mock_rtos n =
     \<lparr>queue_send = mock_push_func n, queue_send_isr = mock_push_func n, queue_receive = mock_receive,
      ms_to_ticks = (\<lambda>ms. ms), change_period = (\<lambda>i t m. (True, m)), change_period_isr = (\<lambda>i t m. (True, m))\<rparr>"

interpretation mockq: bounded_fifo "mock_push_func n" mock_receive mock_queue n for n
  by unfold_locales
    (auto simp: mock_push_func_def mock_receive_def worker_take_def worker_finish_def split: if_splits)

interpretation mockk: kernel "mock_rtos n" mock_queue n for n
  by unfold_locales
    (auto simp: mock_rtos_def mock_push_func_def mock_receive_def worker_take_def worker_finish_def split: if_splits)

section \<open>The host's loop and its worker\<close>

text \<open>The two halves of the worker's round, with which pushes, also by the command that is running, interleave.\<close>

inductive worker_step :: "mock_loop \<Rightarrow> mock_loop \<Rightarrow> bool" where
  take: "\<not> worker_done m \<Longrightarrow> running_cmd m = None \<Longrightarrow> worker_take m = Some m' \<Longrightarrow> worker_step m m'"
| finish: "running_cmd m \<noteq> None \<Longrightarrow> worker_step m (worker_finish m)"

inductive mock_step :: "nat \<Rightarrow> app_command list \<times> mock_loop \<Rightarrow> app_command list \<times> mock_loop \<Rightarrow> bool" for n where
  push: "mock_push_func n c m = (b, m') \<Longrightarrow> mock_step n (acc, m) (if b then acc @ [c] else acc, m')"
| work: "worker_step m m' \<Longrightarrow> mock_step n (acc, m) (acc, m')"
| stop: "mock_step n (acc, m) (acc, request_stop m)"

inductive_cases mock_stepE: "mock_step n (acc, m) (acc', m')"

inductive mock_reachable :: "nat \<Rightarrow> app_command list \<times> mock_loop \<Rightarrow> bool" for n where
  init: "mock_reachable n ([], mock_new)"
| step: "mock_reachable n s \<Longrightarrow> mock_step n s s' \<Longrightarrow> mock_reachable n s'"

definition mock_inv :: "nat \<Rightarrow> app_command list \<times> mock_loop \<Rightarrow> bool" where
  "mock_inv n s = (case s of (acc, m) \<Rightarrow>
     acc = executed m @ (case running_cmd m of None \<Rightarrow> [] | Some c \<Rightarrow> [c]) @ mock_queue m \<and>
     length (mock_queue m) \<le> n \<and> (busy m \<longleftrightarrow> running_cmd m \<noteq> None) \<and>
     (worker_done m \<longrightarrow> stop_requested m))"

lemma mock_step_inv: "mock_step n s s' \<Longrightarrow> mock_inv n s \<Longrightarrow> mock_inv n s'"
  by (induction rule: mock_step.induct)
    (auto simp: mock_inv_def mock_push_func_def worker_take_def worker_finish_def request_stop_def
      elim!: worker_step.cases split: if_splits option.splits)

lemma mock_reachable_inv: "mock_reachable n s \<Longrightarrow> mock_inv n s"
proof (induction rule: mock_reachable.induct)
  case init
  then show ?case by (simp add: mock_inv_def mock_new_def)
next
  case (step s s')
  then show ?case by (blast intro: mock_step_inv)
qed

text \<open>The worker alone empties the queue, also after it has been told to stop.\<close>

lemma worker_run_reachable: "worker_step\<^sup>*\<^sup>* m m' \<Longrightarrow> mock_reachable n (acc, m) \<Longrightarrow> mock_reachable n (acc, m')"
  by (induction rule: rtranclp_induct) (auto intro: mock_reachable.step mock_step.work)

lemma worker_round:
  assumes "\<not> worker_done m" "running_cmd m = None" "mock_queue m = c # cs"
  shows "worker_step\<^sup>*\<^sup>* m (m\<lparr>mock_queue := cs, busy := False, executed := executed m @ [c]\<rparr>)"
proof -
  let ?m1 = "m\<lparr>mock_queue := cs, busy := True, running_cmd := Some c\<rparr>"
  have "worker_step m ?m1"
    by (rule worker_step.take) (use assms in \<open>simp_all add: worker_take_def\<close>)
  moreover have "worker_step ?m1 (worker_finish ?m1)" by (rule worker_step.finish) simp
  moreover have "worker_finish ?m1 = m\<lparr>mock_queue := cs, busy := False, executed := executed m @ [c]\<rparr>"
    using assms(2) by (cases m) (simp add: worker_finish_def)
  ultimately show ?thesis by (metis converse_rtranclp_into_rtranclp r_into_rtranclp)
qed

lemma worker_empties:
  assumes "\<not> worker_done m" "running_cmd m = None"
  shows "\<exists>m'. worker_step\<^sup>*\<^sup>* m m' \<and> mock_queue m' = [] \<and> running_cmd m' = None"
  using assms
proof (induction "mock_queue m" arbitrary: m)
  case Nil
  then show ?case by (intro exI[of _ m]) simp
next
  case (Cons c cs)
  let ?m = "m\<lparr>mock_queue := cs, busy := False, executed := executed m @ [c]\<rparr>"
  obtain m' where m': "worker_step\<^sup>*\<^sup>* ?m m'" "mock_queue m' = []" "running_cmd m' = None"
  proof -
    have "\<exists>m'. worker_step\<^sup>*\<^sup>* ?m m' \<and> mock_queue m' = [] \<and> running_cmd m' = None"
      by (rule Cons.hyps(1)) (simp_all add: Cons.prems)
    with that show ?thesis by blast
  qed
  with rtranclp_trans[OF worker_round[OF Cons.prems Cons.hyps(2)[symmetric]] m'(1)] show ?case by blast
qed

lemma worker_drains:
  assumes "mock_reachable n (acc, m)" "\<not> worker_done m"
  shows "\<exists>m'. worker_step\<^sup>*\<^sup>* m m' \<and> idle m' \<and> executed m' = acc"
proof -
  obtain m0 where m0: "worker_step\<^sup>*\<^sup>* m m0" "\<not> worker_done m0" "running_cmd m0 = None"
  proof (cases "running_cmd m")
    case None
    with assms(2) that show ?thesis by blast
  next
    case (Some c)
    with worker_step.finish[of m] have "worker_step\<^sup>*\<^sup>* m (worker_finish m)" by auto
    with Some assms(2) that[of "worker_finish m"] show ?thesis by (simp add: worker_finish_def)
  qed
  from worker_empties[OF m0(2,3)] obtain m' where
    w: "worker_step\<^sup>*\<^sup>* m0 m'" "mock_queue m' = []" "running_cmd m' = None" by blast
  note m' = rtranclp_trans[OF m0(1) w(1)] w(2,3)
  with mock_reachable_inv[OF worker_run_reachable[OF m'(1) assms(1)]] show ?thesis
    by (auto simp: mock_inv_def idle_def)
qed

section \<open>Properties\<close>

text \<open>C24: Accounting: over any interleaving of pushes (from tasks and interrupts), delayed posts, firings of
  timers and rounds of the loop, on any kernel that keeps its laws, every accepted command is
  executed, queued, waiting in a slot, or was dropped by a timer that found the queue full, each
  exactly as often as it was accepted; and the queue never exceeds its size.\<close>

theorem main_loop_accounting:
  assumes "kernel api contents capacity" "contents (krn l) = []" "\<forall>dt\<in>set (delayed_tasks l). \<not> in_use dt"
  shows "case fold (loop_step api) evs (l, \<lparr>accepted = [], run_cmds = [], lost = []\<rparr>) of (l', g) \<Rightarrow>
    mset (accepted g) =
      mset (run_cmds g) + mset (contents (krn l')) + pending_cmds (delayed_tasks l') + mset (lost g) \<and>
    length (contents (krn l')) \<le> capacity"
  using kernel.run_balanced[OF assms(1), of l "\<lparr>accepted = [], run_cmds = [], lost = []\<rparr>" evs] assms(2,3)
  by (simp add: balanced_def pending_cmds_def split: prod.splits)

theorem main_loop_accounting_witness:
  "(let l = \<lparr>delayed_tasks = [\<lparr>dt_cmd = \<lparr>cmd_arg = 0, cmd_execute = 0\<rparr>, in_use = False\<rparr>], krn = mock_new\<rparr>;
        c = \<lparr>cmd_arg = 1, cmd_execute = 2\<rparr>
    in case fold (loop_step (mock_rtos 1)) [Push False c, Post False 5 c, Fire 0, Round] (l, \<lparr>accepted = [], run_cmds = [], lost = []\<rparr>)
       of (l', g) \<Rightarrow> mset (accepted g) =
         mset (run_cmds g) + mset (mock_queue (krn l')) + pending_cmds (delayed_tasks l') + mset (lost g) \<and> lost g = [c])"
  using main_loop_accounting[OF mockk.kernel_axioms[of 1],
      where l = "\<lparr>delayed_tasks = [\<lparr>dt_cmd = \<lparr>cmd_arg = 0, cmd_execute = 0\<rparr>, in_use = False\<rparr>], krn = mock_new\<rparr>"
        and evs = "[Push False \<lparr>cmd_arg = 1, cmd_execute = 2\<rparr>, Post False 5 \<lparr>cmd_arg = 1, cmd_execute = 2\<rparr>, Fire 0, Round]"]
  by (simp add: mock_new_def mock_rtos_def push_func_def mock_push_func_def post_delayed_func_def
      timer_callback_def run_round_def mock_receive_def worker_take_def worker_finish_def Let_def)

text \<open>C25: The host's loop executes the accepted commands in order, one at a time, and never more than \<open>QueueSize\<close>
  wait: in every reachable state what has been accepted is what was executed, the running command
  and the queue, in this order. So when \<open>wait_idle\<close> returns every accepted command has been executed;
  and as long as the worker has not ended, also when it has been told to stop, it gets from this very state by steps
  of its own to one where it is idle and has executed all of them.\<close>

theorem mock_loop_in_order:
  assumes "mock_reachable n (acc, m)"
  shows "acc = executed m @ (case running_cmd m of None \<Rightarrow> [] | Some c \<Rightarrow> [c]) @ mock_queue m \<and>
    length (mock_queue m) \<le> n \<and> (idle m \<longrightarrow> executed m = acc) \<and>
    (\<not> worker_done m \<longrightarrow> (\<exists>m'. worker_step\<^sup>*\<^sup>* m m' \<and> idle m' \<and> executed m' = acc))"
  using mock_reachable_inv[OF assms] worker_drains[OF assms] by (auto simp: mock_inv_def idle_def)

theorem mock_loop_in_order_witness:
  "mock_reachable 1 ([\<lparr>cmd_arg = 1, cmd_execute = 2\<rparr>], mock_new\<lparr>mock_queue := [\<lparr>cmd_arg = 1, cmd_execute = 2\<rparr>]\<rparr>) \<and>
   (\<exists>m'. worker_step\<^sup>*\<^sup>* (mock_new\<lparr>mock_queue := [\<lparr>cmd_arg = 1, cmd_execute = 2\<rparr>]\<rparr>) m' \<and>
     idle m' \<and> executed m' = [\<lparr>cmd_arg = 1, cmd_execute = 2\<rparr>])"
proof -
  let ?c = "\<lparr>cmd_arg = 1, cmd_execute = 2\<rparr>"
  have "mock_push_func 1 ?c mock_new = (True, mock_new\<lparr>mock_queue := [?c]\<rparr>)"
    by (simp add: mock_push_func_def mock_new_def)
  from mock_reachable.step[OF mock_reachable.init mock_step.push[OF this]]
  have r: "mock_reachable 1 ([?c], mock_new\<lparr>mock_queue := [?c]\<rparr>)" by simp
  have "\<not> worker_done (mock_new\<lparr>mock_queue := [?c]\<rparr>)" by (simp add: mock_new_def)
  with mock_loop_in_order[OF r] r show ?thesis by blast
qed

end
