(* ===== verification/Host_Loop.thy ===== *)
theory Host_Loop
  imports Main_Loop
begin

text \<open>
  The condition variables of the host's main loop (\<open>src/emulated/espbase/stdlib_main_loop.hpp\<close>): \<open>cv_\<close>, on which
  the worker waits for work and the caller of \<open>run_forever\<close> for the end, and \<open>cv_idle_\<close>, on which \<open>wait_idle\<close>
  waits. A thread blocks only in the critical section in which it has seen its condition fail, and is
  notified after the critical section that changes the condition; spurious wake-ups are never needed
  and are left out.
\<close>

section \<open>State\<close>

text \<open>
  Who is blocked, and the notifications that are still to be made: \<open>to_notify\<close> calls of \<open>cv_.notify_one\<close>
  by threads that have pushed a command, \<open>notify_end\<close> the \<open>cv_.notify_all\<close> of the destructor, \<open>notify_idle\<close> the
  \<open>cv_idle_.notify_all\<close> of the worker. \<open>in_run_forever\<close> and \<open>in_wait_idle\<close>: a thread is inside of these functions.
\<close>

record host_loop =
  mock :: mock_loop
  worker_blocked :: bool
  in_run_forever :: bool
  run_forever_blocked :: bool
  in_wait_idle :: bool
  wait_idle_blocked :: bool
  to_notify :: nat
  notify_end :: bool
  notify_idle :: bool

definition host_loop_new :: host_loop where
  "host_loop_new = \<lparr>mock = mock_new, worker_blocked = False, in_run_forever = False, run_forever_blocked = False,
     in_wait_idle = False, wait_idle_blocked = False, to_notify = 0, notify_end = False, notify_idle = False\<rparr>"

section \<open>The threads\<close>

text \<open>\<open>push_func\<close>: the critical section, then the notification that is owed when the command was queued.\<close>

definition host_push :: "nat \<Rightarrow> app_command \<Rightarrow> host_loop \<Rightarrow> bool \<times> host_loop" where
  "host_push queue_size cmd s =
     (let (pushed, m) = mock_push_func queue_size cmd (mock s)
      in (pushed, s\<lparr>mock := m, to_notify := (if pushed then to_notify s + 1 else to_notify s)\<rparr>))"

definition host_push_member :: "nat \<Rightarrow> nat \<Rightarrow> (nat \<Rightarrow> nat) \<Rightarrow> nat \<Rightarrow> host_loop \<Rightarrow> bool \<times> host_loop" where
  "host_push_member queue_size mem_fn to_base instance_ptr s =
     host_push queue_size \<lparr>cmd_arg = to_base instance_ptr, cmd_execute = mem_fn\<rparr> s"

text \<open>The destructor.\<close>

definition host_end :: "host_loop \<Rightarrow> host_loop" where
  "host_end s = s\<lparr>mock := request_stop (mock s), notify_end := True\<rparr>"

text \<open>The worker: its first critical section, in which it may block, and the end of its round.\<close>

definition host_take :: "host_loop \<Rightarrow> host_loop" where
  "host_take s = (case worker_take (mock s) of None \<Rightarrow> s\<lparr>worker_blocked := True\<rparr> | Some m \<Rightarrow> s\<lparr>mock := m\<rparr>)"

definition host_finish :: "host_loop \<Rightarrow> host_loop" where
  "host_finish s = s\<lparr>mock := worker_finish (mock s), notify_idle := True\<rparr>"

text \<open>The tests of \<open>run_forever\<close> and \<open>wait_idle\<close>: they return or block.\<close>

definition host_run_forever :: "host_loop \<Rightarrow> host_loop" where
  "host_run_forever s =
     (if stop_requested (mock s) then s\<lparr>in_run_forever := False\<rparr> else s\<lparr>in_run_forever := True, run_forever_blocked := True\<rparr>)"

definition host_wait_idle :: "host_loop \<Rightarrow> host_loop" where
  "host_wait_idle s =
     (if idle (mock s) then s\<lparr>in_wait_idle := False\<rparr> else s\<lparr>in_wait_idle := True, wait_idle_blocked := True\<rparr>)"

text \<open>
  The notifications. \<open>notify_one\<close> unblocks one of the threads that are blocked, whichever; it unblocks
  nobody when nobody is.
\<close>

definition notify_one :: "bool \<Rightarrow> host_loop \<Rightarrow> host_loop" where
  "notify_one the_worker s =
     (if the_worker then s\<lparr>worker_blocked := False, to_notify := to_notify s - 1\<rparr>
      else s\<lparr>run_forever_blocked := False, to_notify := to_notify s - 1\<rparr>)"

text \<open>\<open>blocking\<close> says whether a thread may call \<open>run_forever\<close>.\<close>

inductive host_step :: "nat \<Rightarrow> bool \<Rightarrow> host_loop \<Rightarrow> host_loop \<Rightarrow> bool" for n blocking where
  push: "host_step n blocking s (snd (host_push n c s))"
| stop: "host_step n blocking s (host_end s)"
| take: "\<not> worker_blocked s \<Longrightarrow> \<not> worker_done (mock s) \<Longrightarrow> running_cmd (mock s) = None \<Longrightarrow>
    host_step n blocking s (host_take s)"
| finish: "running_cmd (mock s) \<noteq> None \<Longrightarrow> host_step n blocking s (host_finish s)"
| run_forever: "blocking \<Longrightarrow> \<not> run_forever_blocked s \<Longrightarrow> host_step n blocking s (host_run_forever s)"
| wait_idle: "\<not> wait_idle_blocked s \<Longrightarrow> host_step n blocking s (host_wait_idle s)"
| one: "0 < to_notify s \<Longrightarrow> (if w then worker_blocked s \<or> \<not> run_forever_blocked s else run_forever_blocked s) \<Longrightarrow>
    host_step n blocking s (notify_one w s)"
| all: "notify_end s \<Longrightarrow>
    host_step n blocking s (s\<lparr>notify_end := False, worker_blocked := False, run_forever_blocked := False\<rparr>)"
| idle: "notify_idle s \<Longrightarrow> host_step n blocking s (s\<lparr>notify_idle := False, wait_idle_blocked := False\<rparr>)"

inductive host_reach :: "nat \<Rightarrow> bool \<Rightarrow> host_loop \<Rightarrow> bool" for n blocking where
  init: "host_reach n blocking host_loop_new"
| step: "host_reach n blocking s \<Longrightarrow> host_step n blocking s s' \<Longrightarrow> host_reach n blocking s'"

text \<open>A step of the loop's own threads: not a new push, call or the destruction.\<close>

inductive host_progress :: "host_loop \<Rightarrow> bool" where
  "\<not> worker_blocked s \<Longrightarrow> \<not> worker_done (mock s) \<Longrightarrow> running_cmd (mock s) = None \<Longrightarrow> host_progress s"
| "running_cmd (mock s) \<noteq> None \<Longrightarrow> host_progress s"
| "in_run_forever s \<Longrightarrow> \<not> run_forever_blocked s \<Longrightarrow> host_progress s"
| "in_wait_idle s \<Longrightarrow> \<not> wait_idle_blocked s \<Longrightarrow> host_progress s"
| "0 < to_notify s \<Longrightarrow> host_progress s"
| "notify_end s \<Longrightarrow> host_progress s"
| "notify_idle s \<Longrightarrow> host_progress s"

inductive_simps host_progress_iff: "host_progress s"

code_pred host_progress .

section \<open>No wake-up is lost among the worker and wait_idle\<close>

text \<open>Whoever is blocked has no reason to go on, or its notification is still to come; the worker of a
  destroyed loop leaves with an empty queue.\<close>

definition wake_inv :: "host_loop \<Rightarrow> bool" where
  "wake_inv s \<longleftrightarrow>
     (worker_blocked s \<longrightarrow> mock_queue (mock s) \<noteq> [] \<longrightarrow> 0 < to_notify s) \<and>
     (worker_blocked s \<longrightarrow> stop_requested (mock s) \<longrightarrow> notify_end s) \<and>
     (wait_idle_blocked s \<longrightarrow> idle (mock s) \<longrightarrow> notify_idle s) \<and>
     (busy (mock s) \<longleftrightarrow> running_cmd (mock s) \<noteq> None) \<and> (wait_idle_blocked s \<longrightarrow> in_wait_idle s) \<and>
     (worker_blocked s \<longrightarrow> running_cmd (mock s) = None \<and> \<not> worker_done (mock s)) \<and>
     (worker_done (mock s) \<longrightarrow> running_cmd (mock s) = None \<and> stop_requested (mock s)) \<and>
     \<not> run_forever_blocked s \<and> \<not> in_run_forever s"

lemmas host_defs = host_push_def host_end_def host_take_def host_finish_def host_run_forever_def host_wait_idle_def
  notify_one_def mock_push_func_def worker_take_def worker_finish_def request_stop_def idle_def

lemma host_step_inv:
  assumes "host_step n False s s'" "wake_inv s"
  shows "wake_inv s'"
  using assms(1)
proof cases
  case (push c)
  with assms(2) show ?thesis by (simp add: wake_inv_def host_defs)
next
  case stop
  with assms(2) show ?thesis by (simp add: wake_inv_def host_defs)
next
  case take
  with assms(2) show ?thesis by (simp add: wake_inv_def host_defs)
next
  case finish
  with assms(2) show ?thesis by (auto simp: wake_inv_def host_defs)
next
  case wait_idle
  with assms(2) show ?thesis by (cases "idle (mock s)") (auto simp: wake_inv_def host_defs)
next
  case (one w)
  with assms(2) show ?thesis by (cases w) (simp_all add: wake_inv_def host_defs)
qed (use assms(2) in \<open>auto simp: wake_inv_def host_defs\<close>)

lemma host_reach_inv: "host_reach n False s \<Longrightarrow> wake_inv s"
proof (induction rule: host_reach.induct)
  case init
  show ?case by (simp add: wake_inv_def host_loop_new_def mock_new_def idle_def)
qed (rule host_step_inv)

text \<open>A schedule with a caller of \<open>run_forever\<close>: both threads block, and a push notifies the caller.\<close>

definition stolen :: host_loop where
  "stolen = host_run_forever (notify_one False (snd (host_push 1 \<lparr>cmd_arg = 0, cmd_execute = 0\<rparr>
     (host_run_forever (host_take host_loop_new)))))"

lemma stolen_reach: "host_reach 1 True stolen"
  unfolding stolen_def
  by (rule host_reach.step[OF host_reach.step[OF host_reach.step[OF host_reach.step[OF host_reach.step[OF host_reach.init]]]]];
      (rule host_step.intros; code_simp))

section \<open>Properties\<close>

text \<open>C26: No wake-up is lost between pushes, the worker and \<open>wait_idle\<close>: when no thread of the host's loop can go on and the
  worker has not ended, then the queue is empty, nothing is being executed and every call of
  \<open>wait_idle\<close> has returned.\<close>

theorem no_lost_wakeup:
  assumes "host_reach n False s" "\<not> host_progress s" "\<not> worker_done (mock s)"
  shows "mock_queue (mock s) = [] \<and> \<not> busy (mock s) \<and> \<not> in_wait_idle s"
  using host_reach_inv[OF assms(1)] assms(2,3) by (auto simp: wake_inv_def host_progress_iff idle_def)

theorem no_lost_wakeup_witness:
  "mock_queue (mock (host_take host_loop_new)) = [] \<and> \<not> in_wait_idle (host_take host_loop_new)"
proof -
  have "host_reach 1 False (host_take host_loop_new)"
    by (rule host_reach.step[OF host_reach.init host_step.take]; code_simp)
  moreover have "\<not> host_progress (host_take host_loop_new)" by code_simp
  moreover have "\<not> worker_done (mock (host_take host_loop_new))" by code_simp
  ultimately show ?thesis using no_lost_wakeup by blast
qed

text \<open>A caller of \<open>run_forever\<close> steals wake-ups: it waits on the condition variable of the worker, so the one
  notification of a push may reach it instead; then a command stays in the queue while the worker
  and every other thread are blocked.\<close>

theorem run_forever_steals_wakeup:
  "\<exists>s. host_reach 1 True s \<and> \<not> host_progress s \<and> mock_queue (mock s) \<noteq> [] \<and>
    \<not> worker_done (mock s) \<and> \<not> stop_requested (mock s)"
proof -
  have "\<not> host_progress stolen" by code_simp
  moreover have "mock_queue (mock stolen) \<noteq> []" "\<not> worker_done (mock stolen)" "\<not> stop_requested (mock stolen)"
    by code_simp+
  ultimately show ?thesis using stolen_reach by blast
qed

end
