(* ===== verification/Pm_Lock.thy ===== *)
theory Pm_Lock
  imports Result
begin

text \<open>
  \<open>PmLock\<close> (\<open>pm_lock.hpp\<close>, \<open>pm_lock.cpp\<close>): the RAII wrapper of a power-management lock. The driver
  of ESP-IDF is not part of the repository: it is the parameter \<open>api\<close>, its state a type of its own, and
  what the wrapper relies on is the predicate \<open>pm_laws\<close>, stated over the acquire count of each handle.
\<close>

section \<open>The driver\<close>

datatype lock_type = CpuFreqMax | ApbFreqMax | NoLightSleep

datatype esp_lock_type = ESP_PM_CPU_FREQ_MAX | ESP_PM_APB_FREQ_MAX | ESP_PM_NO_LIGHT_SLEEP

fun convert_lock_type :: "lock_type \<Rightarrow> esp_lock_type" where
  "convert_lock_type CpuFreqMax = ESP_PM_CPU_FREQ_MAX"
| "convert_lock_type ApbFreqMax = ESP_PM_APB_FREQ_MAX"
| "convert_lock_type NoLightSleep = ESP_PM_NO_LIGHT_SLEEP"

text \<open>\<open>esp_pm_lock_create\<close> stores a handle on success; a handle is a number, 0 the null pointer.\<close>

record 'e pm_api =
  pm_create :: "esp_lock_type \<Rightarrow> 'e \<Rightarrow> esp_err \<times> nat \<times> 'e"
  pm_delete :: "nat \<Rightarrow> 'e \<Rightarrow> esp_err \<times> 'e"
  pm_acquire :: "nat \<Rightarrow> 'e \<Rightarrow> esp_err \<times> 'e"
  pm_release :: "nat \<Rightarrow> 'e \<Rightarrow> esp_err \<times> 'e"

text \<open>
  The documented behaviour: \<open>cnt e h\<close> is the number of acquisitions of a lock that exists. Creating may
  fail; releasing an acquired lock and deleting a lock that is not acquired do not; deleting an
  acquired lock is refused.
\<close>

definition pm_laws :: "'e pm_api \<Rightarrow> ('e \<Rightarrow> nat \<Rightarrow> nat option) \<Rightarrow> bool" where
  "pm_laws api cnt \<longleftrightarrow>
     (\<forall>t e. case pm_create api t e of (err, h, e') \<Rightarrow>
        if err = ESP_OK then h \<noteq> 0 \<and> cnt e h = None \<and> cnt e' = (cnt e)(h \<mapsto> 0) else cnt e' = cnt e) \<and>
     (\<forall>h e n. cnt e h = Some n \<longrightarrow> (case pm_acquire api h e of (err, e') \<Rightarrow>
        cnt e' = (if err = ESP_OK then (cnt e)(h \<mapsto> n + 1) else cnt e))) \<and>
     (\<forall>h e n. cnt e h = Some (n + 1) \<longrightarrow> (case pm_release api h e of (err, e') \<Rightarrow>
        err = ESP_OK \<and> cnt e' = (cnt e)(h \<mapsto> n))) \<and>
     (\<forall>h e. cnt e h = Some 0 \<longrightarrow> (case pm_delete api h e of (err, e') \<Rightarrow>
        err = ESP_OK \<and> cnt e' = (cnt e)(h := None)))"

section \<open>The wrapper\<close>

record pm_lock =
  handle :: nat
  lock_kind :: lock_type
  acquired :: bool

definition pm_lock_new :: "lock_type \<Rightarrow> pm_lock" where
  "pm_lock_new t = \<lparr>handle = 0, lock_kind = t, acquired = False\<rparr>"

definition is_enabled :: "pm_lock \<Rightarrow> bool" where
  "is_enabled l \<longleftrightarrow> handle l \<noteq> 0"

definition create_or_delete :: "'e pm_api \<Rightarrow> bool \<Rightarrow> pm_lock \<Rightarrow> 'e \<Rightarrow> esp_err \<times> pm_lock \<times> 'e" where
  "create_or_delete api create l e =
     (if create then
        (case pm_create api (convert_lock_type (lock_kind l)) e of
           (err, h, e) \<Rightarrow> (err, if err = ESP_OK then l\<lparr>handle := h\<rparr> else l, e))
      else
        let (l, e) = (if acquired l then (l\<lparr>acquired := False\<rparr>, snd (pm_release api (handle l) e)) else (l, e))
        in case pm_delete api (handle l) e of (err, e) \<Rightarrow> (err, l\<lparr>handle := 0\<rparr>, e))"

definition enable :: "'e pm_api \<Rightarrow> bool \<Rightarrow> pm_lock \<Rightarrow> 'e \<Rightarrow> esp_err \<times> pm_lock \<times> 'e" where
  "enable api en l e = (if en \<noteq> is_enabled l then create_or_delete api en l e else (ESP_OK, l, e))"

definition acquire_if_enabled :: "'e pm_api \<Rightarrow> pm_lock \<Rightarrow> 'e \<Rightarrow> esp_err \<times> pm_lock \<times> 'e" where
  "acquire_if_enabled api l e =
     (if handle l = 0 \<or> acquired l then (ESP_OK, l, e)
      else case pm_acquire api (handle l) e of
        (err, e) \<Rightarrow> (err, if err = ESP_OK then l\<lparr>acquired := True\<rparr> else l, e))"

definition release :: "'e pm_api \<Rightarrow> pm_lock \<Rightarrow> 'e \<Rightarrow> esp_err \<times> pm_lock \<times> 'e" where
  "release api l e =
     (if handle l = 0 \<or> \<not> acquired l then (ESP_OK, l, e)
      else case pm_release api (handle l) e of
        (err, e) \<Rightarrow> (err, if err = ESP_OK then l\<lparr>acquired := False\<rparr> else l, e))"

text \<open>The move operations, the assignment for two different objects (to itself it does nothing); the destructor is
  \<open>enable(false)\<close>.\<close>

definition move_construct :: "pm_lock \<Rightarrow> pm_lock \<times> pm_lock" where
  "move_construct other =
     (\<lparr>handle = handle other, lock_kind = lock_kind other, acquired = acquired other\<rparr>,
      other\<lparr>handle := 0, acquired := False\<rparr>)"

definition move_assign :: "'e pm_api \<Rightarrow> pm_lock \<Rightarrow> pm_lock \<Rightarrow> 'e \<Rightarrow> pm_lock \<times> pm_lock \<times> 'e" where
  "move_assign api l other e =
     (case enable api False l e of (_, l, e) \<Rightarrow>
        (l\<lparr>handle := handle other, lock_kind := lock_kind other, acquired := acquired other\<rparr>,
         other\<lparr>handle := 0, acquired := False\<rparr>, e))"

section \<open>The wrapper and the driver agree\<close>

text \<open>The lock of an enabled wrapper exists and its count is the flag \<open>acquired\<close>.\<close>

definition pm_rel :: "('e \<Rightarrow> nat \<Rightarrow> nat option) \<Rightarrow> pm_lock \<Rightarrow> 'e \<Rightarrow> bool" where
  "pm_rel cnt l e \<longleftrightarrow>
     (if handle l = 0 then \<not> acquired l else cnt e (handle l) = Some (if acquired l then 1 else 0))"

text \<open>The locks that exist beside the wrapper's own.\<close>

definition others :: "('e \<Rightarrow> nat \<Rightarrow> nat option) \<Rightarrow> pm_lock \<times> 'e \<Rightarrow> nat \<Rightarrow> nat option" where
  "others cnt le = (case le of (l, e) \<Rightarrow> if handle l = 0 then cnt e else (cnt e)(handle l := None))"

lemma pm_lawsD:
  assumes "pm_laws api cnt"
  shows "pm_create api t e = (err, h, e') \<Longrightarrow>
      if err = ESP_OK then h \<noteq> 0 \<and> cnt e h = None \<and> cnt e' = (cnt e)(h \<mapsto> 0) else cnt e' = cnt e"
    and "cnt e h = Some n \<Longrightarrow> pm_acquire api h e = (err, e') \<Longrightarrow>
      cnt e' = (if err = ESP_OK then (cnt e)(h \<mapsto> n + 1) else cnt e)"
    and "cnt e h = Some (n + 1) \<Longrightarrow> pm_release api h e = (err, e') \<Longrightarrow> err = ESP_OK \<and> cnt e' = (cnt e)(h \<mapsto> n)"
    and "cnt e h = Some 0 \<Longrightarrow> pm_delete api h e = (err, e') \<Longrightarrow> err = ESP_OK \<and> cnt e' = (cnt e)(h := None)"
  using assms unfolding pm_laws_def by (metis (mono_tags, lifting) case_prod_conv)+

lemma enable_rel:
  assumes laws: "pm_laws api cnt" and rel: "pm_rel cnt l e"
  shows "case enable api en l e of (err, l', e') \<Rightarrow>
    pm_rel cnt l' e' \<and> others cnt (l', e') = others cnt (l, e) \<and> (\<not> en \<longrightarrow> handle l' = 0) \<and> lock_kind l' = lock_kind l"
proof (cases "en = is_enabled l")
  case True
  then show ?thesis using rel by (auto simp: enable_def is_enabled_def)
next
  case changed: False
  show ?thesis
  proof (cases en)
    case True
    obtain err h e' where c: "pm_create api (convert_lock_type (lock_kind l)) e = (err, h, e')"
      by (cases rule: prod_cases3)
    with pm_lawsD(1)[OF laws c] changed True rel show ?thesis
      by (auto simp: enable_def create_or_delete_def is_enabled_def pm_rel_def others_def fun_eq_iff)
  next
    case False
    with changed have h: "handle l \<noteq> 0" by (simp add: is_enabled_def)
    define e1 where "e1 = (if acquired l then snd (pm_release api (handle l) e) else e)"
    obtain re where re: "pm_release api (handle l) e = re" by blast
    have e1: "cnt e1 = (cnt e)(handle l \<mapsto> 0)"
      using rel h pm_lawsD(3)[OF laws, of e "handle l" 0]
      by (cases "pm_release api (handle l) e") (auto simp: e1_def pm_rel_def fun_eq_iff)
    obtain err e2 where d: "pm_delete api (handle l) e1 = (err, e2)" by fastforce
    have "cnt e2 = (cnt e1)(handle l := None)" using pm_lawsD(4)[OF laws _ d] e1 by simp
    moreover have "enable api en l e = (err, l\<lparr>acquired := False, handle := 0\<rparr>, e2)"
      using changed False d by (auto simp: enable_def create_or_delete_def e1_def Let_def)
    ultimately show ?thesis using e1 h False by (auto simp: pm_rel_def others_def fun_eq_iff)
  qed
qed

lemma acquire_rel:
  assumes laws: "pm_laws api cnt" and rel: "pm_rel cnt l e"
  shows "case acquire_if_enabled api l e of (err, l', e') \<Rightarrow>
    pm_rel cnt l' e' \<and> others cnt (l', e') = others cnt (l, e)"
proof (cases "handle l = 0 \<or> acquired l")
  case False
  obtain err e' where a: "pm_acquire api (handle l) e = (err, e')" by fastforce
  with pm_lawsD(2)[OF laws _ a, of 0] False rel show ?thesis
    by (auto simp: acquire_if_enabled_def pm_rel_def others_def fun_eq_iff)
qed (use rel in \<open>auto simp: acquire_if_enabled_def\<close>)

lemma release_rel:
  assumes laws: "pm_laws api cnt" and rel: "pm_rel cnt l e"
  shows "case release api l e of (err, l', e') \<Rightarrow>
    pm_rel cnt l' e' \<and> others cnt (l', e') = others cnt (l, e) \<and> \<not> acquired l' \<and> handle l' = handle l"
proof (cases "handle l = 0 \<or> \<not> acquired l")
  case False
  obtain err e' where a: "pm_release api (handle l) e = (err, e')" by fastforce
  with pm_lawsD(3)[OF laws _ a, of 0] False rel show ?thesis
    by (auto simp: release_def pm_rel_def others_def fun_eq_iff)
qed (use rel in \<open>auto simp: release_def pm_rel_def split: if_splits\<close>)

text \<open>Two wrappers with different locks: an operation on the first leaves the second alone.\<close>

lemma lock_step:
  assumes "pm_rel cnt lk w" "pm_rel cnt lk' w'" "others cnt (lk', w') = others cnt (lk, w)"
    and "pm_rel cnt m w" "handle m = handle lk \<longrightarrow> handle m = 0"
  shows "pm_rel cnt m w' \<and> (handle m = handle lk' \<longrightarrow> handle m = 0) \<and>
    cnt w' |` (- ({handle lk', handle m} - {0})) = cnt w |` (- ({handle lk, handle m} - {0}))"
proof -
  have o: "others cnt (lk', w') h = others cnt (lk, w) h" for h using assms(3) by simp
  have "handle m \<noteq> 0 \<Longrightarrow> cnt w' (handle m) = cnt w (handle m) \<and> handle m \<noteq> handle lk'"
    using o[of "handle m"] assms(4,5) by (auto simp: others_def pm_rel_def split: if_splits)
  moreover have "h \<notin> {handle lk', handle m} - {0} \<Longrightarrow> h \<notin> {handle lk, handle m} - {0} \<Longrightarrow> cnt w' h = cnt w h"
    and "h \<notin> {handle lk', handle m} - {0} \<Longrightarrow> h \<in> {handle lk, handle m} - {0} \<Longrightarrow> cnt w' h = None"
    and "h \<in> {handle lk', handle m} - {0} \<Longrightarrow> h \<notin> {handle lk, handle m} - {0} \<Longrightarrow> cnt w h = None" for h
    using o[of h] by (auto simp: others_def split: if_splits)
  ultimately show ?thesis using assms(4) by (auto simp: pm_rel_def fun_eq_iff restrict_map_def)
qed

section \<open>A driver\<close>

text \<open>A driver that keeps one count per handle it has given out, and never fails: the laws can hold.\<close>

definition count_at :: "nat option list \<Rightarrow> nat \<Rightarrow> nat option" where
  "count_at e h = (if 0 < h \<and> h \<le> length e then e ! (h - 1) else None)"

definition list_api :: "nat option list pm_api" where
  "list_api =
     \<lparr>pm_create = (\<lambda>t e. (ESP_OK, length e + 1, e @ [Some 0])),
      pm_delete = (\<lambda>h e. if count_at e h = Some 0 then (ESP_OK, e[h - 1 := None]) else (ESP_ERR_INVALID_STATE, e)),
      pm_acquire = (\<lambda>h e. case count_at e h of Some n \<Rightarrow> (ESP_OK, e[h - 1 := Some (n + 1)])
                                             | None \<Rightarrow> (ESP_ERR_INVALID_STATE, e)),
      pm_release = (\<lambda>h e. case count_at e h of Some (Suc n) \<Rightarrow> (ESP_OK, e[h - 1 := Some n])
                                             | _ \<Rightarrow> (ESP_ERR_INVALID_STATE, e))\<rparr>"

lemma list_api_laws: "pm_laws list_api count_at"
  by (auto simp: pm_laws_def list_api_def count_at_def fun_eq_iff nth_append nth_list_update split: if_splits)

end
