(* ===== verification/Main_Loop_Task.thy ===== *)
theory Main_Loop_Task
  imports Pm_Lock
begin

text \<open>
  \<open>MainLoopTask\<close> (\<open>main_loop_task.hpp\<close>, \<open>main_loop_task.cpp\<close>): a task that runs as steps on the main loop.
  The main loop, the timer service, the semaphores and the power-management driver are reached through the
  parameter \<open>api\<close> over a state of any type \<open>'e\<close>. An atomic operation of the code is atomic here; what other
  threads or the callbacks do while a step runs is a list of operations that the step executes at
  that point, and \<open>reset\<close> is cut where it blocks.
\<close>

section \<open>State\<close>

text \<open>\<open>push_step\<close> is \<open>main_loop.push\<close> of this task's \<open>app_loop_step\<close>; \<open>pop_step\<close> is the main loop taking one
  from its queue (\<^const>\<open>None\<close>: there is none). Handles are numbers, 0 the null pointer.\<close>

record 'e task_api =
  pm :: "'e pm_api"
  push_step :: "'e \<Rightarrow> bool \<times> 'e"
  pop_step :: "'e \<Rightarrow> 'e option"
  timer_create :: "'e \<Rightarrow> esp_err \<times> nat \<times> 'e"
  timer_stop :: "nat \<Rightarrow> 'e \<Rightarrow> 'e"
  timer_delete :: "nat \<Rightarrow> 'e \<Rightarrow> 'e"
  timer_start_once :: "nat \<Rightarrow> 64 word \<Rightarrow> 'e \<Rightarrow> 'e"
  sem_create :: "'e \<Rightarrow> nat \<times> 'e"
  sem_give :: "nat \<Rightarrow> 'e \<Rightarrow> 'e"
  sem_delete :: "nat \<Rightarrow> 'e \<Rightarrow> 'e"

record ml_task =
  mt_running :: bool
  mt_stop :: bool
  mt_terminate :: bool
  mt_version :: "32 word"
  mt_inflight :: "32 word"
  mt_timer :: nat
  mt_join :: nat
  mt_sleep :: pm_lock
  mt_apb :: pm_lock

record ml_task_config =
  prevent_light_sleep :: bool
  lock_apb_freq :: bool

definition ml_task_new :: ml_task where
  "ml_task_new = \<lparr>mt_running = False, mt_stop = False, mt_terminate = False, mt_version = 0, mt_inflight = 0,
     mt_timer = 0, mt_join = 0, mt_sleep = pm_lock_new NoLightSleep, mt_apb = pm_lock_new ApbFreqMax\<rparr>"

section \<open>Requests\<close>

text \<open>The first component of each is the result of the push, which the code drops; \<^const>\<open>True\<close> when nothing is
  pushed.\<close>

definition push_counted :: "'e task_api \<Rightarrow> ml_task \<Rightarrow> 'e \<Rightarrow> bool \<times> ml_task \<times> 'e" where
  "push_counted api t e =
     (let t = t\<lparr>mt_inflight := mt_inflight t + 1\<rparr>; (pushed, e) = push_step api e in (pushed, t, e))"

definition politely_request_stop :: "'e task_api \<Rightarrow> ml_task \<Rightarrow> 'e \<Rightarrow> bool \<times> ml_task \<times> 'e" where
  "politely_request_stop api t e =
     (let t = t\<lparr>mt_stop := True\<rparr> in
      if mt_version t > 0 \<and> mt_running t then
        push_counted api t (if mt_timer t \<noteq> 0 then timer_stop api (mt_timer t) e else e)
      else (True, t, e))"

definition next_version :: "32 word \<Rightarrow> 32 word" where
  "next_version prev = (let n = (if prev = 0 then 1 else prev + 1) in if n = 0 then 1 else n)"

definition notify :: "'e task_api \<Rightarrow> bool \<Rightarrow> ml_task \<Rightarrow> 'e \<Rightarrow> bool \<times> ml_task \<times> 'e" where
  "notify api clear_stop t e =
     (if \<not> mt_running t \<or> mt_terminate t then (True, t, e)
      else let t = (if clear_stop then t\<lparr>mt_stop := False\<rparr> else t);
               t = t\<lparr>mt_version := next_version (mt_version t)\<rparr>
           in push_counted api t (if mt_timer t \<noteq> 0 then timer_stop api (mt_timer t) e else e))"

text \<open>The timer's callback.\<close>

definition timer_step :: "'e task_api \<Rightarrow> ml_task \<Rightarrow> 'e \<Rightarrow> bool \<times> ml_task \<times> 'e" where
  "timer_step api t e = push_counted api t e"

datatype task_op = NotifyOp bool | StopOp | TimerOp

definition count_failed :: "nat \<Rightarrow> bool \<times> ml_task \<times> 'e \<Rightarrow> ml_task \<times> 'e \<times> nat" where
  "count_failed failed r = (case r of (pushed, t, e) \<Rightarrow> (t, e, if pushed then failed else failed + 1))"

fun run_op :: "'e task_api \<Rightarrow> task_op \<Rightarrow> ml_task \<times> 'e \<times> nat \<Rightarrow> ml_task \<times> 'e \<times> nat" where
  "run_op api (NotifyOp c) (t, e, failed) = count_failed failed (notify api c t e)"
| "run_op api StopOp (t, e, failed) = count_failed failed (politely_request_stop api t e)"
| "run_op api TimerOp (t, e, failed) = count_failed failed (timer_step api t e)"

section \<open>Start and teardown\<close>

text \<open>\<open>reset\<close> up to the test of \<open>inflight_count_\<close>; the first component says whether it waits for the
  semaphore, \<^const>\<open>None\<close> that another call has claimed the teardown.\<close>

definition reset_claim :: "'e task_api \<Rightarrow> ml_task \<Rightarrow> 'e \<Rightarrow> bool option \<times> ml_task \<times> 'e" where
  "reset_claim api t e =
     (if \<not> mt_running t then (None, t, e)
      else let t = t\<lparr>mt_running := False, mt_terminate := True\<rparr>;
               (t, e) = (if mt_timer t \<noteq> 0
                         then (t\<lparr>mt_timer := 0\<rparr>, timer_delete api (mt_timer t) (timer_stop api (mt_timer t) e))
                         else (t, e))
           in (Some (mt_inflight t > 0 \<and> mt_join t \<noteq> 0), t, e))"

definition reset_release :: "'e task_api \<Rightarrow> ml_task \<Rightarrow> 'e \<Rightarrow> ml_task \<times> 'e" where
  "reset_release api t e =
     (let (t, e) = (if mt_join t \<noteq> 0 then (t\<lparr>mt_join := 0\<rparr>, sem_delete api (mt_join t) e) else (t, e));
          (_, sleep, e) = enable (pm api) False (mt_sleep t) e;
          (_, apb, e) = enable (pm api) False (mt_apb t) e
      in (t\<lparr>mt_sleep := sleep, mt_apb := apb\<rparr>, e))"

text \<open>The whole of it: \<open>blocked\<close> is what the rest of the system does while it waits.\<close>

definition task_reset :: "'e task_api \<Rightarrow> (ml_task \<times> 'e \<Rightarrow> ml_task \<times> 'e) \<Rightarrow> ml_task \<Rightarrow> 'e \<Rightarrow> ml_task \<times> 'e" where
  "task_reset api blocked t e =
     (case reset_claim api t e of
        (None, t, e) \<Rightarrow> (t, e)
      | (Some waits, t, e) \<Rightarrow> (let (t, e) = (if waits then blocked (t, e) else (t, e)) in reset_release api t e))"

definition ensure_join :: "'e task_api \<Rightarrow> ml_task \<Rightarrow> 'e \<Rightarrow> ml_task \<times> 'e" where
  "ensure_join api t e =
     (if mt_join t = 0 then (let (h, e) = sem_create api e in (t\<lparr>mt_join := h\<rparr>, e)) else (t, e))"

text \<open>Inside \<open>start_internal\<close> nothing is in flight when \<open>reset\<close> is called, so it does not wait.\<close>

definition start_internal :: "'e task_api \<Rightarrow> ml_task_config \<Rightarrow> ml_task \<Rightarrow> 'e \<Rightarrow> esp_err \<times> ml_task \<times> 'e" where
  "start_internal api config t e =
     (if mt_running t then (ESP_ERR_INVALID_STATE, t, e)
      else
        let t = t\<lparr>mt_running := True, mt_stop := False, mt_terminate := False, mt_version := 1, mt_inflight := 0\<rparr>;
            (_, sleep, e) = enable (pm api) (prevent_light_sleep config) (mt_sleep t) e;
            (_, apb, e) = enable (pm api) (lock_apb_freq config) (mt_apb t) e;
            t = t\<lparr>mt_sleep := sleep, mt_apb := apb\<rparr>;
            (t, e) = ensure_join api t e
        in if mt_join t = 0 then (ESP_ERR_NO_MEM, task_reset api id t e)
           else case timer_create api e of (err, h, e) \<Rightarrow>
             let t = (if err = ESP_OK then t\<lparr>mt_timer := h\<rparr> else t) in
             if err \<noteq> ESP_OK then (ESP_FAIL, task_reset api id t e)
             else case push_counted api t e of (pushed, t, e) \<Rightarrow>
               if \<not> pushed then (ESP_FAIL, task_reset api id (t\<lparr>mt_inflight := mt_inflight t - 1\<rparr>) e)
               else (ESP_OK, t, e))"

section \<open>A step\<close>

definition deactivate :: "32 word \<Rightarrow> ml_task \<Rightarrow> ml_task" where
  "deactivate current t = (if mt_version t = current then t\<lparr>mt_version := 0\<rparr> else t)"

definition exit_decrement :: "'e task_api \<Rightarrow> ml_task \<Rightarrow> 'e \<Rightarrow> ml_task \<times> 'e" where
  "exit_decrement api t e =
     (let prev = mt_inflight t; t = t\<lparr>mt_inflight := prev - 1\<rparr>
      in (t, if prev = 1 \<and> mt_terminate t \<and> mt_join t \<noteq> 0 then sem_give api (mt_join t) e else e))"

text \<open>\<open>app_loop_step\<close>: \<open>delay_ms\<close> is what \<open>on_step\<close> returns, \<open>during\<close> and \<open>stopping\<close> are the operations that
  happen while \<open>on_step\<close> and \<open>on_stop\<close> run.\<close>

definition run_ops :: "'e task_api \<Rightarrow> task_op list \<Rightarrow> ml_task \<times> 'e \<times> nat \<Rightarrow> ml_task \<times> 'e \<times> nat" where
  "run_ops api ops s = fold (run_op api) ops s"

definition acquire_locks :: "'e task_api \<Rightarrow> ml_task \<Rightarrow> 'e \<Rightarrow> ml_task \<times> 'e" where
  "acquire_locks api t e =
     (let (_, sleep, e) = acquire_if_enabled (pm api) (mt_sleep t) e;
          (_, apb, e) = acquire_if_enabled (pm api) (mt_apb t) e
      in (t\<lparr>mt_sleep := sleep, mt_apb := apb\<rparr>, e))"

definition release_locks :: "'e task_api \<Rightarrow> ml_task \<Rightarrow> 'e \<Rightarrow> ml_task \<times> 'e" where
  "release_locks api t e =
     (let (_, sleep, e) = release (pm api) (mt_sleep t) e;
          (_, apb, e) = release (pm api) (mt_apb t) e
      in (t\<lparr>mt_sleep := sleep, mt_apb := apb\<rparr>, e))"

definition step_body :: "'e task_api \<Rightarrow> 32 word option \<Rightarrow> task_op list \<Rightarrow> task_op list \<Rightarrow> 32 word \<Rightarrow>
    ml_task \<times> 'e \<times> nat \<Rightarrow> ml_task \<times> 'e \<times> nat" where
  "step_body api delay_ms during stopping current s =
     (case s of (t, e, failed) \<Rightarrow>
        if mt_stop t then
          (case run_ops api stopping (t, e, failed) of (t, e, failed) \<Rightarrow> (deactivate current t, e, failed))
        else case run_ops api during (t, e, failed) of (t, e, failed) \<Rightarrow>
          (case delay_ms of
             Some d \<Rightarrow>
               (t, if \<not> mt_terminate t \<and> mt_timer t \<noteq> 0
                   then timer_start_once api (mt_timer t) (ucast d * 1000) (timer_stop api (mt_timer t) e) else e, failed)
           | None \<Rightarrow>
               (case run_ops api stopping (t, e, failed) of (t, e, failed) \<Rightarrow> (deactivate current t, e, failed))))"

definition app_loop_step :: "'e task_api \<Rightarrow> 32 word option \<Rightarrow> task_op list \<Rightarrow> task_op list \<Rightarrow>
    ml_task \<times> 'e \<times> nat \<Rightarrow> ml_task \<times> 'e \<times> nat" where
  "app_loop_step api delay_ms during stopping s =
     (case s of (t, e, failed) \<Rightarrow>
        let current = mt_version t;
            (t, e, failed) =
              (if mt_terminate t \<or> current = 0 then (t, e, failed)
               else let (t, e) = acquire_locks api t e;
                        (t, e, failed) = step_body api delay_ms during stopping current (t, e, failed);
                        (t, e) = release_locks api t e
                    in (t, e, failed));
            (t, e) = exit_decrement api t e
        in (t, e, failed))"

section \<open>Tasks with functions\<close>

text \<open>
  \<open>MainLoopTask<TaskData>\<close>: the base object, the pointer to the data and the step and stop functions (of any types
  \<open>'f\<close>, \<open>'g\<close>; \<^const>\<open>None\<close> a null pointer), which \<open>call\<close> executes on a state \<open>'s\<close>.
\<close>

record ('d, 'f, 'g) typed_task =
  tt_base :: ml_task
  tt_data :: "'d option"
  tt_step :: "'f option"
  tt_stop :: "'g option"

definition typed_start :: "'e task_api \<Rightarrow> ml_task_config \<Rightarrow> 'd option \<Rightarrow> 'f option \<Rightarrow> 'g option \<Rightarrow>
    ('d, 'f, 'g) typed_task \<Rightarrow> 'e \<Rightarrow> esp_err \<times> ('d, 'f, 'g) typed_task \<times> 'e" where
  "typed_start api config data step_func stop_func t e =
     (let t = t\<lparr>tt_data := data, tt_step := step_func, tt_stop := stop_func\<rparr>;
          (err, b, e) = start_internal api config (tt_base t) e
      in (err, t\<lparr>tt_base := b\<rparr>, e))"

definition on_step :: "('f \<Rightarrow> 's \<Rightarrow> 32 word option \<times> 's) \<Rightarrow> ('d, 'f, 'g) typed_task \<Rightarrow> 's \<Rightarrow> 32 word option \<times> 's" where
  "on_step call t s = (case tt_step t of Some f \<Rightarrow> call f s | None \<Rightarrow> (None, s))"

definition on_stop :: "('g \<Rightarrow> 's \<Rightarrow> 's) \<Rightarrow> ('d, 'f, 'g) typed_task \<Rightarrow> 's \<Rightarrow> 's" where
  "on_stop call t s = (case tt_stop t of Some g \<Rightarrow> call g s | None \<Rightarrow> s)"

text \<open>A refused start has replaced the functions of the running task.\<close>

lemma typed_start_refused:
  "mt_running (tt_base t) \<Longrightarrow> typed_start api config data f g t e =
    (ESP_ERR_INVALID_STATE, t\<lparr>tt_data := data, tt_step := f, tt_stop := g\<rparr>, e)"
  by (simp add: typed_start_def start_internal_def)

section \<open>What the task relies on\<close>

text \<open>
  \<open>pending e\<close> is the number of this task's steps in the main loop's queue and \<open>gives e\<close> the number of
  times a semaphore has been given. Only pushing and taking change the first, only giving the second.
  \<open>push_laws\<close> is the part about pushing, \<open>task_laws\<close> adds the rest.
\<close>

definition push_laws :: "'e task_api \<Rightarrow> ('e \<Rightarrow> nat) \<Rightarrow> bool" where
  "push_laws api pending \<longleftrightarrow>
     (\<forall>e b e'. push_step api e = (b, e') \<longrightarrow> pending e' = pending e + (if b then 1 else 0)) \<and>
     (\<forall>e err h e'. timer_create api e = (err, h, e') \<longrightarrow> pending e' = pending e) \<and>
     (\<forall>h us e. pending (timer_stop api h e) = pending e \<and> pending (timer_delete api h e) = pending e \<and>
        pending (timer_start_once api h us e) = pending e \<and>
        pending (sem_give api h e) = pending e \<and> pending (sem_delete api h e) = pending e) \<and>
     (\<forall>e h e'. sem_create api e = (h, e') \<longrightarrow> pending e' = pending e) \<and>
     (\<forall>ty e err h e'. pm_create (pm api) ty e = (err, h, e') \<longrightarrow> pending e' = pending e) \<and>
     (\<forall>h e. pending (snd (pm_delete (pm api) h e)) = pending e \<and> pending (snd (pm_acquire (pm api) h e)) = pending e \<and>
        pending (snd (pm_release (pm api) h e)) = pending e)"

definition task_laws :: "'e task_api \<Rightarrow> ('e \<Rightarrow> nat) \<Rightarrow> ('e \<Rightarrow> nat) \<Rightarrow> bool" where
  "task_laws api pending gives \<longleftrightarrow> push_laws api pending \<and>
     (\<forall>e. case pop_step api e of None \<Rightarrow> pending e = 0
         | Some e' \<Rightarrow> pending e = Suc (pending e') \<and> gives e' = gives e) \<and>
     (\<forall>h e. gives (timer_stop api h e) = gives e \<and> gives (timer_delete api h e) = gives e \<and>
        gives (sem_give api h e) = gives e + 1)"

lemma push_lawsD:
  assumes "push_laws api pending"
  shows "push_step api e = (b, e') \<Longrightarrow> pending e' = pending e + (if b then 1 else 0)"
    and "timer_create api e = (err, h, e') \<Longrightarrow> pending e' = pending e"
    and "sem_create api e = (h, e') \<Longrightarrow> pending e' = pending e"
    and "pm_create (pm api) ty e = (err, h, e') \<Longrightarrow> pending e' = pending e"
    and "pending (timer_stop api h e) = pending e" "pending (timer_delete api h e) = pending e"
    and "pending (timer_start_once api h us e) = pending e"
    and "pending (sem_give api h e) = pending e" "pending (sem_delete api h e) = pending e"
    and "pending (snd (pm_delete (pm api) h e)) = pending e" "pending (snd (pm_acquire (pm api) h e)) = pending e"
    and "pending (snd (pm_release (pm api) h e)) = pending e"
  using assms unfolding push_laws_def by simp_all

lemma task_lawsD:
  assumes "task_laws api pending gives"
  shows "push_laws api pending" and "pop_step api e = None \<Longrightarrow> pending e = 0"
    and "pop_step api e = Some e' \<Longrightarrow> pending e = Suc (pending e') \<and> gives e' = gives e"
    and "gives (timer_stop api h e) = gives e" "gives (timer_delete api h e) = gives e"
    and "gives (sem_give api h e) = gives e + 1"
  using assms unfolding task_laws_def by (simp_all split: option.splits) (metis option.simps(4,5))+

lemma pm_frame:
  assumes "push_laws api pending"
  shows "acquire_if_enabled (pm api) l e = (err, l', e') \<Longrightarrow> pending e' = pending e"
    and "release (pm api) l e = (err, l', e') \<Longrightarrow> pending e' = pending e"
    and "enable (pm api) en l e = (err, l', e') \<Longrightarrow> pending e' = pending e"
proof -
  have d: "pm_delete (pm api) h e = (err, e') \<Longrightarrow> pending e' = pending e"
    and r: "pm_release (pm api) h e = (err, e') \<Longrightarrow> pending e' = pending e"
    and a: "pm_acquire (pm api) h e = (err, e') \<Longrightarrow> pending e' = pending e" for h e err e'
    using push_lawsD(10-12)[OF assms, of h e] by simp_all
  show "acquire_if_enabled (pm api) l e = (err, l', e') \<Longrightarrow> pending e' = pending e"
    by (auto simp: acquire_if_enabled_def split: if_splits prod.splits dest: a)
  show "release (pm api) l e = (err, l', e') \<Longrightarrow> pending e' = pending e"
    by (auto simp: release_def split: if_splits prod.splits dest: r)
  show "enable (pm api) en l e = (err, l', e') \<Longrightarrow> pending e' = pending e"
    using push_lawsD(12)[OF assms, of "handle l" e]
    by (auto simp: enable_def create_or_delete_def Let_def split: if_splits prod.splits dest!: d push_lawsD(4)[OF assms])
qed

section \<open>Accounting for steps in flight\<close>

text \<open>With \<open>k\<close> steps being executed and \<open>f\<close> pushes that failed unnoticed.\<close>

definition inflight_ok :: "('e \<Rightarrow> nat) \<Rightarrow> nat \<Rightarrow> ml_task \<times> 'e \<times> nat \<Rightarrow> bool" where
  "inflight_ok pending k s = (case s of (t, e, f) \<Rightarrow> mt_inflight t = of_nat (pending e + k + f))"

lemma push_counted_ok:
  assumes "push_laws api pending" "inflight_ok pending k (t, e, f)"
    and "mt_inflight u = mt_inflight t" "pending e1 = pending e"
  shows "inflight_ok pending k (count_failed f (push_counted api u e1))"
proof -
  obtain b e2 where p: "push_step api e1 = (b, e2)" by fastforce
  with push_lawsD(1)[OF assms(1) p] assms show ?thesis
    by (auto simp: inflight_ok_def push_counted_def count_failed_def Let_def)
qed

lemma run_op_ok:
  assumes laws: "push_laws api pending" and ok: "inflight_ok pending k (t, e, f)"
  shows "inflight_ok pending k (run_op api op (t, e, f))"
proof -
  note p = push_counted_ok[OF laws ok]
  have idle: "inflight_ok pending k (count_failed f (True, u, e))" if "mt_inflight u = mt_inflight t" for u
    using ok that by (simp add: inflight_ok_def count_failed_def)
  have stop: "pending (if c then timer_stop api h e else e) = pending e" for c h
    using push_lawsD(5)[OF laws] by simp
  have branch: "(c \<Longrightarrow> inflight_ok pending k (count_failed f x)) \<Longrightarrow> (\<not> c \<Longrightarrow> inflight_ok pending k (count_failed f y)) \<Longrightarrow>
      inflight_ok pending k (count_failed f (if c then x else y))" for c x y by simp
  show ?thesis
  proof (cases op)
    case (NotifyOp c)
    have "inflight_ok pending k (count_failed f (notify api c t e))"
      unfolding notify_def Let_def by (rule branch, rule idle, simp, rule p, simp, rule stop)
    with NotifyOp show ?thesis by simp
  next
    case StopOp
    have "inflight_ok pending k (count_failed f (politely_request_stop api t e))"
      unfolding politely_request_stop_def Let_def by (rule branch, rule p, simp, rule stop, rule idle, simp)
    with StopOp show ?thesis by simp
  next
    case TimerOp
    then show ?thesis using p[of t e] by (simp add: timer_step_def)
  qed
qed

lemma run_ops_ok:
  assumes "push_laws api pending"
  shows "inflight_ok pending k s \<Longrightarrow> inflight_ok pending k (run_ops api ops s)"
  unfolding run_ops_def
proof (induction ops arbitrary: s)
  case (Cons op ops)
  obtain t e f where "s = (t, e, f)" by (cases s)
  with Cons run_op_ok[OF assms, of k t e f op] show ?case by simp
qed simp

text \<open>What an operation leaves alone.\<close>

definition same_setup :: "ml_task \<Rightarrow> ml_task \<Rightarrow> bool" where
  "same_setup t t' \<longleftrightarrow> mt_running t' = mt_running t \<and> mt_terminate t' = mt_terminate t \<and> mt_timer t' = mt_timer t \<and>
     mt_join t' = mt_join t \<and> mt_sleep t' = mt_sleep t \<and> mt_apb t' = mt_apb t"

lemma same_setup_refl [simp]: "same_setup t t"
  by (simp add: same_setup_def)

lemma run_op_setup: "run_op api op (t, e, f) = (t', e', f') \<Longrightarrow> same_setup t t'"
  by (cases op) (auto simp: count_failed_def notify_def politely_request_stop_def timer_step_def push_counted_def
      same_setup_def Let_def split: prod.splits if_splits)

lemma run_ops_setup: "run_ops api ops (t, e, f) = (t', e', f') \<Longrightarrow> same_setup t t'"
  unfolding run_ops_def
proof (induction ops arbitrary: t e f)
  case (Cons op ops)
  obtain t1 e1 f1 where 1: "run_op api op (t, e, f) = (t1, e1, f1)" by (cases "run_op api op (t, e, f)")
  with Cons run_op_setup[OF 1] Cons.IH[of t1 e1 f1] show ?case by (simp add: same_setup_def)
qed simp

lemma inflight_okD: "inflight_ok pending k (t, e, f) \<Longrightarrow> mt_inflight t' = mt_inflight t \<Longrightarrow> pending e' = pending e \<Longrightarrow>
    inflight_ok pending k (t', e', f)"
  by (simp add: inflight_ok_def)

lemma locks_ok:
  assumes "push_laws api pending"
  shows "acquire_locks api t e = (t', e') \<Longrightarrow> mt_inflight t' = mt_inflight t \<and> pending e' = pending e"
    and "release_locks api t e = (t', e') \<Longrightarrow> mt_inflight t' = mt_inflight t \<and> pending e' = pending e"
  using pm_frame(1,2)[OF assms] by (auto simp: acquire_locks_def release_locks_def split: prod.splits)

lemma deactivate_inflight [simp]: "mt_inflight (deactivate v t) = mt_inflight t"
  by (simp add: deactivate_def)

lemma step_body_ok:
  assumes laws: "push_laws api pending" and ok: "inflight_ok pending k (t, e, f)"
  shows "inflight_ok pending k (step_body api delay during stopping v (t, e, f))"
proof -
  have deact: "inflight_ok pending k (case run_ops api ops s of (t, e, f) \<Rightarrow> (deactivate v t, e, f))"
    if "inflight_ok pending k s" for s ops
    using run_ops_ok[OF laws that, of ops] by (simp add: inflight_ok_def split: prod.splits)
  obtain t1 e1 f1 where r: "run_ops api during (t, e, f) = (t1, e1, f1)" by (cases "run_ops api during (t, e, f)")
  have ok1: "inflight_ok pending k (t1, e1, f1)" using run_ops_ok[OF laws ok, of during] r by simp
  then have "inflight_ok pending k (t1, timer_start_once api h us (timer_stop api h e1), f1)" for h us
    by (rule inflight_okD) (simp_all add: push_lawsD(5,7)[OF laws])
  then show ?thesis
    using deact[OF ok] deact[OF ok1] ok1 by (simp add: step_body_def r split: option.split)
qed

lemma exit_decrement_ok:
  assumes "push_laws api pending" "inflight_ok pending 1 (t, e, f)" "exit_decrement api t e = (t', e')"
  shows "inflight_ok pending 0 (t', e', f)"
  using assms push_lawsD(8)[OF assms(1)] by (auto simp: inflight_ok_def exit_decrement_def Let_def split: if_splits)

lemma app_loop_step_ok:
  assumes laws: "push_laws api pending" and ok: "inflight_ok pending 1 (t, e, f)"
  shows "inflight_ok pending 0 (app_loop_step api delay during stopping (t, e, f))"
proof -
  obtain t1 e1 where a: "acquire_locks api t e = (t1, e1)" by fastforce
  obtain t2 e2 f2 where b: "step_body api delay during stopping (mt_version t) (t1, e1, f) = (t2, e2, f2)"
    by (cases "step_body api delay during stopping (mt_version t) (t1, e1, f)")
  obtain t3 e3 where r: "release_locks api t2 e2 = (t3, e3)" by fastforce
  have ok1: "inflight_ok pending 1 (t1, e1, f)"
    by (rule inflight_okD[OF ok]) (simp_all add: locks_ok(1)[OF laws a])
  from step_body_ok[OF laws ok1, of delay during stopping "mt_version t"] have ok2: "inflight_ok pending 1 (t2, e2, f2)"
    by (simp add: b)
  have ok3: "inflight_ok pending 1 (t3, e3, f2)"
    by (rule inflight_okD[OF ok2]) (simp_all add: locks_ok(2)[OF laws r])
  obtain t4 e4 where x: "exit_decrement api t e = (t4, e4)" by fastforce
  obtain t5 e5 where y: "exit_decrement api t3 e3 = (t5, e5)" by fastforce
  show ?thesis
    using exit_decrement_ok[OF laws ok x] exit_decrement_ok[OF laws ok3 y]
    by (simp add: app_loop_step_def Let_def a b r x y)
qed

datatype task_event = Op task_op | Step "32 word option" "task_op list" "task_op list"

text \<open>A step is taken from the queue of the main loop and executed.\<close>

fun run_event :: "'e task_api \<Rightarrow> task_event \<Rightarrow> ml_task \<times> 'e \<times> nat \<Rightarrow> ml_task \<times> 'e \<times> nat" where
  "run_event api (Op op) s = run_op api op s"
| "run_event api (Step delay during stopping) (t, e, f) =
     (case pop_step api e of None \<Rightarrow> (t, e, f) | Some e' \<Rightarrow> app_loop_step api delay during stopping (t, e', f))"

lemma run_event_ok:
  assumes laws: "task_laws api pending gives" and ok: "inflight_ok pending 0 (t, e, f)"
  shows "inflight_ok pending 0 (run_event api ev (t, e, f))"
proof (cases ev)
  case (Step delay during stopping)
  show ?thesis
  proof (cases "pop_step api e")
    case (Some e')
    have "inflight_ok pending 1 (t, e', f)"
      using ok task_lawsD(3)[OF laws Some] by (simp add: inflight_ok_def)
    from app_loop_step_ok[OF task_lawsD(1)[OF laws] this] show ?thesis by (simp add: Step Some)
  qed (use ok Step in simp)
qed (simp add: run_op_ok[OF task_lawsD(1)[OF laws] ok])

lemma run_events_ok:
  assumes "task_laws api pending gives"
  shows "inflight_ok pending 0 s \<Longrightarrow> inflight_ok pending 0 (fold (run_event api) evs s)"
proof (induction evs arbitrary: s)
  case (Cons ev evs)
  obtain t e f where "s = (t, e, f)" by (cases s)
  with Cons run_event_ok[OF assms, of t e f ev] show ?case by simp
qed simp

text \<open>While the task is torn down its steps do nothing but count down, and the last one gives the
  semaphore.\<close>

lemma teardown_step:
  assumes "mt_terminate t"
  shows "app_loop_step api delay during stopping (t, e, f) =
    (t\<lparr>mt_inflight := mt_inflight t - 1\<rparr>,
     if mt_inflight t = 1 \<and> mt_join t \<noteq> 0 then sem_give api (mt_join t) e else e, f)"
  using assms by (simp add: app_loop_step_def exit_decrement_def Let_def)

definition drain_steps :: "'e task_api \<Rightarrow> nat \<Rightarrow> ml_task \<times> 'e \<times> nat \<Rightarrow> ml_task \<times> 'e \<times> nat" where
  "drain_steps api n s = ((run_event api (Step None [] [])) ^^ n) s"

lemma teardown_drains:
  assumes laws: "task_laws api pending gives"
  shows "pending e = n \<Longrightarrow> mt_terminate t \<Longrightarrow> mt_join t \<noteq> 0 \<Longrightarrow> mt_inflight t = of_nat (n + f) \<Longrightarrow>
    n + f < 2 ^ 32 \<Longrightarrow>
    (case drain_steps api n (t, e, f) of (t', e', f') \<Rightarrow>
       pending e' = 0 \<and> mt_inflight t' = of_nat f \<and> gives e' = gives e + (if 0 < n \<and> f = 0 then 1 else 0))"
proof (induction n arbitrary: t e)
  case (Suc n)
  obtain e1 where p: "pop_step api e = Some e1" "pending e1 = n" "gives e1 = gives e"
  proof (cases "pop_step api e")
    case None
    then show ?thesis using task_lawsD(2)[OF laws None] Suc.prems(1) by simp
  next
    case (Some e1)
    then show ?thesis using task_lawsD(3)[OF laws Some] Suc.prems(1) by (intro that[of e1]) simp_all
  qed
  let ?t = "t\<lparr>mt_inflight := mt_inflight t - 1\<rparr>"
  define last where "last = (mt_inflight t = 1)"
  let ?e = "if last then sem_give api (mt_join t) e1 else e1"
  have step: "run_event api (Step None [] []) (t, e, f) = (?t, ?e, f)"
    using Suc.prems(2,3) p by (simp add: teardown_step last_def)
  have "unat (mt_inflight t) = Suc n + f"
    unfolding Suc.prems(4) by (rule unat_of_nat_32[OF Suc.prems(5)])
  then have last: "last \<longleftrightarrow> n = 0 \<and> f = 0"
    unfolding last_def unat_eq_1_iff[symmetric] by simp
  have "mt_inflight ?t = of_nat (n + f)" using Suc.prems(4) by simp
  with Suc.IH[of ?e ?t] Suc.prems p have
    "case drain_steps api n (?t, ?e, f) of (t', e', f') \<Rightarrow> pending e' = 0 \<and> mt_inflight t' = of_nat f \<and>
       gives e' = gives ?e + (if 0 < n \<and> f = 0 then 1 else 0)"
    by (simp add: push_lawsD(8)[OF task_lawsD(1)[OF laws]])
  moreover have "drain_steps api (Suc n) (t, e, f) = drain_steps api n (?t, ?e, f)"
    by (simp only: drain_steps_def funpow_Suc_right comp_def step)
  ultimately show ?case using last p(3) by (auto simp: task_lawsD(6)[OF laws] split: prod.splits)
qed (simp add: drain_steps_def)

section \<open>Starting\<close>

lemma start_ok:
  assumes laws: "push_laws api pending" and "pending e = 0"
    and start: "start_internal api config t e = (ESP_OK, t1, e1)"
  shows "inflight_ok pending 0 (t1, e1, 0) \<and> mt_running t1 \<and> \<not> mt_terminate t1 \<and> mt_join t1 \<noteq> 0"
proof -
  let ?t = "t\<lparr>mt_running := True, mt_stop := False, mt_terminate := False, mt_version := 1, mt_inflight := 0\<rparr>"
  have nr: "\<not> mt_running t" using start by (auto simp: start_internal_def)
  obtain r2 s2 e2 where a: "enable (pm api) (prevent_light_sleep config) (mt_sleep t) e = (r2, s2, e2)"
    by (cases rule: prod_cases3)
  obtain r3 s3 e3 where b: "enable (pm api) (lock_apb_freq config) (mt_apb t) e2 = (r3, s3, e3)"
    by (cases rule: prod_cases3)
  define t3 where "t3 = ?t\<lparr>mt_sleep := s2, mt_apb := s3\<rparr>"
  obtain t4 e4 where c: "ensure_join api t3 e3 = (t4, e4)" by fastforce
  obtain err h e5 where d: "timer_create api e4 = (err, h, e5)" by (cases rule: prod_cases3)
  have pend: "pending e5 = 0"
    using pm_frame(3)[OF laws a] pm_frame(3)[OF laws b] push_lawsD(2)[OF laws d] push_lawsD(3)[OF laws, of e3] c assms(2)
    by (auto simp: ensure_join_def split: if_splits prod.splits)
  have t4: "mt_running t4" "\<not> mt_terminate t4" "mt_inflight t4 = 0"
    using c by (auto simp: ensure_join_def t3_def split: if_splits prod.splits)
  have "mt_join t4 \<noteq> 0 \<and> err = ESP_OK \<and> push_counted api (t4\<lparr>mt_timer := h\<rparr>) e5 = (True, t1, e1)"
    using start nr by (auto simp: start_internal_def Let_def a b t3_def[symmetric] c d split: if_splits prod.splits)
  then show ?thesis
    using t4 pend push_lawsD(1)[OF laws, of e5 True e1]
    by (auto simp: push_counted_def inflight_ok_def Let_def split: prod.splits)
qed

section \<open>Versions\<close>

text \<open>The version counts through the numbers \<open>1..2^32-1\<close> in a cycle.\<close>

lemma next_version_unat: "v \<noteq> 0 \<Longrightarrow> unat (next_version v) = (unat v) mod (2 ^ 32 - 1) + 1"
proof -
  assume v: "v \<noteq> 0"
  show ?thesis
  proof (cases "v + 1 = 0")
    case True
    then have "v = - 1" by (simp add: eq_neg_iff_add_eq_0)
    then show ?thesis by (simp add: next_version_def unsigned_minus_1_eq_mask mask_eq_exp_minus_1)
  next
    case False
    then have n: "unat (v + 1) = unat v + 1" by (metis Suc_eq_plus1 add.commute unatSuc)
    have "unat (v + 1) < 2 ^ 32" using unsigned_less[of "v + 1"] by simp
    with n v False show ?thesis by (simp add: next_version_def)
  qed
qed

lemma next_version_nonzero [simp]: "next_version v \<noteq> 0"
  by (simp add: next_version_def Let_def)

lemma next_versions_unat:
  assumes "v \<noteq> 0"
  shows "(next_version ^^ k) v \<noteq> 0 \<and> unat ((next_version ^^ k) v) = (unat v - 1 + k) mod (2 ^ 32 - 1) + 1"
proof (induction k)
  case 0
  have "0 < unat v" "unat v < 2 ^ 32" using assms unsigned_less[of v] by (simp_all add: unat_gt_0)
  then show ?case using assms by simp
next
  case (Suc k)
  then show ?case using next_version_unat[of "(next_version ^^ k) v"]
    by (simp add: mod_Suc_eq flip: Suc_eq_plus1)
qed

lemma next_versions_eq:
  assumes "v \<noteq> 0" "k < 2 ^ 32 - 1"
  shows "(next_version ^^ k) v = v \<longleftrightarrow> k = 0"
proof
  assume eq: "(next_version ^^ k) v = v"
  have v: "0 < unat v" "unat v < 2 ^ 32" using assms(1) unsigned_less[of v] by (simp_all add: unat_gt_0)
  define x where "x = unat v - 1"
  define M :: nat where "M = 2 ^ 32 - 1"
  have x: "x < M" "unat v = x + 1" using v by (simp_all add: x_def M_def)
  have "(x + k) mod M = x"
    using next_versions_unat[OF assms(1), of k] x(2) unfolding eq M_def x_def by (metis add_right_cancel)
  moreover have "(x + k) mod M = (if x + k < M then x + k else x + k - M)"
    using x(1) assms(2) by (simp add: M_def le_mod_geq)
  ultimately show "k = 0" using assms(2) by (auto simp: M_def split: if_splits)
qed simp

definition notifies :: "task_op list \<Rightarrow> nat" where
  "notifies ops = length (filter (\<lambda>op. case op of NotifyOp _ \<Rightarrow> True | _ \<Rightarrow> False) ops)"

lemma run_op_version:
  "mt_running t \<Longrightarrow> \<not> mt_terminate t \<Longrightarrow> run_op api op (t, e, f) = (t', e', f') \<Longrightarrow>
    mt_version t' = (case op of NotifyOp _ \<Rightarrow> next_version (mt_version t) | _ \<Rightarrow> mt_version t)"
  by (cases op) (auto simp: count_failed_def notify_def politely_request_stop_def timer_step_def push_counted_def Let_def
      split: prod.splits if_splits)

lemma run_ops_version:
  "mt_running t \<Longrightarrow> \<not> mt_terminate t \<Longrightarrow> run_ops api ops (t, e, f) = (t', e', f') \<Longrightarrow>
    mt_version t' = (next_version ^^ notifies ops) (mt_version t)"
  unfolding run_ops_def
proof (induction ops arbitrary: t e f)
  case (Cons op ops)
  obtain t1 e1 f1 where 1: "run_op api op (t, e, f) = (t1, e1, f1)" by (cases "run_op api op (t, e, f)")
  have "same_setup t t1" by (rule run_op_setup[OF 1])
  then have "mt_running t1" "\<not> mt_terminate t1" using Cons.prems(1,2) by (simp_all add: same_setup_def)
  from Cons.IH[OF this] Cons.prems(3) have "mt_version t' = (next_version ^^ notifies ops) (mt_version t1)"
    by (simp add: 1)
  then show ?case
    using run_op_version[OF Cons.prems(1,2) 1]
    by (cases op) (simp_all add: notifies_def funpow_swap1)
qed (simp add: notifies_def)

lemma run_ops_append: "run_ops api (xs @ ys) s = run_ops api ys (run_ops api xs s)"
  by (simp add: run_ops_def)

lemma step_body_version:
  assumes "mt_running t" "\<not> mt_terminate t" "current = mt_version t" "current \<noteq> 0"
    and "notifies (if mt_stop t then stopping else during @ stopping) = k" "k < 2 ^ 32 - 1"
    and "step_body api None during stopping current (t, e, f) = (t', e', f')"
  shows "mt_version t' = 0 \<longleftrightarrow> k = 0"
proof -
  define ops where "ops = (if mt_stop t then stopping else during @ stopping)"
  obtain t1 e1 f1 where r: "run_ops api ops (t, e, f) = (t1, e1, f1)" by (cases "run_ops api ops (t, e, f)")
  have v: "mt_version t1 = (next_version ^^ k) (mt_version t)"
    using run_ops_version[OF assms(1,2) r] assms(5) by (simp add: ops_def)
  have "t' = deactivate current t1"
    using assms(7) r by (auto simp: step_body_def ops_def run_ops_append split: prod.splits if_splits)
  then show ?thesis
    using v next_versions_eq[of "mt_version t" k] next_versions_unat[of "mt_version t" k] assms(3,4,6)
    by (auto simp: deactivate_def)
qed

section \<open>Properties\<close>

text \<open>Steps in flight: from a successful start, over any order of notifications, stop requests, firings of the
  timer and steps of the main loop, the counter is the number of queued steps plus the number of
  pushes that failed unnoticed. So \<open>reset\<close> waits exactly when this is positive, and the queued steps
  give the semaphore it waits for, once, exactly when there are some and no push has failed: a
  single failed push makes it wait for its whole timeout.\<close>

theorem task_teardown:
  assumes "task_laws api pending gives" "pending e = 0"
    and "start_internal api config t e = (ESP_OK, t1, e1)"
    and "fold (run_event api) evs (t1, e1, 0) = (t2, e2, f)" "pending e2 + f < 2 ^ 32"
    and "reset_claim api t2 e2 = (Some waits, t3, e3)" "mt_join t2 \<noteq> 0"
  shows "mt_inflight t2 = of_nat (pending e2 + f) \<and> waits = (0 < pending e2 + f) \<and>
    (case drain_steps api (pending e2) (t3, e3, f) of (t', e', f') \<Rightarrow>
       pending e' = 0 \<and> gives e' = gives e2 + (if 0 < pending e2 \<and> f = 0 then 1 else 0))"
proof -
  have "inflight_ok pending 0 (t1, e1, 0)" using start_ok[OF task_lawsD(1)[OF assms(1)] assms(2,3)] by simp
  from run_events_ok[OF assms(1) this, of evs] assms(4) have i: "mt_inflight t2 = of_nat (pending e2 + f)"
    by (simp add: inflight_ok_def)
  have t3: "mt_terminate t3" "mt_join t3 = mt_join t2" "mt_inflight t3 = mt_inflight t2" "pending e3 = pending e2"
    "gives e3 = gives e2" and w: "waits = (mt_inflight t2 > 0 \<and> mt_join t2 \<noteq> 0)"
    using assms(6) by (auto simp: reset_claim_def Let_def task_lawsD(4,5)[OF assms(1)] push_lawsD(5,6)[OF task_lawsD(1)[OF assms(1)]] split: if_splits)
  have "mt_inflight t2 > 0 \<longleftrightarrow> 0 < pending e2 + f"
    using unat_of_nat_32[OF assms(5)] by (metis i unat_gt_0 word_neq_0_conv)
  then show ?thesis
    using teardown_drains[OF assms(1) t3(4) t3(1), of f] t3 w i assms(5,7)
    by (auto split: prod.splits)
qed

text \<open>The queue of the main loop with one place, as a pair of the steps queued and the gives.\<close>

definition one_place_api :: "(nat \<times> nat) task_api" where
  "one_place_api =
     \<lparr>pm = \<lparr>pm_create = (\<lambda>t e. (ESP_FAIL, 0, e)), pm_delete = (\<lambda>h e. (ESP_OK, e)),
            pm_acquire = (\<lambda>h e. (ESP_OK, e)), pm_release = (\<lambda>h e. (ESP_OK, e))\<rparr>,
      push_step = (\<lambda>(n, g). if n = 0 then (True, (1, g)) else (False, (n, g))),
      pop_step = (\<lambda>(n, g). if n = 0 then None else Some (n - 1, g)),
      timer_create = (\<lambda>e. (ESP_OK, 1, e)), timer_stop = (\<lambda>h e. e), timer_delete = (\<lambda>h e. e),
      timer_start_once = (\<lambda>h us e. e), sem_create = (\<lambda>e. (1, e)), sem_give = (\<lambda>h (n, g). (n, g + 1)),
      sem_delete = (\<lambda>h e. e)\<rparr>"

lemma one_place_laws: "task_laws one_place_api fst snd"
  by (auto simp: task_laws_def push_laws_def one_place_api_def)

lemmas task_run_defs = one_place_api_def start_internal_def ml_task_new_def pm_lock_new_def enable_def is_enabled_def
  ensure_join_def push_counted_def notify_def next_version_def count_failed_def reset_claim_def

theorem task_teardown_witness:
  "case start_internal one_place_api \<lparr>prevent_light_sleep = False, lock_apb_freq = False\<rparr> ml_task_new (0, 0) of
     (err, t1, e1) \<Rightarrow> (case fold (run_event one_place_api) [Op (NotifyOp True)] (t1, e1, 0) of
       (t2, e2, f) \<Rightarrow> (case reset_claim one_place_api t2 e2 of (w, t3, e3) \<Rightarrow> f = 1 \<and> w = Some True \<and>
         (case drain_steps one_place_api 1 (t3, e3, f) of (t', e', f') \<Rightarrow> snd e' = 0)))"
proof -
  define t1 where "t1 = ml_task_new\<lparr>mt_running := True, mt_version := 1, mt_inflight := 1, mt_timer := 1, mt_join := 1\<rparr>"
  define t2 where "t2 = t1\<lparr>mt_version := 2, mt_inflight := 2\<rparr>"
  define t3 where "t3 = t2\<lparr>mt_running := False, mt_terminate := True, mt_timer := 0\<rparr>"
  note defs = task_run_defs t3_def t2_def t1_def
  have 1: "start_internal one_place_api \<lparr>prevent_light_sleep = False, lock_apb_freq = False\<rparr> ml_task_new (0, 0)
      = (ESP_OK, t1, (1, 0))"
    by (simp add: defs Let_def)
  have 2: "fold (run_event one_place_api) [Op (NotifyOp True)] (t1, (1, 0), 0) = (t2, (1, 0), 1)"
    by (simp add: defs Let_def)
  have 3: "reset_claim one_place_api t2 (1, 0) = (Some True, t3, (1, 0))"
    by (simp add: defs Let_def)
  have "mt_join t2 \<noteq> 0" by (simp add: t2_def t1_def)
  from task_teardown[OF one_place_laws _ 1 2 _ 3 this]
  have "case drain_steps one_place_api 1 (t3, (1, 0), 1) of (t', e', f') \<Rightarrow> snd e' = 0"
    by (auto split: prod.splits)
  then show ?thesis unfolding 1 prod.case 2 3 by simp
qed

text \<open>C30: A notification is never lost to a completion: when a step ends the sequence (it returns no delay, or a
  stop was requested), the task becomes inactive exactly when nobody has called \<open>notify\<close> since the
  step sampled the version, for up to \<open>2^32 - 2\<close> calls.\<close>

theorem notify_survives_completion:
  assumes "mt_running t" "\<not> mt_terminate t" "mt_version t \<noteq> 0"
    and "notifies (if mt_stop t then stopping else during @ stopping) < 2 ^ 32 - 1"
    and "app_loop_step api None during stopping (t, e, f) = (t', e', f')"
  shows "mt_version t' = 0 \<longleftrightarrow> notifies (if mt_stop t then stopping else during @ stopping) = 0"
proof -
  obtain t1 e1 where a: "acquire_locks api t e = (t1, e1)" by fastforce
  have t1: "mt_running t1" "\<not> mt_terminate t1" "mt_version t1 = mt_version t" "mt_stop t1 = mt_stop t"
    using a assms(1,2) by (auto simp: acquire_locks_def split: prod.splits)
  obtain t2 e2 f2 where b: "step_body api None during stopping (mt_version t) (t1, e1, f) = (t2, e2, f2)"
    by (cases "step_body api None during stopping (mt_version t) (t1, e1, f)")
  have "mt_version t' = mt_version t2"
    using assms(2,3,5) by (auto simp: app_loop_step_def a b Let_def release_locks_def exit_decrement_def split: prod.splits)
  with step_body_version[OF t1(1,2) t1(3)[symmetric] assms(3) refl _ b] t1(4) assms(4) show ?thesis by simp
qed

theorem notify_survives_completion_witness:
  "mt_version (fst (app_loop_step one_place_api None [NotifyOp True] []
      (ml_task_new\<lparr>mt_running := True, mt_version := 1, mt_inflight := 1\<rparr>, (0, 0), 0))) \<noteq> 0"
proof -
  define t where "t = ml_task_new\<lparr>mt_running := True, mt_version := 1, mt_inflight := 1\<rparr>"
  obtain t' e' f' where r: "app_loop_step one_place_api None [NotifyOp True] [] (t, (0, 0), 0) = (t', e', f')"
    by (cases "app_loop_step one_place_api None [NotifyOp True] [] (t, (0, 0), 0)")
  from notify_survives_completion[OF _ _ _ _ r] show ?thesis
    by (simp add: r flip: t_def) (simp add: t_def ml_task_new_def notifies_def)
qed

end
