(* ===== verification/Task_System.thy ===== *)
theory Task_System
  imports Main_Loop Main_Loop_Task
begin

text \<open>
  The tasks of \<open>MainLoopTask\<close> on the command queue of \<open>MainLoop\<close>: any number of task objects, other users of
  the loop, the threads that start, notify, stop, reset and destroy tasks, and the loop's own thread,
  which executes one command at a time. \<open>app_loop_step\<close> is cut at the calls of the user's functions and at
  its last decrement, and \<open>reset\<close> where it blocks, so that everything else may happen in between.
\<close>

section \<open>One platform for all tasks\<close>

text \<open>What the tasks use beside the queue: power management, timers and semaphores.\<close>

record 'w services =
  sv_pm :: "'w pm_api"
  sv_timer_create :: "'w \<Rightarrow> esp_err \<times> nat \<times> 'w"
  sv_timer_stop :: "nat \<Rightarrow> 'w \<Rightarrow> 'w"
  sv_timer_delete :: "nat \<Rightarrow> 'w \<Rightarrow> 'w"
  sv_timer_start_once :: "nat \<Rightarrow> 64 word \<Rightarrow> 'w \<Rightarrow> 'w"
  sv_sem_create :: "'w \<Rightarrow> nat \<times> 'w"
  sv_sem_give :: "nat \<Rightarrow> 'w \<Rightarrow> 'w"
  sv_sem_delete :: "nat \<Rightarrow> 'w \<Rightarrow> 'w"

text \<open>\<open>step_fn\<close> is the address of \<open>trampoline<&MainLoopTaskBase::app_loop_step>()\<close>.\<close>

record ('k, 'w) platform =
  rt :: "'k rtos"
  sv :: "'w services"
  step_fn :: nat

definition step_command :: "('k, 'w) platform \<Rightarrow> nat \<Rightarrow> app_command" where
  "step_command P a = \<lparr>cmd_arg = a, cmd_execute = step_fn P\<rparr>"

definition on_services :: "('w \<Rightarrow> 'x \<times> 'w) \<Rightarrow> 'l \<times> 'w \<Rightarrow> 'x \<times> 'l \<times> 'w" where
  "on_services f lw = (let (x, w) = f (snd lw) in (x, fst lw, w))"

text \<open>What the task object at address \<open>a\<close> sees of it. A step is taken from the queue only while it is the first command.\<close>

definition loop_task_api :: "('k, 'w) platform \<Rightarrow> nat \<Rightarrow> ('k main_loop \<times> 'w) task_api" where
  "loop_task_api P a =
     \<lparr>pm = \<lparr>pm_create = (\<lambda>t (l, w). case pm_create (sv_pm (sv P)) t w of (err, h, w) \<Rightarrow> (err, h, l, w)),
            pm_delete = (\<lambda>h. on_services (pm_delete (sv_pm (sv P)) h)),
            pm_acquire = (\<lambda>h. on_services (pm_acquire (sv_pm (sv P)) h)),
            pm_release = (\<lambda>h. on_services (pm_release (sv_pm (sv P)) h))\<rparr>,
      push_step = (\<lambda>(l, w). case push (rt P) False (step_fn P) id a l of (b, l) \<Rightarrow> (b, l, w)),
      pop_step = (\<lambda>(l, w). case run_round (rt P) l of
        None \<Rightarrow> None | Some (c, l) \<Rightarrow> (if c = step_command P a then Some (l, w) else None)),
      timer_create = (\<lambda>(l, w). case sv_timer_create (sv P) w of (err, h, w) \<Rightarrow> (err, h, l, w)),
      timer_stop = (\<lambda>h (l, w). (l, sv_timer_stop (sv P) h w)),
      timer_delete = (\<lambda>h (l, w). (l, sv_timer_delete (sv P) h w)),
      timer_start_once = (\<lambda>h us (l, w). (l, sv_timer_start_once (sv P) h us w)),
      sem_create = (\<lambda>(l, w). case sv_sem_create (sv P) w of (h, w) \<Rightarrow> (h, l, w)),
      sem_give = (\<lambda>h (l, w). (l, sv_sem_give (sv P) h w)),
      sem_delete = (\<lambda>h (l, w). (l, sv_sem_delete (sv P) h w))\<rparr>"

section \<open>The cut of a step\<close>

text \<open>Where the loop's thread is in the step of a task: in the user's step or stop function (with the version
  it has sampled), before the decrement at the end, or between a decrement to zero and the test whether
  a teardown waits.\<close>

datatype step_pc = InStep "32 word" | InStop "32 word" | Leaving | Exiting

definition step_enter :: "'e task_api \<Rightarrow> ml_task \<Rightarrow> 'e \<Rightarrow> step_pc \<times> ml_task \<times> 'e" where
  "step_enter api t e =
     (let current = mt_version t in
      if mt_terminate t \<or> current = 0 then (Leaving, t, e)
      else let (t, e) = acquire_locks api t e in (if mt_stop t then InStop current else InStep current, t, e))"

text \<open>After \<open>on_step\<close> has returned a delay, and after \<open>on_stop\<close> has returned.\<close>

definition step_delay :: "'e task_api \<Rightarrow> 32 word \<Rightarrow> ml_task \<Rightarrow> 'e \<Rightarrow> ml_task \<times> 'e" where
  "step_delay api d t e =
     release_locks api t
       (if \<not> mt_terminate t \<and> mt_timer t \<noteq> 0
        then timer_start_once api (mt_timer t) (ucast d * 1000) (timer_stop api (mt_timer t) e) else e)"

definition step_stop :: "'e task_api \<Rightarrow> 32 word \<Rightarrow> ml_task \<Rightarrow> 'e \<Rightarrow> ml_task \<times> 'e" where
  "step_stop api current t e = release_locks api (deactivate current t) e"

text \<open>The two halves of the end.\<close>

definition exit_count :: "ml_task \<Rightarrow> step_pc option \<times> ml_task" where
  "exit_count t = (if mt_inflight t = 1 then Some Exiting else None, t\<lparr>mt_inflight := mt_inflight t - 1\<rparr>)"

definition exit_give :: "'e task_api \<Rightarrow> ml_task \<Rightarrow> 'e \<Rightarrow> 'e" where
  "exit_give api t e = (if mt_terminate t \<and> mt_join t \<noteq> 0 then sem_give api (mt_join t) e else e)"

text \<open>Put together again they are \<^const>\<open>exit_decrement\<close> and \<^const>\<open>app_loop_step\<close>.\<close>

lemma exit_halves:
  "exit_decrement api t e =
    (case exit_count t of (pc, t) \<Rightarrow> (t, if pc = Some Exiting then exit_give api t e else e))"
  by (simp add: exit_decrement_def exit_count_def exit_give_def Let_def)

definition whole_step :: "'e task_api \<Rightarrow> 32 word option \<Rightarrow> task_op list \<Rightarrow> task_op list \<Rightarrow>
    ml_task \<times> 'e \<times> nat \<Rightarrow> ml_task \<times> 'e \<times> nat" where
  "whole_step api delay_ms during stopping s =
     (let stop = (\<lambda>v s. case run_ops api stopping s of (t, e, f) \<Rightarrow> (case step_stop api v t e of (t, e) \<Rightarrow> (t, e, f)));
          (t, e, f) = (case s of (t, e, f) \<Rightarrow> case step_enter api t e of (pc, t, e) \<Rightarrow>
            (case pc of
               InStop v \<Rightarrow> stop v (t, e, f)
             | InStep v \<Rightarrow> (case run_ops api during (t, e, f) of (t, e, f) \<Rightarrow>
                 (case delay_ms of
                    Some d \<Rightarrow> (case step_delay api d t e of (t, e) \<Rightarrow> (t, e, f))
                  | None \<Rightarrow> stop v (t, e, f)))
             | _ \<Rightarrow> (t, e, f)));
          (t, e) = exit_decrement api t e
      in (t, e, f))"

lemma release_locks_fields:
  "release_locks api t e = (t', e') \<Longrightarrow> t' = t\<lparr>mt_sleep := mt_sleep t', mt_apb := mt_apb t'\<rparr>"
  by (auto simp: release_locks_def split: prod.splits)

lemma acquire_locks_fields:
  "acquire_locks api t e = (t', e') \<Longrightarrow> t' = t\<lparr>mt_sleep := mt_sleep t', mt_apb := mt_apb t'\<rparr>"
  by (auto simp: acquire_locks_def split: prod.splits)

lemma app_loop_step_phases: "app_loop_step api delay_ms during stopping s = whole_step api delay_ms during stopping s"
proof -
  obtain t e f where s: "s = (t, e, f)" by (cases s)
  obtain t1 e1 where a: "acquire_locks api t e = (t1, e1)" by fastforce
  obtain t2 e2 f2 where r: "run_ops api during (t1, e1, f) = (t2, e2, f2)"
    by (cases "run_ops api during (t1, e1, f)")
  show ?thesis
    by (simp add: s a r app_loop_step_def whole_step_def step_enter_def step_body_def step_delay_def step_stop_def Let_def
        split_beta split: option.split)
qed

section \<open>The cut of a request\<close>

text \<open>A notification, a stop request or a call of the timer's callback: what comes before the push (for the callback
  its dispatch), with whether the request goes on, and the rest.\<close>

fun op_check :: "task_op \<Rightarrow> ml_task \<Rightarrow> bool \<times> ml_task" where
  "op_check (NotifyOp c) t = (mt_running t \<and> \<not> mt_terminate t, t)"
| "op_check StopOp t = (mt_version t > 0 \<and> mt_running t, t\<lparr>mt_stop := True\<rparr>)"
| "op_check TimerOp t = (True, t)"

fun op_push :: "'e task_api \<Rightarrow> task_op \<Rightarrow> ml_task \<Rightarrow> 'e \<Rightarrow> bool \<times> ml_task \<times> 'e" where
  "op_push api (NotifyOp c) t e =
     (let t = (if c then t\<lparr>mt_stop := False\<rparr> else t); t = t\<lparr>mt_version := next_version (mt_version t)\<rparr>
      in push_counted api t (if mt_timer t \<noteq> 0 then timer_stop api (mt_timer t) e else e))"
| "op_push api StopOp t e = push_counted api t (if mt_timer t \<noteq> 0 then timer_stop api (mt_timer t) e else e)"
| "op_push api TimerOp t e = push_counted api t e"

lemma op_halves:
  "run_op api op (t, e, f) =
    (case op_check op t of (go, t) \<Rightarrow> if go then count_failed f (op_push api op t e) else (t, e, f))"
  by (cases op) (auto simp: notify_def politely_request_stop_def timer_step_def count_failed_def)

section \<open>The system\<close>

text \<open>
  Task objects by their address. \<open>missed\<close> counts the pushes of a task that failed unnoticed since it was
  started, \<open>joining\<close> the calls of \<open>reset\<close> that have claimed the teardown, with whether they wait,
  \<open>executing\<close> is the step on the loop's thread, and \<open>checked\<close> a request between its check and its push.
\<close>

record ('k, 'w) task_system =
  tasks :: "nat \<Rightarrow> ml_task option"
  sys_loop :: "'k main_loop"
  world :: 'w
  missed :: "nat \<Rightarrow> nat"
  joining :: "nat \<Rightarrow> bool option"
  executing :: "(nat \<times> step_pc) option"
  checked :: "(nat \<times> task_op) option"

definition env :: "('k, 'w) task_system \<Rightarrow> 'k main_loop \<times> 'w" where
  "env s = (sys_loop s, world s)"

definition put :: "nat \<Rightarrow> ml_task \<Rightarrow> 'k main_loop \<times> 'w \<Rightarrow> nat \<Rightarrow> ('k, 'w) task_system \<Rightarrow> ('k, 'w) task_system" where
  "put a t e f s = s\<lparr>tasks := (tasks s)(a \<mapsto> t), sys_loop := fst e, world := snd e, missed := (missed s)(a := f)\<rparr>"

text \<open>The steps of a task that are queued.\<close>

definition queued :: "('k, 'w) platform \<Rightarrow> ('k \<Rightarrow> app_command list) \<Rightarrow> nat \<Rightarrow> 'k main_loop \<times> 'w \<Rightarrow> nat" where
  "queued P contents a e = count_list (contents (krn (fst e))) (step_command P a)"

text \<open>The step on the loop's thread that still counts as in flight.\<close>

definition in_flight :: "('k, 'w) task_system \<Rightarrow> nat \<Rightarrow> bool" where
  "in_flight s a \<longleftrightarrow> (case executing s of None \<Rightarrow> False | Some (b, pc) \<Rightarrow> b = a \<and> pc \<noteq> Exiting)"

lemma in_flight_iff: "in_flight s a \<longleftrightarrow> (\<exists>pc. executing s = Some (a, pc) \<and> pc \<noteq> Exiting)"
  by (auto simp: in_flight_def split: option.split)

text \<open>
  The runs are indexed by the hazards that they admit. \<open>SlowLoop\<close>: the wait of \<open>reset\<close> reaches its timeout while steps
  of the task are queued or executed. (The code's timeout is a fixed time, whatever the loop does; a run without this
  hazard is one in which the loop has got to the task's steps before.) \<open>CutExit\<close>: other threads run between
  the last decrement of a step and its test of the flags. \<open>CutPush\<close>: other threads, a \<open>reset\<close> among them, run
  between the check of a notification, a stop request or a timer's callback and its push. The safety properties are
  about the runs that admit none of them, and each of them alone breaks safety.
\<close>

datatype hazard = SlowLoop | CutExit | CutPush

text \<open>Whether a run may continue a waiting \<open>reset\<close> because of its timeout: a restriction of the runs, not of the code.\<close>

definition timed_out :: "('k, 'w) platform \<Rightarrow> ('k \<Rightarrow> app_command list) \<Rightarrow> hazard set \<Rightarrow> ('k, 'w) task_system \<Rightarrow> nat \<Rightarrow> bool" where
  "timed_out P contents hz s a \<longleftrightarrow> (queued P contents a (env s) = 0 \<and> \<not> in_flight s a) \<or> SlowLoop \<in> hz"

text \<open>\<open>sem w h\<close> is \<^const>\<open>None\<close> when no such semaphore exists and otherwise whether it has been given.\<close>

inductive sys_step :: "('k, 'w) platform \<Rightarrow> ('k \<Rightarrow> app_command list) \<Rightarrow> ('w \<Rightarrow> nat \<Rightarrow> bool option) \<Rightarrow> hazard set \<Rightarrow>
    ('k, 'w) task_system \<Rightarrow> ('k, 'w) task_system \<Rightarrow> bool"
  for P :: "('k, 'w) platform" and contents sem hz where
  construct: "tasks s a = None \<Longrightarrow>
    sys_step P contents sem hz s (s\<lparr>tasks := (tasks s)(a \<mapsto> ml_task_new), missed := (missed s)(a := 0)\<rparr>)"
| start: "tasks s a = Some t \<Longrightarrow> joining s a = None \<Longrightarrow>
    start_internal (loop_task_api P a) config t (env s) = (err, t', e') \<Longrightarrow>
    sys_step P contents sem hz s (put a t' e' (if mt_running t then missed s a else 0) s)"
| operation: "tasks s a = Some t \<Longrightarrow> (op = TimerOp \<longrightarrow> mt_timer t \<noteq> 0) \<Longrightarrow>
    run_op (loop_task_api P a) op (t, env s, missed s a) = (t', e', f') \<Longrightarrow> f' < 2 ^ 31 \<Longrightarrow>
    sys_step P contents sem hz s (put a t' e' f' s)"
| claim: "tasks s a = Some t \<Longrightarrow> reset_claim (loop_task_api P a) t (env s) = (Some waits, t', e') \<Longrightarrow>
    sys_step P contents sem hz s ((put a t' e' (missed s a) s)\<lparr>joining := (joining s)(a \<mapsto> waits)\<rparr>)"
| finish: "tasks s a = Some t \<Longrightarrow> joining s a = Some waits \<Longrightarrow>
    \<not> waits \<or> sem (world s) (mt_join t) = Some True \<or> timed_out P contents hz s a \<Longrightarrow>
    reset_release (loop_task_api P a) t (env s) = (t', e') \<Longrightarrow>
    sys_step P contents sem hz s ((put a t' e' (missed s a) s)\<lparr>joining := (joining s)(a := None)\<rparr>)"
| destroy: "tasks s a = Some t \<Longrightarrow> \<not> mt_running t \<Longrightarrow> joining s a = None \<Longrightarrow>
    sys_step P contents sem hz s (s\<lparr>tasks := (tasks s)(a := None)\<rparr>)"
| foreign_push: "cmd_execute c \<noteq> step_fn P \<Longrightarrow> push_func (rt P) isr c (sys_loop s) = (b, l) \<Longrightarrow>
    sys_step P contents sem hz s (s\<lparr>sys_loop := l\<rparr>)"
| foreign_post: "cmd_execute c \<noteq> step_fn P \<Longrightarrow> post_delayed_func (rt P) isr d c (sys_loop s) = (b, l) \<Longrightarrow>
    sys_step P contents sem hz s (s\<lparr>sys_loop := l\<rparr>)"
| foreign_timer: "i < length (delayed_tasks (sys_loop s)) \<Longrightarrow> in_use (delayed_tasks (sys_loop s) ! i) \<Longrightarrow>
    timer_callback (rt P) i (sys_loop s) = (b, l) \<Longrightarrow> sys_step P contents sem hz s (s\<lparr>sys_loop := l\<rparr>)"
| take_foreign: "executing s = None \<Longrightarrow> run_round (rt P) (sys_loop s) = Some (c, l) \<Longrightarrow> cmd_execute c \<noteq> step_fn P \<Longrightarrow>
    sys_step P contents sem hz s (s\<lparr>sys_loop := l\<rparr>)"
| take: "executing s = None \<Longrightarrow> run_round (rt P) (sys_loop s) = Some (step_command P a, l) \<Longrightarrow> tasks s a = Some t \<Longrightarrow>
    step_enter (loop_task_api P a) t (l, world s) = (pc, t', e') \<Longrightarrow>
    sys_step P contents sem hz s ((put a t' e' (missed s a) s)\<lparr>executing := Some (a, pc)\<rparr>)"
| step_again: "executing s = Some (a, InStep v) \<Longrightarrow> tasks s a = Some t \<Longrightarrow>
    step_delay (loop_task_api P a) d t (env s) = (t', e') \<Longrightarrow>
    sys_step P contents sem hz s ((put a t' e' (missed s a) s)\<lparr>executing := Some (a, Leaving)\<rparr>)"
| step_completes: "executing s = Some (a, InStep v) \<Longrightarrow>
    sys_step P contents sem hz s (s\<lparr>executing := Some (a, InStop v)\<rparr>)"
| stopped: "executing s = Some (a, InStop v) \<Longrightarrow> tasks s a = Some t \<Longrightarrow>
    step_stop (loop_task_api P a) v t (env s) = (t', e') \<Longrightarrow>
    sys_step P contents sem hz s ((put a t' e' (missed s a) s)\<lparr>executing := Some (a, Leaving)\<rparr>)"
| leave: "executing s = Some (a, Leaving) \<Longrightarrow> tasks s a = Some t \<Longrightarrow>
    exit_decrement (loop_task_api P a) t (env s) = (t', e') \<Longrightarrow>
    sys_step P contents sem hz s ((put a t' e' (missed s a) s)\<lparr>executing := None\<rparr>)"
| leave_cut: "CutExit \<in> hz \<Longrightarrow> executing s = Some (a, Leaving) \<Longrightarrow> tasks s a = Some t \<Longrightarrow> exit_count t = (pc, t') \<Longrightarrow>
    sys_step P contents sem hz s ((put a t' (env s) (missed s a) s)\<lparr>executing := map_option (Pair a) pc\<rparr>)"
| leave_give: "executing s = Some (a, Exiting) \<Longrightarrow> tasks s a = Some t \<Longrightarrow>
    sys_step P contents sem hz s ((put a t (exit_give (loop_task_api P a) t (env s)) (missed s a) s)\<lparr>executing := None\<rparr>)"

| op_cut: "CutPush \<in> hz \<Longrightarrow> checked s = None \<Longrightarrow> tasks s a = Some t \<Longrightarrow> (op = TimerOp \<longrightarrow> mt_timer t \<noteq> 0) \<Longrightarrow>
    op_check op t = (True, t') \<Longrightarrow>
    sys_step P contents sem hz s ((put a t' (env s) (missed s a) s)\<lparr>checked := Some (a, op)\<rparr>)"
| push_cut: "CutPush \<in> hz \<Longrightarrow> checked s = Some (a, op) \<Longrightarrow> tasks s a = Some t \<Longrightarrow>
    count_failed (missed s a) (op_push (loop_task_api P a) op t (env s)) = (t', e', f') \<Longrightarrow> f' < 2 ^ 31 \<Longrightarrow>
    sys_step P contents sem hz s ((put a t' e' f' s)\<lparr>checked := None\<rparr>)"

inductive sys_reach :: "('k, 'w) platform \<Rightarrow> ('k \<Rightarrow> app_command list) \<Rightarrow> ('w \<Rightarrow> nat \<Rightarrow> bool option) \<Rightarrow> hazard set \<Rightarrow>
    ('k, 'w) task_system \<Rightarrow> ('k, 'w) task_system \<Rightarrow> bool" for P contents sem hz s0 where
  refl: "sys_reach P contents sem hz s0 s0"
| step: "sys_reach P contents sem hz s0 s \<Longrightarrow> sys_step P contents sem hz s s' \<Longrightarrow> sys_reach P contents sem hz s0 s'"

text \<open>The loop has been constructed and no task yet.\<close>

definition sys_init :: "('k \<Rightarrow> app_command list) \<Rightarrow> ('k, 'w) task_system \<Rightarrow> bool" where
  "sys_init contents s \<longleftrightarrow> tasks s = (\<lambda>a. None) \<and> joining s = (\<lambda>a. None) \<and> executing s = None \<and> checked s = None \<and>
     contents (krn (sys_loop s)) = [] \<and> (\<forall>dt\<in>set (delayed_tasks (sys_loop s)). \<not> in_use dt)"

text \<open>The loop holds, or its thread is in, a step of an object that does not exist.\<close>

definition dangling :: "('k, 'w) platform \<Rightarrow> ('k \<Rightarrow> app_command list) \<Rightarrow> ('k, 'w) task_system \<Rightarrow> bool" where
  "dangling P contents s \<longleftrightarrow>
     (\<exists>a. tasks s a = None \<and> (0 < queued P contents a (env s) \<or> (\<exists>pc. executing s = Some (a, pc))))"

end
