(* ===== verification/Task_Frames.thy ===== *)
theory Task_Frames
  imports Task_System
begin

text \<open>
  What the platform promises to the tasks (the locale \<open>platform\<close>, over the locale of the loop's kernel), and
  what each operation of a task leaves alone: the steps of the other tasks in the queue, and every
  semaphore and lock that the task does not own.
\<close>

text \<open>The common end of the two requests.\<close>

definition push_now :: "'e task_api \<Rightarrow> ml_task \<Rightarrow> 'e \<Rightarrow> bool \<times> ml_task \<times> 'e" where
  "push_now api t e = push_counted api t (if mt_timer t \<noteq> 0 then timer_stop api (mt_timer t) e else e)"

lemma notify_push_now:
  "notify api clear_stop t e =
     (if \<not> mt_running t \<or> mt_terminate t then (True, t, e)
      else push_now api ((if clear_stop then t\<lparr>mt_stop := False\<rparr> else t)\<lparr>mt_version := next_version (mt_version t)\<rparr>) e)"
  by (cases clear_stop) (simp_all add: notify_def push_now_def Let_def)

lemma stop_push_now:
  "politely_request_stop api t e =
     (if mt_version t > 0 \<and> mt_running t then push_now api (t\<lparr>mt_stop := True\<rparr>) e else (True, t\<lparr>mt_stop := True\<rparr>, e))"
  by (simp add: politely_request_stop_def push_now_def Let_def)

section \<open>What the services promise\<close>

text \<open>\<open>sem w h\<close> and \<open>cnt w h\<close> are the semaphores and the locks that exist. Each service works on its own.\<close>

definition keeps :: "('w \<Rightarrow> 'a) \<Rightarrow> ('w \<Rightarrow> 'b) \<Rightarrow> ('w \<Rightarrow> 'w) \<Rightarrow> bool" where
  "keeps f g op \<longleftrightarrow> (\<forall>w. f (op w) = f w \<and> g (op w) = g w)"

definition service_laws :: "'w services \<Rightarrow> ('w \<Rightarrow> nat \<Rightarrow> bool option) \<Rightarrow> ('w \<Rightarrow> nat \<Rightarrow> nat option) \<Rightarrow> bool" where
  "service_laws S sem cnt \<longleftrightarrow> pm_laws (sv_pm S) cnt \<and>
     (\<forall>t. \<forall>w. sem (snd (snd (pm_create (sv_pm S) t w))) = sem w) \<and>
     (\<forall>h. \<forall>w. sem (snd (pm_delete (sv_pm S) h w)) = sem w \<and> sem (snd (pm_acquire (sv_pm S) h w)) = sem w \<and>
        sem (snd (pm_release (sv_pm S) h w)) = sem w) \<and>
     keeps sem cnt (\<lambda>w. snd (snd (sv_timer_create S w))) \<and>
     (\<forall>h us. keeps sem cnt (sv_timer_stop S h) \<and> keeps sem cnt (sv_timer_delete S h) \<and>
        keeps sem cnt (sv_timer_start_once S h us)) \<and>
     (\<forall>w. case sv_sem_create S w of (h, w') \<Rightarrow> cnt w' = cnt w \<and>
        (if h = 0 then sem w' = sem w else sem w h = None \<and> sem w' = (sem w)(h \<mapsto> False))) \<and>
     (\<forall>h w. cnt (sv_sem_give S h w) = cnt w \<and> (sem w h \<noteq> None \<longrightarrow> sem (sv_sem_give S h w) = (sem w)(h \<mapsto> True)) \<and>
        cnt (sv_sem_delete S h w) = cnt w \<and> (sem w h \<noteq> None \<longrightarrow> sem (sv_sem_delete S h w) = (sem w)(h := None)))"

lemma service_lawsD:
  assumes "service_laws S sem cnt"
  shows "pm_laws (sv_pm S) cnt"
    and "pm_create (sv_pm S) ty w = (err, h, w') \<Longrightarrow> sem w' = sem w"
    and "pm_delete (sv_pm S) h w = (err, w') \<Longrightarrow> sem w' = sem w"
    and "pm_acquire (sv_pm S) h w = (err, w') \<Longrightarrow> sem w' = sem w"
    and "pm_release (sv_pm S) h w = (err, w') \<Longrightarrow> sem w' = sem w"
    and "sv_timer_create S w = (err, h, w') \<Longrightarrow> sem w' = sem w \<and> cnt w' = cnt w"
    and "sem (sv_timer_stop S h w) = sem w" "cnt (sv_timer_stop S h w) = cnt w"
    and "sem (sv_timer_delete S h w) = sem w" "cnt (sv_timer_delete S h w) = cnt w"
    and "sem (sv_timer_start_once S h us w) = sem w" "cnt (sv_timer_start_once S h us w) = cnt w"
    and "sv_sem_create S w = (h, w') \<Longrightarrow> cnt w' = cnt w \<and>
      (if h = 0 then sem w' = sem w else sem w h = None \<and> sem w' = (sem w)(h \<mapsto> False))"
    and "cnt (sv_sem_give S h w) = cnt w" "cnt (sv_sem_delete S h w) = cnt w"
    and "sem w h \<noteq> None \<Longrightarrow> sem (sv_sem_give S h w) = (sem w)(h \<mapsto> True)"
    and "sem w h \<noteq> None \<Longrightarrow> sem (sv_sem_delete S h w) = (sem w)(h := None)"
proof -
  have c: "\<forall>t. \<forall>w. sem (snd (snd (pm_create (sv_pm S) t w))) = sem w"
    and p: "\<forall>h. \<forall>w. sem (snd (pm_delete (sv_pm S) h w)) = sem w \<and> sem (snd (pm_acquire (sv_pm S) h w)) = sem w \<and>
        sem (snd (pm_release (sv_pm S) h w)) = sem w"
    and t: "keeps sem cnt (\<lambda>w. snd (snd (sv_timer_create S w)))"
    and u: "\<forall>h us. keeps sem cnt (sv_timer_stop S h) \<and> keeps sem cnt (sv_timer_delete S h) \<and>
        keeps sem cnt (sv_timer_start_once S h us)"
    and s: "\<forall>w. case sv_sem_create S w of (h, w') \<Rightarrow> cnt w' = cnt w \<and>
        (if h = 0 then sem w' = sem w else sem w h = None \<and> sem w' = (sem w)(h \<mapsto> False))"
    and g: "\<forall>h w. cnt (sv_sem_give S h w) = cnt w \<and> (sem w h \<noteq> None \<longrightarrow> sem (sv_sem_give S h w) = (sem w)(h \<mapsto> True)) \<and>
        cnt (sv_sem_delete S h w) = cnt w \<and> (sem w h \<noteq> None \<longrightarrow> sem (sv_sem_delete S h w) = (sem w)(h := None))"
    and l: "pm_laws (sv_pm S) cnt"
    using assms unfolding service_laws_def by simp_all
  show "pm_laws (sv_pm S) cnt" by (rule l)
  show "pm_create (sv_pm S) ty w = (err, h, w') \<Longrightarrow> sem w' = sem w" using c[rule_format, of ty w] by simp
  show "pm_delete (sv_pm S) h w = (err, w') \<Longrightarrow> sem w' = sem w"
    and "pm_acquire (sv_pm S) h w = (err, w') \<Longrightarrow> sem w' = sem w"
    and "pm_release (sv_pm S) h w = (err, w') \<Longrightarrow> sem w' = sem w" using p[rule_format, of h w] by simp_all
  show "sv_timer_create S w = (err, h, w') \<Longrightarrow> sem w' = sem w \<and> cnt w' = cnt w"
    using t[unfolded keeps_def, rule_format, of w] by simp
  show "sem (sv_timer_stop S h w) = sem w" "cnt (sv_timer_stop S h w) = cnt w"
    "sem (sv_timer_delete S h w) = sem w" "cnt (sv_timer_delete S h w) = cnt w"
    "sem (sv_timer_start_once S h us w) = sem w" "cnt (sv_timer_start_once S h us w) = cnt w"
    using u unfolding keeps_def by simp_all
  show "sv_sem_create S w = (h, w') \<Longrightarrow> cnt w' = cnt w \<and>
      (if h = 0 then sem w' = sem w else sem w h = None \<and> sem w' = (sem w)(h \<mapsto> False))"
    using s[rule_format, of w] by simp
  show "cnt (sv_sem_give S h w) = cnt w" "cnt (sv_sem_delete S h w) = cnt w"
    "sem w h \<noteq> None \<Longrightarrow> sem (sv_sem_give S h w) = (sem w)(h \<mapsto> True)"
    "sem w h \<noteq> None \<Longrightarrow> sem (sv_sem_delete S h w) = (sem w)(h := None)"
    using g[rule_format, of h w] by simp_all
qed

locale platform = kernel "rt P" contents capacity
  for P :: "('k, 'w) platform" and contents and capacity +
  fixes sem :: "'w \<Rightarrow> nat \<Rightarrow> bool option" and cnt :: "'w \<Rightarrow> nat \<Rightarrow> nat option"
  assumes services: "service_laws (sv P) sem cnt"

section \<open>What an operation of one task does to the rest\<close>

text \<open>The semaphore and the locks that a task owns exist and agree with its wrappers.\<close>

definition own_sem :: "ml_task \<Rightarrow> nat set" where "own_sem t = {mt_join t} - {0}"

definition own_locks :: "ml_task \<Rightarrow> nat set" where "own_locks t = {handle (mt_sleep t), handle (mt_apb t)} - {0}"

definition owned :: "('w \<Rightarrow> nat \<Rightarrow> bool option) \<Rightarrow> ('w \<Rightarrow> nat \<Rightarrow> nat option) \<Rightarrow> ml_task \<Rightarrow> 'w \<Rightarrow> bool" where
  "owned sem cnt t w \<longleftrightarrow> (mt_join t \<noteq> 0 \<longrightarrow> sem w (mt_join t) \<noteq> None) \<and>
     pm_rel cnt (mt_sleep t) w \<and> pm_rel cnt (mt_apb t) w \<and>
     (handle (mt_sleep t) = handle (mt_apb t) \<longrightarrow> handle (mt_sleep t) = 0)"

definition frame :: "('k, 'w) platform \<Rightarrow> ('k \<Rightarrow> app_command list) \<Rightarrow> nat \<Rightarrow> ('w \<Rightarrow> nat \<Rightarrow> bool option) \<Rightarrow>
    ('w \<Rightarrow> nat \<Rightarrow> nat option) \<Rightarrow> nat \<Rightarrow> ml_task \<times> 'k main_loop \<times> 'w \<Rightarrow> ml_task \<times> 'k main_loop \<times> 'w \<Rightarrow> bool" where
  "frame P contents capacity sem cnt a s s' = (case s of (t, e) \<Rightarrow> case s' of (t', e') \<Rightarrow>
     delayed_tasks (fst e') = delayed_tasks (fst e) \<and>
     (\<exists>n. contents (krn (fst e')) = contents (krn (fst e)) @ replicate n (step_command P a)) \<and>
     (length (contents (krn (fst e))) \<le> capacity \<longrightarrow> length (contents (krn (fst e'))) \<le> capacity) \<and>
     (owned sem cnt t (snd e) \<longrightarrow> owned sem cnt t' (snd e') \<and>
        sem (snd e') |` (- own_sem t') = sem (snd e) |` (- own_sem t) \<and>
        cnt (snd e') |` (- own_locks t') = cnt (snd e) |` (- own_locks t)))"

lemma frame_refl [simp]: "frame P contents capacity sem cnt a s s"
  by (auto simp: frame_def split: prod.splits intro: exI[of _ 0])

lemma frame_trans:
  "frame P contents capacity sem cnt a s s' \<Longrightarrow> frame P contents capacity sem cnt a s' s'' \<Longrightarrow>
    frame P contents capacity sem cnt a s s''"
  unfolding frame_def by (auto split: prod.splits simp flip: replicate_add)

text \<open>Operations on the locks of a task.\<close>

definition on_locks :: "(pm_lock \<Rightarrow> 'e \<Rightarrow> esp_err \<times> pm_lock \<times> 'e) \<Rightarrow> (pm_lock \<Rightarrow> 'e \<Rightarrow> esp_err \<times> pm_lock \<times> 'e) \<Rightarrow>
    ml_task \<Rightarrow> 'e \<Rightarrow> ml_task \<times> 'e" where
  "on_locks f g t e =
     (let (_, sleep, e) = f (mt_sleep t) e; (_, apb, e) = g (mt_apb t) e in (t\<lparr>mt_sleep := sleep, mt_apb := apb\<rparr>, e))"

definition with_loop :: "(pm_lock \<Rightarrow> 'w \<Rightarrow> 'x \<times> pm_lock \<times> 'w) \<Rightarrow> pm_lock \<Rightarrow> 'l \<times> 'w \<Rightarrow> 'x \<times> pm_lock \<times> 'l \<times> 'w" where
  "with_loop f lk lw = (case f lk (snd lw) of (x, lk, w) \<Rightarrow> (x, lk, fst lw, w))"

lemma acquire_locks_both: "acquire_locks p = on_locks (acquire_if_enabled (pm p)) (acquire_if_enabled (pm p))"
  by (simp add: fun_eq_iff acquire_locks_def on_locks_def)

lemma release_locks_both: "release_locks p = on_locks (release (pm p)) (release (pm p))"
  by (simp add: fun_eq_iff release_locks_def on_locks_def)

text \<open>Fields that own nothing may change.\<close>

lemma frame_sleep:
  assumes "pm_rel cnt (mt_sleep t) w \<Longrightarrow> pm_rel cnt lk w' \<and> others cnt (lk, w') = others cnt (mt_sleep t, w)"
    and "sem w' = sem w"
  shows "frame P contents capacity sem cnt a (t, l, w) (t\<lparr>mt_sleep := lk\<rparr>, l, w')"
  using lock_step[of cnt "mt_sleep t" w lk w' "mt_apb t"] assms
  by (auto simp: frame_def owned_def own_sem_def own_locks_def intro: exI[of _ 0])

lemma frame_apb:
  assumes "pm_rel cnt (mt_apb t) w \<Longrightarrow> pm_rel cnt lk w' \<and> others cnt (lk, w') = others cnt (mt_apb t, w)"
    and "sem w' = sem w"
  shows "frame P contents capacity sem cnt a (t, l, w) (t\<lparr>mt_apb := lk\<rparr>, l, w')"
  using lock_step[of cnt "mt_apb t" w lk w' "mt_sleep t"] assms
  by (auto simp: frame_def owned_def own_sem_def own_locks_def insert_commute intro: exI[of _ 0])

lemma frame_task:
  "mt_join t' = mt_join t \<Longrightarrow> mt_sleep t' = mt_sleep t \<Longrightarrow> mt_apb t' = mt_apb t \<Longrightarrow>
    frame P contents capacity sem cnt a (t, e) (t', e)"
  by (auto simp: frame_def owned_def own_sem_def own_locks_def intro: exI[of _ 0])

context platform
begin

abbreviation "api a \<equiv> loop_task_api P a"
abbreviation "framed a \<equiv> frame P contents capacity sem cnt a"

lemmas laws = service_lawsD[OF services]

lemma frame_world:
  "sem w' = sem w \<Longrightarrow> cnt w' = cnt w \<Longrightarrow> framed a (t, l, w) (t, l, w')"
  by (auto simp: frame_def owned_def pm_rel_def intro: exI[of _ 0])

lemma frame_timer:
  "framed a (t, e) (t, timer_stop (api a) h e)" "framed a (t, e) (t, timer_delete (api a) h e)"
  "framed a (t, e) (t, timer_start_once (api a) h us e)"
  by (cases e; simp add: loop_task_api_def frame_world laws)+

lemma frame_timer_create: "timer_create (api a) e = (err, h, e') \<Longrightarrow> framed a (t, e) (t, e')"
  using laws(6) by (cases e) (auto simp: loop_task_api_def split: prod.splits intro!: frame_world)

lemma push_step_frame:
  assumes "push_step (api a) e = (b, e')"
  shows "framed a (t, e) (t, e') \<and>
    contents (krn (fst e')) = contents (krn (fst e)) @ (if b then [step_command P a] else []) \<and> snd e' = snd e"
proof -
  obtain l w where e: "e = (l, w)" by fastforce
  then obtain l' where p: "push_func (rt P) False (step_command P a) l = (b, l')" and e': "e' = (l', w)"
    using assms by (auto simp: loop_task_api_def push_def step_command_def split: prod.splits)
  from push_contents[OF p] show ?thesis
    by (auto simp: e e' frame_def intro: exI[of _ 0] exI[of _ 1])
qed

text \<open>The locks: an operation on one of the wrappers, and one on both in turn.\<close>

definition lock_op :: "(pm_lock \<Rightarrow> 'w \<Rightarrow> esp_err \<times> pm_lock \<times> 'w) \<Rightarrow> bool" where
  "lock_op f \<longleftrightarrow> (\<forall>lk w err lk' w'. f lk w = (err, lk', w') \<longrightarrow> sem w' = sem w \<and>
     (pm_rel cnt lk w \<longrightarrow> pm_rel cnt lk' w' \<and> others cnt (lk', w') = others cnt (lk, w)))"

lemma lifted_locks:
  "enable (pm (api a)) en = with_loop (enable (sv_pm (sv P)) en)"
  "acquire_if_enabled (pm (api a)) = with_loop (acquire_if_enabled (sv_pm (sv P)))"
  "release (pm (api a)) = with_loop (release (sv_pm (sv P)))"
  by (auto simp: fun_eq_iff with_loop_def enable_def create_or_delete_def acquire_if_enabled_def release_def
      loop_task_api_def on_services_def Let_def split: prod.splits)

lemma locks_sem:
  "enable (sv_pm (sv P)) en lk w = (err, lk', w') \<Longrightarrow> sem w' = sem w"
  "acquire_if_enabled (sv_pm (sv P)) lk w = (err, lk', w') \<Longrightarrow> sem w' = sem w"
  "release (sv_pm (sv P)) lk w = (err, lk', w') \<Longrightarrow> sem w' = sem w"
  using laws(2-5)
  by (auto simp: enable_def create_or_delete_def acquire_if_enabled_def release_def Let_def split: prod.splits if_splits)
     (metis snd_conv surj_pair)+

lemma locks_rel:
  "enable (sv_pm (sv P)) en lk w = (err, lk', w') \<Longrightarrow> pm_rel cnt lk w \<Longrightarrow>
    pm_rel cnt lk' w' \<and> others cnt (lk', w') = others cnt (lk, w) \<and> (\<not> en \<longrightarrow> handle lk' = 0)"
  "acquire_if_enabled (sv_pm (sv P)) lk w = (err, lk', w') \<Longrightarrow> pm_rel cnt lk w \<Longrightarrow>
    pm_rel cnt lk' w' \<and> others cnt (lk', w') = others cnt (lk, w)"
  "release (sv_pm (sv P)) lk w = (err, lk', w') \<Longrightarrow> pm_rel cnt lk w \<Longrightarrow>
    pm_rel cnt lk' w' \<and> others cnt (lk', w') = others cnt (lk, w) \<and> \<not> acquired lk'"
  using enable_rel[OF laws(1), of lk w en] acquire_rel[OF laws(1), of lk w] release_rel[OF laws(1), of lk w] by simp_all

lemma lock_ops: "lock_op (enable (sv_pm (sv P)) en)" "lock_op (acquire_if_enabled (sv_pm (sv P)))"
  "lock_op (release (sv_pm (sv P)))"
  subgoal unfolding lock_op_def using locks_sem(1) locks_rel(1) by blast
  subgoal unfolding lock_op_def using locks_sem(2) locks_rel(2) by blast
  subgoal unfolding lock_op_def using locks_sem(3) locks_rel(3) by blast
  done

lemma on_locks_frame:
  assumes "lock_op f" "lock_op g" "on_locks (with_loop f) (with_loop g) t e = (t', e')"
  shows "framed a (t, e) (t', e')"
proof -
  obtain l w where e: "e = (l, w)" by fastforce
  obtain err lk w1 where 1: "f (mt_sleep t) w = (err, lk, w1)" by (cases rule: prod_cases3)
  obtain err2 lk2 w2 where 2: "g (mt_apb t) w1 = (err2, lk2, w2)" by (cases rule: prod_cases3)
  have "framed a (t, l, w) (t\<lparr>mt_sleep := lk\<rparr>, l, w1)"
    using assms(1) 1 by (intro frame_sleep) (auto simp: lock_op_def)
  moreover have "framed a (t\<lparr>mt_sleep := lk\<rparr>, l, w1) (t\<lparr>mt_sleep := lk, mt_apb := lk2\<rparr>, l, w2)"
    using assms(2) 2 by (intro frame_apb) (auto simp: lock_op_def)
  ultimately show ?thesis
    using assms(3) 1 2 by (auto simp: on_locks_def with_loop_def e intro: frame_trans)
qed

lemma both_locks_frame:
  "on_locks (enable (pm (api a)) en) (enable (pm (api a)) en') t e = (t', e') \<Longrightarrow> framed a (t, e) (t', e')"
  "acquire_locks (api a) t e = (t', e') \<Longrightarrow> framed a (t, e) (t', e')"
  "release_locks (api a) t e = (t', e') \<Longrightarrow> framed a (t, e) (t', e')"
  unfolding acquire_locks_both release_locks_both lifted_locks by (rule on_locks_frame; (rule lock_ops)?; assumption?)+

text \<open>The semaphore.\<close>

lemma sem_give_frame: "mt_join t \<noteq> 0 \<Longrightarrow> framed a (t, e) (t, sem_give (api a) (mt_join t) e)"
  using laws(14) laws(16)[of "snd e" "mt_join t"]
  by (cases e) (auto simp: loop_task_api_def frame_def owned_def pm_rel_def own_sem_def fun_eq_iff restrict_map_def
      intro: exI[of _ 0])

lemma sem_delete_frame: "mt_join t \<noteq> 0 \<Longrightarrow> framed a (t, e) (t\<lparr>mt_join := 0\<rparr>, sem_delete (api a) (mt_join t) e)"
  using laws(15) laws(17)[of "snd e" "mt_join t"]
  by (cases e) (auto simp: loop_task_api_def frame_def owned_def pm_rel_def own_sem_def own_locks_def fun_eq_iff restrict_map_def
      intro: exI[of _ 0])

lemma ensure_join_frame:
  assumes "ensure_join (api a) t e = (t', e')"
  shows "framed a (t, e) (t', e') \<and> (mt_join t = 0 \<longrightarrow> mt_join t' \<noteq> 0 \<longrightarrow> sem (snd e') (mt_join t') = Some False)"
proof (cases "mt_join t = 0")
  case True
  obtain l w where e: "e = (l, w)" by fastforce
  obtain h w' where c: "sv_sem_create (sv P) w = (h, w')" by fastforce
  then have "t' = t\<lparr>mt_join := h\<rparr>" "e' = (l, w')"
    using True assms by (auto simp: ensure_join_def e loop_task_api_def)
  with laws(13)[OF c] True show ?thesis
    by (auto simp: e frame_def owned_def pm_rel_def own_sem_def own_locks_def fun_eq_iff restrict_map_def
        split: if_splits intro: exI[of _ 0])
qed (use assms in \<open>simp add: ensure_join_def\<close>)

text \<open>The operations of the task.\<close>

lemma push_counted_frame:
  assumes "push_counted (api a) t e = (b, t', e')"
  shows "framed a (t, e) (t', e') \<and> snd e' = snd e \<and> t' = t\<lparr>mt_inflight := mt_inflight t + 1\<rparr> \<and>
    contents (krn (fst e')) = contents (krn (fst e)) @ (if b then [step_command P a] else [])"
proof -
  let ?t = "t\<lparr>mt_inflight := mt_inflight t + 1\<rparr>"
  have "push_step (api a) e = (b, e')" "t' = ?t" using assms by (auto simp: push_counted_def split: prod.splits)
  moreover have "framed a (t, e) (?t, e)" by (rule frame_task) simp_all
  ultimately show ?thesis using push_step_frame[of a e b e' ?t] by (auto intro: frame_trans)
qed

lemma push_now_frame:
  assumes "push_now (api a) u e = (b, v, e')"
    and u: "mt_join u = mt_join t" "mt_sleep u = mt_sleep t" "mt_apb u = mt_apb t"
  shows "framed a (t, e) (v, e') \<and> sem (snd e') = sem (snd e)"
proof -
  define e1 where "e1 = (if mt_timer u \<noteq> 0 then timer_stop (api a) (mt_timer u) e else e)"
  have "framed a (t, e) (t, e1)" by (simp add: e1_def frame_timer)
  moreover have "framed a (t, e1) (u, e1)" by (rule frame_task) (simp_all add: u)
  moreover have "framed a (u, e1) (v, e')" and e': "snd e' = snd e1"
    using push_counted_frame[OF assms(1)[unfolded push_now_def, folded e1_def]] by blast+
  ultimately have "framed a (t, e) (v, e')" by (blast intro: frame_trans)
  moreover have "sem (snd e1) = sem (snd e)" by (cases e) (simp add: e1_def loop_task_api_def laws)
  ultimately show ?thesis by (simp add: e')
qed

lemma run_op_frame:
  assumes "run_op (api a) op (t, e, f) = (t', e', f')"
  shows "framed a (t, e) (t', e') \<and> sem (snd e') = sem (snd e)"
proof (cases op)
  case (NotifyOp c)
  then obtain b where n: "notify (api a) c t e = (b, t', e')" using assms by (auto simp: count_failed_def split: prod.splits)
  show ?thesis
  proof (cases "\<not> mt_running t \<or> mt_terminate t")
    case False
    with n have "push_now (api a) ((if c then t\<lparr>mt_stop := False\<rparr> else t)\<lparr>mt_version := next_version (mt_version t)\<rparr>) e = (b, t', e')"
      by (auto simp: notify_push_now)
    from push_now_frame[OF this] show ?thesis by simp
  qed (use n in \<open>auto simp: notify_push_now\<close>)
next
  case StopOp
  then obtain b where n: "politely_request_stop (api a) t e = (b, t', e')"
    using assms by (auto simp: count_failed_def split: prod.splits)
  show ?thesis
  proof (cases "mt_version t > 0 \<and> mt_running t")
    case True
    with n have "push_now (api a) (t\<lparr>mt_stop := True\<rparr>) e = (b, t', e')" by (simp add: stop_push_now)
    from push_now_frame[OF this] show ?thesis by simp
  next
    case False
    have "framed a (t, e) (t\<lparr>mt_stop := True\<rparr>, e)" by (rule frame_task) simp_all
    with n False show ?thesis by (simp add: stop_push_now split: if_splits)
  qed
next
  case TimerOp
  then obtain b where "push_counted (api a) t e = (b, t', e')"
    using assms by (auto simp: count_failed_def timer_step_def split: prod.splits)
  from push_counted_frame[OF this] show ?thesis by (blast intro: arg_cong)
qed

lemma reset_claim_frame:
  assumes "reset_claim (api a) t e = (w, t', e')"
  shows "framed a (t, e) (t', e') \<and> sem (snd e') = sem (snd e) \<and> contents (krn (fst e')) = contents (krn (fst e))"
proof -
  define e1 where "e1 = (if mt_running t \<and> mt_timer t \<noteq> 0
    then timer_delete (api a) (mt_timer t) (timer_stop (api a) (mt_timer t) e) else e)"
  have "framed a (t, e) (t, e1)"
    unfolding e1_def using frame_trans[OF frame_timer(1) frame_timer(2)] by simp
  moreover have e': "e' = e1" and f: "mt_join t' = mt_join t" "mt_sleep t' = mt_sleep t" "mt_apb t' = mt_apb t"
    using assms by (auto simp: reset_claim_def e1_def Let_def split: if_splits)
  moreover have "framed a (t, e1) (t', e1)" using f by (rule frame_task)
  ultimately have "framed a (t, e) (t', e')" by (metis frame_trans)
  moreover have "sem (snd e1) = sem (snd e)" "fst e1 = fst e" by (cases e; simp add: e1_def loop_task_api_def laws)+
  ultimately show ?thesis by (simp add: e')
qed

lemma reset_release_frame:
  assumes "reset_release (api a) t e = (t', e')"
  shows "framed a (t, e) (t', e')"
proof -
  obtain t1 e1 where j: "(if mt_join t \<noteq> 0 then (t\<lparr>mt_join := 0\<rparr>, sem_delete (api a) (mt_join t) e) else (t, e)) = (t1, e1)"
    by (cases "if mt_join t \<noteq> 0 then (t\<lparr>mt_join := 0\<rparr>, sem_delete (api a) (mt_join t) e) else (t, e)")
  then have "framed a (t, e) (t1, e1)" using sem_delete_frame[of t a e] by (auto split: if_splits)
  moreover have "framed a (t1, e1) (t', e')"
    by (rule both_locks_frame(1)[of _ False False])
      (use assms in \<open>simp only: reset_release_def j Let_def\<close>, simp add: on_locks_def Let_def)
  ultimately show ?thesis by (rule frame_trans)
qed

lemma task_reset_frame:
  assumes "task_reset (api a) id t e = (t', e')"
  shows "framed a (t, e) (t', e')"
proof -
  obtain w t1 e1 where c: "reset_claim (api a) t e = (w, t1, e1)" by (cases rule: prod_cases3)
  show ?thesis
  proof (cases w)
    case None
    with assms reset_claim_frame[OF c] show ?thesis by (simp add: task_reset_def c)
  next
    case (Some x)
    then have "reset_release (api a) t1 e1 = (t', e')" using assms by (simp add: task_reset_def c split: if_splits)
    from reset_release_frame[OF this] reset_claim_frame[OF c] show ?thesis by (metis frame_trans)
  qed
qed

lemma start_cases:
  assumes start: "start_internal (api a) config t e = (err, t', e')" and idle: "\<not> mt_running t"
  obtains t3 e3 t4 e4 err5 h e5 b t6 e6 where
    "on_locks (enable (pm (api a)) (prevent_light_sleep config)) (enable (pm (api a)) (lock_apb_freq config))
       (t\<lparr>mt_running := True, mt_stop := False, mt_terminate := False, mt_version := 1, mt_inflight := 0\<rparr>) e = (t3, e3)"
    "ensure_join (api a) t3 e3 = (t4, e4)" "timer_create (api a) e4 = (err5, h, e5)"
    "push_counted (api a) (t4\<lparr>mt_timer := h\<rparr>) e5 = (b, t6, e6)"
    "task_reset (api a) id t4 e4 = (t', e') \<or> task_reset (api a) id t4 e5 = (t', e') \<or>
     (\<not> b \<and> task_reset (api a) id (t6\<lparr>mt_inflight := mt_inflight t6 - 1\<rparr>) e6 = (t', e')) \<or>
     (b \<and> mt_join t4 \<noteq> 0 \<and> t' = t6 \<and> e' = e6)"
proof -
  obtain t3 e3 where l: "on_locks (enable (pm (api a)) (prevent_light_sleep config)) (enable (pm (api a)) (lock_apb_freq config))
      (t\<lparr>mt_running := True, mt_stop := False, mt_terminate := False, mt_version := 1, mt_inflight := 0\<rparr>) e = (t3, e3)"
    by (meson surj_pair)
  obtain t4 e4 where j: "ensure_join (api a) t3 e3 = (t4, e4)" by (meson surj_pair)
  obtain err5 h e5 where c: "timer_create (api a) e4 = (err5, h, e5)" by (cases rule: prod_cases3)
  obtain b t6 e6 where p: "push_counted (api a) (t4\<lparr>mt_timer := h\<rparr>) e5 = (b, t6, e6)" by (cases rule: prod_cases3)
  have "(err, t', e') =
    (if mt_join t4 = 0 then (ESP_ERR_NO_MEM, task_reset (api a) id t4 e4)
     else if err5 \<noteq> ESP_OK then (ESP_FAIL, task_reset (api a) id t4 e5)
     else if \<not> b then (ESP_FAIL, task_reset (api a) id (t6\<lparr>mt_inflight := mt_inflight t6 - 1\<rparr>) e6)
     else (ESP_OK, t6, e6))"
    using start idle l j c p by (auto simp: start_internal_def on_locks_def Let_def split: prod.splits if_splits)
  then show thesis by (intro that[OF l j c p]) (auto split: if_splits)
qed

lemma start_frame:
  assumes start: "start_internal (api a) config t e = (err, t', e')"
  shows "framed a (t, e) (t', e')"
proof (cases "mt_running t")
  case False
  show ?thesis
  proof (rule start_cases[OF start False], goal_cases)
    case (1 t3 e3 t4 e4 err5 h e5 b t6 e6)
    have "framed a (t, e) (t\<lparr>mt_running := True, mt_stop := False, mt_terminate := False, mt_version := 1, mt_inflight := 0\<rparr>, e)"
      by (rule frame_task) simp_all
    note frame_trans[OF this both_locks_frame(1)[OF 1(1)]]
    note f4 = frame_trans[OF this conjunct1[OF ensure_join_frame[OF 1(2)]]]
    note f5 = frame_trans[OF f4 frame_timer_create[OF 1(3)]]
    have "framed a (t4, e5) (t4\<lparr>mt_timer := h\<rparr>, e5)" by (rule frame_task) simp_all
    from frame_trans[OF frame_trans[OF f5 this] conjunct1[OF push_counted_frame[OF 1(4)]]] have f6: "framed a (t, e) (t6, e6)" .
    have "framed a (t6, e6) (t6\<lparr>mt_inflight := mt_inflight t6 - 1\<rparr>, e6)" by (rule frame_task) simp_all
    note f7 = frame_trans[OF f6 this]
    from 1(5) show ?thesis
      by (elim disjE conjE) (use frame_trans[OF f4 task_reset_frame] frame_trans[OF f5 task_reset_frame] f6
          frame_trans[OF f7 task_reset_frame] in simp_all)
  qed
qed (use start in \<open>simp add: start_internal_def\<close>)

text \<open>Only a push changes the loop.\<close>

lemma on_locks_loop: "on_locks (with_loop f) (with_loop g) t e = (t', e') \<Longrightarrow> fst e' = fst e"
  by (auto simp: on_locks_def with_loop_def split: prod.splits)

lemma loop_same:
  "on_locks (enable (pm (api a)) en) (enable (pm (api a)) en') t e = (t', e') \<Longrightarrow> fst e' = fst e"
  "acquire_locks (api a) t e = (t', e') \<Longrightarrow> fst e' = fst e"
  "release_locks (api a) t e = (t', e') \<Longrightarrow> fst e' = fst e"
  "ensure_join (api a) t e = (t', e') \<Longrightarrow> fst e' = fst e"
  "timer_create (api a) e = (err, h, e') \<Longrightarrow> fst e' = fst e"
  "fst (timer_stop (api a) h e) = fst e" "fst (timer_delete (api a) h e) = fst e"
  "fst (timer_start_once (api a) h us e) = fst e"
  "fst (sem_give (api a) h e) = fst e" "fst (sem_delete (api a) h e) = fst e"
  unfolding acquire_locks_both release_locks_both lifted_locks
  by (auto dest: on_locks_loop simp: ensure_join_def loop_task_api_def split: prod.splits if_splits)

lemma reset_release_parts:
  assumes "reset_release (api a) t e = (t', e')"
  obtains e1 where
    "on_locks (enable (pm (api a)) False) (enable (pm (api a)) False) (t\<lparr>mt_join := 0\<rparr>) e1 = (t', e')"
    "fst e1 = fst e"
proof -
  have "on_locks (enable (pm (api a)) False) (enable (pm (api a)) False) (t\<lparr>mt_join := 0\<rparr>)
      (if mt_join t \<noteq> 0 then sem_delete (api a) (mt_join t) e else e) = (t', e')"
    using assms by (cases t) (auto simp: reset_release_def on_locks_def Let_def split: prod.splits if_splits)
  then show thesis by (rule that) (simp add: loop_same)
qed

lemma enable_False_handle: "enable p False lk e = (err, lk', e') \<Longrightarrow> handle lk' = 0"
  by (auto simp: enable_def create_or_delete_def is_enabled_def Let_def split: if_splits prod.splits)

lemma enable_unacquired: "enable p en lk e = (err, lk', e') \<Longrightarrow> \<not> acquired lk \<Longrightarrow> \<not> acquired lk'"
  by (auto simp: enable_def create_or_delete_def Let_def split: if_splits prod.splits)

lemma reset_release_result:
  assumes "reset_release (api a) t e = (t', e')"
  shows "fst e' = fst e \<and> mt_join t' = 0 \<and> mt_running t' = mt_running t \<and> mt_terminate t' = mt_terminate t \<and>
    mt_timer t' = mt_timer t \<and> mt_inflight t' = mt_inflight t \<and> handle (mt_sleep t') = 0 \<and> handle (mt_apb t') = 0"
proof -
  obtain e1 where o: "on_locks (enable (pm (api a)) False) (enable (pm (api a)) False) (t\<lparr>mt_join := 0\<rparr>) e1 = (t', e')"
    and e1: "fst e1 = fst e" by (rule reset_release_parts[OF assms])
  from loop_same(1)[OF o] o e1 show ?thesis
    by (auto simp: on_locks_def split: prod.splits dest: enable_False_handle)
qed

lemma task_reset_result:
  assumes "task_reset (api a) id t e = (t', e')" "mt_running t"
  shows "fst e' = fst e \<and> mt_join t' = 0 \<and> \<not> mt_running t' \<and> mt_timer t' = 0 \<and>
    handle (mt_sleep t') = 0 \<and> handle (mt_apb t') = 0"
proof -
  obtain w t1 e1 where c: "reset_claim (api a) t e = (w, t1, e1)" by (cases rule: prod_cases3)
  then have w: "w \<noteq> None" "\<not> mt_running t1" "mt_timer t1 = 0" "fst e1 = fst e"
    using assms(2) by (auto simp: reset_claim_def Let_def loop_same split: if_splits)
  then have "reset_release (api a) t1 e1 = (t', e')"
    using assms(1) by (auto simp: task_reset_def c split: if_splits)
  from reset_release_result[OF this] w show ?thesis by simp
qed

lemma start_result:
  assumes start: "start_internal (api a) config t e = (err, t', e')" and idle: "\<not> mt_running t" "mt_join t = 0"
    and "\<not> acquired (mt_sleep t)" "\<not> acquired (mt_apb t)"
  shows "(mt_running t' \<and> \<not> mt_terminate t' \<and> mt_join t' \<noteq> 0 \<and> mt_inflight t' = 1 \<and>
      \<not> acquired (mt_sleep t') \<and> \<not> acquired (mt_apb t') \<and> sem (snd e') (mt_join t') = Some False \<and>
      contents (krn (fst e')) = contents (krn (fst e)) @ [step_command P a]) \<or>
    (\<not> mt_running t' \<and> mt_join t' = 0 \<and> mt_timer t' = 0 \<and> handle (mt_sleep t') = 0 \<and> handle (mt_apb t') = 0 \<and>
      contents (krn (fst e')) = contents (krn (fst e)))"
proof (rule start_cases[OF start idle(1)], goal_cases)
  case (1 t3 e3 t4 e4 err5 h e5 b t6 e6)
  have t3: "mt_running t3" "\<not> mt_terminate t3" "mt_inflight t3 = 0" "mt_join t3 = 0"
    "\<not> acquired (mt_sleep t3)" "\<not> acquired (mt_apb t3)"
    using 1(1) idle(2) assms(4,5) by (auto simp: on_locks_def split: prod.splits dest: enable_unacquired)
  have t4: "mt_running t4" "\<not> mt_terminate t4" "mt_inflight t4 = 0" "\<not> acquired (mt_sleep t4)" "\<not> acquired (mt_apb t4)"
    using 1(2) t3 by (auto simp: ensure_join_def split: prod.splits if_splits)
  have e4: "fst e4 = fst e" and e5: "fst e5 = fst e"
    using loop_same(1)[OF 1(1)] loop_same(4)[OF 1(2)] loop_same(5)[OF 1(3)] by simp_all
  have s5: "sem (snd e5) (mt_join t4) = Some False" if "mt_join t4 \<noteq> 0"
    using ensure_join_frame[OF 1(2)] t3(4) that 1(3) laws(6)
    by (cases e4) (auto simp: loop_task_api_def split: prod.splits)
  from 1(5) show ?thesis
  proof (elim disjE conjE)
    assume r: "task_reset (api a) id t4 e4 = (t', e')"
    from task_reset_result[OF r t4(1)] e4 show ?thesis by simp
  next
    assume r: "task_reset (api a) id t4 e5 = (t', e')"
    from task_reset_result[OF r t4(1)] e5 show ?thesis by simp
  next
    assume "\<not> b" and r: "task_reset (api a) id (t6\<lparr>mt_inflight := mt_inflight t6 - 1\<rparr>) e6 = (t', e')"
    with task_reset_result[OF r] push_counted_frame[OF 1(4)] e5 t4(1) show ?thesis by simp
  next
    assume "b" "mt_join t4 \<noteq> 0" "t' = t6" "e' = e6"
    with push_counted_frame[OF 1(4)] t4 e5 s5 show ?thesis by auto
  qed
qed

end

end
