(* ===== verification/Task_Invariant.thy ===== *)
theory Task_Invariant
  imports Task_Frames
begin

text \<open>
  The invariant of the system of tasks, its preservation by every step that is not one of the
  hazards, and the turns of the loop's thread when it runs alone.
\<close>

section \<open>The invariant\<close>

text \<open>Steps of the task that are queued or executed, without those between the decrement and the flags.\<close>

definition load :: "('k, 'w) platform \<Rightarrow> ('k \<Rightarrow> app_command list) \<Rightarrow> ('k, 'w) task_system \<Rightarrow> nat \<Rightarrow> nat" where
  "load P contents s a = queued P contents a (env s) + (if in_flight s a then 1 else 0)"

definition in_user_code :: "('k, 'w) task_system \<Rightarrow> nat \<Rightarrow> bool" where
  "in_user_code s a \<longleftrightarrow>
     (case executing s of None \<Rightarrow> False | Some (b, pc) \<Rightarrow> b = a \<and> pc \<noteq> Leaving \<and> pc \<noteq> Exiting)"

lemma in_user_code_iff: "in_user_code s a \<longleftrightarrow> (\<exists>v. executing s = Some (a, InStep v) \<or> executing s = Some (a, InStop v))"
  by (auto simp: in_user_code_def split: option.split step_pc.split) (metis step_pc.exhaust)

definition task_ok :: "('k, 'w) platform \<Rightarrow> ('k \<Rightarrow> app_command list) \<Rightarrow> ('w \<Rightarrow> nat \<Rightarrow> bool option) \<Rightarrow>
    ('k, 'w) task_system \<Rightarrow> nat \<Rightarrow> ml_task \<Rightarrow> bool" where
  "task_ok P contents sem s a t \<longleftrightarrow>
     (mt_running t \<longrightarrow> joining s a = None \<and> \<not> mt_terminate t \<and> mt_join t \<noteq> 0) \<and>
     (\<not> mt_running t \<longrightarrow> mt_timer t = 0) \<and>
     (\<not> mt_running t \<longrightarrow> joining s a = None \<longrightarrow>
       mt_join t = 0 \<and> load P contents s a = 0 \<and> handle (mt_sleep t) = 0 \<and> handle (mt_apb t) = 0) \<and>
     (\<forall>w. joining s a = Some w \<longrightarrow> \<not> mt_running t \<and> mt_terminate t \<and> mt_join t \<noteq> 0 \<and>
       (\<not> w \<longrightarrow> load P contents s a + missed s a = 0)) \<and>
     (mt_running t \<or> joining s a \<noteq> None \<longrightarrow> mt_inflight t = of_nat (load P contents s a + missed s a)) \<and>
     (mt_join t \<noteq> 0 \<longrightarrow> sem (world s) (mt_join t) = Some True \<longrightarrow>
       joining s a \<noteq> None \<and> load P contents s a + missed s a = 0) \<and>
     (acquired (mt_sleep t) \<or> acquired (mt_apb t) \<longrightarrow> in_user_code s a) \<and> missed s a < 2 ^ 31"

text \<open>The semaphore that \<open>reset\<close> waits for.\<close>

definition sem_ok :: "('k, 'w) platform \<Rightarrow> ('k \<Rightarrow> app_command list) \<Rightarrow> ('w \<Rightarrow> nat \<Rightarrow> bool option) \<Rightarrow>
    ('k, 'w) task_system \<Rightarrow> nat \<Rightarrow> ml_task \<Rightarrow> bool" where
  "sem_ok P contents sem s a t \<longleftrightarrow>
     (joining s a = Some True \<longrightarrow> load P contents s a + missed s a = 0 \<longrightarrow> sem (world s) (mt_join t) = Some True)"

definition foreign_slots :: "('k, 'w) platform \<Rightarrow> 'k main_loop \<Rightarrow> bool" where
  "foreign_slots P l \<longleftrightarrow> (\<forall>dt\<in>set (delayed_tasks l). in_use dt \<longrightarrow> cmd_execute (dt_cmd dt) \<noteq> step_fn P)"

definition sys_inv :: "('k, 'w) platform \<Rightarrow> ('k \<Rightarrow> app_command list) \<Rightarrow> nat \<Rightarrow> ('w \<Rightarrow> nat \<Rightarrow> bool option) \<Rightarrow>
    ('w \<Rightarrow> nat \<Rightarrow> nat option) \<Rightarrow> ('k, 'w) task_system \<Rightarrow> bool" where
  "sys_inv P contents capacity sem cnt s \<longleftrightarrow>
     (\<forall>a. tasks s a = None \<longrightarrow> load P contents s a = 0 \<and> joining s a = None) \<and>
     (\<forall>a t. tasks s a = Some t \<longrightarrow> task_ok P contents sem s a t \<and> sem_ok P contents sem s a t \<and>
       owned sem cnt t (world s)) \<and>
     (\<forall>a b t u. a \<noteq> b \<longrightarrow> tasks s a = Some t \<longrightarrow> tasks s b = Some u \<longrightarrow>
       own_sem t \<inter> own_sem u = {} \<and> own_locks t \<inter> own_locks u = {}) \<and>
     (\<forall>a. executing s \<noteq> Some (a, Exiting)) \<and> foreign_slots P (sys_loop s) \<and>
     length (contents (krn (sys_loop s))) \<le> capacity"

lemma step_command_eq [simp]: "step_command P a = step_command P b \<longleftrightarrow> a = b"
  by (simp add: step_command_def)

lemma step_command_fn [simp]: "cmd_execute (step_command P a) = step_fn P"
  by (simp add: step_command_def)

lemma count_list_replicate: "count_list (replicate n x) y = (if x = y then n else 0)"
  by (induction n) auto

lemma frame_queued:
  "frame P contents capacity sem cnt a (t, e) (t', e') \<Longrightarrow> b \<noteq> a \<Longrightarrow> queued P contents b e' = queued P contents b e"
  by (auto simp: frame_def queued_def count_list_replicate)

lemma restrict_frame:
  assumes "m' |` (- H') = m |` (- H)" "h \<notin> H" "m h \<noteq> None"
  shows "m' h = m h \<and> h \<notin> H'"
  using fun_cong[OF assms(1), of h] assms(2,3) by (auto simp: restrict_map_def split: if_splits)

lemma owned_exists:
  assumes "owned sem cnt t w"
  shows "h \<in> own_sem t \<Longrightarrow> sem w h \<noteq> None" "h \<in> own_locks t \<Longrightarrow> cnt w h \<noteq> None"
  using assms by (auto simp: owned_def own_sem_def own_locks_def pm_rel_def split: if_splits)

text \<open>What another task owns survives.\<close>

lemma owned_survives:
  assumes u: "owned sem cnt u w" and t: "owned sem cnt t w" and dis: "own_sem t \<inter> own_sem u = {}" "own_locks t \<inter> own_locks u = {}"
    and fr: "sem w' |` (- own_sem t') = sem w |` (- own_sem t)" "cnt w' |` (- own_locks t') = cnt w |` (- own_locks t)"
  shows "owned sem cnt u w' \<and> own_sem t' \<inter> own_sem u = {} \<and> own_locks t' \<inter> own_locks u = {} \<and>
    (mt_join u \<noteq> 0 \<longrightarrow> sem w' (mt_join u) = sem w (mt_join u))"
proof -
  have s: "sem w' h = sem w h \<and> h \<notin> own_sem t'" if "h \<in> own_sem u" for h
    using restrict_frame[OF fr(1), of h] owned_exists(1)[OF u that] dis(1) that by blast
  have c: "cnt w' h = cnt w h \<and> h \<notin> own_locks t'" if "h \<in> own_locks u" for h
    using restrict_frame[OF fr(2), of h] owned_exists(2)[OF u that] dis(2) that by blast
  have "mt_join u \<noteq> 0 \<Longrightarrow> mt_join u \<in> own_sem u" "handle (mt_sleep u) \<noteq> 0 \<Longrightarrow> handle (mt_sleep u) \<in> own_locks u"
    "handle (mt_apb u) \<noteq> 0 \<Longrightarrow> handle (mt_apb u) \<in> own_locks u" by (simp_all add: own_sem_def own_locks_def)
  then have "owned sem cnt u w'" "mt_join u \<noteq> 0 \<longrightarrow> sem w' (mt_join u) = sem w (mt_join u)"
    using s c u by (simp_all add: owned_def pm_rel_def)
  then show ?thesis using s c by blast
qed

lemma task_ok_same:
  assumes "task_ok P contents sem s b u" "load P contents s' b = load P contents s b" "missed s' b = missed s b"
    "joining s' b = joining s b" "in_user_code s' b = in_user_code s b"
    "mt_join u \<noteq> 0 \<longrightarrow> sem (world s') (mt_join u) = sem (world s) (mt_join u)"
  shows "task_ok P contents sem s' b u"
  using assms by (simp add: task_ok_def)

lemma task_ok_stop: "task_ok P contents sem s a (t\<lparr>mt_stop := x\<rparr>) = task_ok P contents sem s a t"
  by (simp add: task_ok_def)

lemma task_ok_join: "task_ok P contents sem s a t \<Longrightarrow> joining s a \<noteq> None \<Longrightarrow> mt_join t \<noteq> 0"
  unfolding task_ok_def by blast

lemma sem_ok_same:
  assumes "sem_ok P contents sem s b u" "task_ok P contents sem s b u" "load P contents s' b = load P contents s b"
    "missed s' b = missed s b" "joining s' b = joining s b"
    "mt_join u \<noteq> 0 \<longrightarrow> sem (world s') (mt_join u) = sem (world s) (mt_join u)"
  shows "sem_ok P contents sem s' b u"
  using assms(1,3-) task_ok_join[OF assms(2)] unfolding sem_ok_def by (metis option.distinct(1))

text \<open>A step of the task at \<open>a\<close>: only its own part of the invariant has to be shown.\<close>

lemma sys_inv_task:
  assumes inv: "sys_inv P contents capacity sem cnt s" and t: "tasks s a = Some t"
    and e0: "snd e0 = world s" "delayed_tasks (fst e0) = delayed_tasks (sys_loop s)"
      "length (contents (krn (fst e0))) \<le> capacity"
      "\<And>b. b \<noteq> a \<Longrightarrow> queued P contents b e0 = queued P contents b (env s)"
    and fr: "frame P contents capacity sem cnt a (t, e0) (t', e')"
    and s': "tasks s' = (tasks s)(a \<mapsto> t')" "env s' = e'"
      "\<And>b. b \<noteq> a \<Longrightarrow> missed s' b = missed s b \<and> joining s' b = joining s b \<and>
        (\<forall>pc. executing s' = Some (b, pc) \<longleftrightarrow> executing s = Some (b, pc))"
      "executing s' \<noteq> Some (a, Exiting)"
    and ok: "owned sem cnt t' (world s') \<Longrightarrow> task_ok P contents sem s' a t'" and sem: "sem_ok P contents sem s' a t'"
  shows "sys_inv P contents capacity sem cnt s'"
proof -
  note inv' = inv[unfolded sys_inv_def]
  have own: "owned sem cnt t (snd e0)" using inv' t e0(1) by simp
  with fr have own': "owned sem cnt t' (world s')"
    and f: "sem (world s') |` (- own_sem t') = sem (world s) |` (- own_sem t)"
      "cnt (world s') |` (- own_locks t') = cnt (world s) |` (- own_locks t)"
    and loop: "foreign_slots P (sys_loop s')" "length (contents (krn (sys_loop s'))) \<le> capacity"
    using s'(2) e0 inv' by (auto simp: frame_def env_def foreign_slots_def)
  have load: "load P contents s' b = load P contents s b" "in_user_code s' b = in_user_code s b" if "b \<noteq> a" for b
    using frame_queued[OF fr that] e0(4)[OF that] s'(2) s'(3)[OF that]
    by (simp_all add: load_def in_flight_iff in_user_code_iff)
  have other: "task_ok P contents sem s' b u \<and> sem_ok P contents sem s' b u \<and> owned sem cnt u (world s') \<and> own_sem t' \<inter> own_sem u = {} \<and>
      own_locks t' \<inter> own_locks u = {}" if "b \<noteq> a" "tasks s b = Some u" for b u
  proof -
    have dis: "own_sem t \<inter> own_sem u = {}" "own_locks t \<inter> own_locks u = {}" and u: "owned sem cnt u (world s)"
      and oku: "task_ok P contents sem s b u" and semu: "sem_ok P contents sem s b u" using inv' t that by metis+
    from owned_survives[OF u _ dis f] own e0(1) have "owned sem cnt u (world s') \<and> own_sem t' \<inter> own_sem u = {} \<and>
        own_locks t' \<inter> own_locks u = {} \<and> (mt_join u \<noteq> 0 \<longrightarrow> sem (world s') (mt_join u) = sem (world s) (mt_join u))" by simp
    with task_ok_same[OF oku] sem_ok_same[OF semu oku] load[OF that(1)] s'(3)[OF that(1)] show ?thesis by simp
  qed
  have none: "load P contents s' b = 0 \<and> joining s' b = None" if "tasks s' b = None" for b
  proof -
    have b: "b \<noteq> a" "tasks s b = None" using that s'(1) by (auto split: if_splits)
    with inv' have "load P contents s b = 0 \<and> joining s b = None" by blast
    with load(1)[OF b(1)] s'(3)[OF b(1)] show ?thesis by simp
  qed
  have "executing s' \<noteq> Some (b, Exiting)" for b
    using s'(3)[of b] s'(4) inv' by (cases "b = a") auto
  moreover have "task_ok P contents sem s' b u \<and> sem_ok P contents sem s' b u \<and> owned sem cnt u (world s')"
    if "tasks s' b = Some u" for b u
    using other[of b u] ok[OF own'] sem own' that s'(1) by (cases "b = a") auto
  moreover have "own_sem u \<inter> own_sem v = {} \<and> own_locks u \<inter> own_locks v = {}"
    if "b \<noteq> c" "tasks s' b = Some u" "tasks s' c = Some v" for b c u v
    using other[of b u] other[of c v] inv' that s'(1)
    by (cases "b = a"; cases "c = a") (auto simp: Int_commute)
  ultimately show ?thesis using none loop unfolding sys_inv_def by blast
qed

section \<open>Every step keeps it\<close>

text \<open>The loop changes for somebody else.\<close>

lemma sys_inv_loop:
  assumes "sys_inv P contents capacity sem cnt s" "\<And>b. queued P contents b (l, world s) = queued P contents b (env s)"
    and "foreign_slots P l" "length (contents (krn l)) \<le> capacity"
  shows "sys_inv P contents capacity sem cnt (s\<lparr>sys_loop := l\<rparr>)"
proof -
  let ?s = "s\<lparr>sys_loop := l\<rparr>"
  have load: "load P contents ?s b = load P contents s b" for b
    using assms(2)[of b] by (simp add: load_def env_def in_flight_iff)
  have "task_ok P contents sem ?s b u = task_ok P contents sem s b u" "sem_ok P contents sem ?s b u = sem_ok P contents sem s b u"
    for b u by (simp_all add: task_ok_def sem_ok_def load in_user_code_iff)
  with assms load show ?thesis by (simp add: sys_inv_def)
qed

context platform
begin

abbreviation "good \<equiv> sys_inv P contents capacity sem cnt"
abbreviation "ok \<equiv> task_ok P contents sem"

lemma invD:
  assumes "good s" "tasks s a = Some t"
  shows "ok s a t" "owned sem cnt t (world s)" "sem_ok P contents sem s a t"
  using assms by (simp_all add: sys_inv_def)

lemma inv_capacity: "good s \<Longrightarrow> length (contents (krn (sys_loop s))) \<le> capacity"
  by (simp add: sys_inv_def)

lemma push_laws: "push_laws (api a) (queued P contents a)"
proof -
  have "push_step (api a) e = (b, e') \<Longrightarrow> queued P contents a e' = queued P contents a e + (if b then 1 else 0)" for e b e'
    using push_step_frame[of a e b e'] by (simp add: queued_def)
  then show ?thesis
    by (auto simp: push_laws_def queued_def loop_task_api_def on_services_def split: prod.splits)
qed

lemma load_bound: "good s \<Longrightarrow> load P contents s a \<le> capacity + 1"
  using inv_capacity[of s] count_le_length[of "contents (krn (sys_loop s))" "step_command P a"]
  by (simp add: load_def queued_def env_def)

lemma foreign_queued:
  "contents (krn l') = contents (krn l) @ cs \<Longrightarrow> \<forall>c\<in>set cs. cmd_execute c \<noteq> step_fn P \<Longrightarrow>
    queued P contents b (l', w') = queued P contents b (l, w)"
  by (auto simp: queued_def count_list_0_iff dest: bspec[of _ _ "step_command P b"])

lemma foreign_push_inv:
  assumes "good s" "cmd_execute c \<noteq> step_fn P" "push_func (rt P) isr c (sys_loop s) = (b, l)"
    "foreign_slots P l"
  shows "good (s\<lparr>sys_loop := l\<rparr>)"
proof (rule sys_inv_loop[OF assms(1)])
  note p = push_contents[OF assms(3)]
  show "queued P contents b' (l, world s) = queued P contents b' (env s)" for b'
    unfolding env_def by (rule foreign_queued[where cs = "if b then [c] else []"]) (use p assms(2) in auto)
  show "length (contents (krn l)) \<le> capacity" using p inv_capacity[OF assms(1)] by (auto split: if_splits)
qed (rule assms(4))

lemma post_slots:
  assumes "post_delayed_func (rt P) isr d c l = (b, l')" "d \<noteq> 0" "dt \<in> set (delayed_tasks l')" "in_use dt"
  shows "dt_cmd dt = c \<or> dt \<in> set (delayed_tasks l)"
proof (cases "find_slot (delayed_tasks l)")
  case None
  with assms show ?thesis by (simp add: post_delayed_func_def Let_def)
next
  case (Some i)
  note i = find_slot_Some[OF Some]
  obtain e x where l': "delayed_tasks l' = (delayed_tasks l)[i := \<lparr>dt_cmd = c, in_use = x\<rparr>]"
    using assms(1,2) Some i by (auto simp: post_delayed_func_def Let_def split: prod.splits if_splits)
  with assms(3) set_update_subset_insert[of "delayed_tasks l" i] show ?thesis by fastforce
qed

lemma foreign_post_inv:
  assumes "good s" "cmd_execute c \<noteq> step_fn P" "post_delayed_func (rt P) isr d c (sys_loop s) = (b, l)"
  shows "good (s\<lparr>sys_loop := l\<rparr>)"
proof (cases "d = 0")
  case True
  then have p: "push_func (rt P) isr c (sys_loop s) = (b, l)" using assms(3) by (simp add: post_delayed_func_def)
  have "foreign_slots P l" using push_contents[OF p] assms(1) by (simp add: sys_inv_def foreign_slots_def)
  from foreign_push_inv[OF assms(1,2) p this] show ?thesis .
next
  case False
  note p = post_contents[OF assms(3) False]
  show ?thesis
  proof (rule sys_inv_loop[OF assms(1)])
    show "queued P contents b' (l, world s) = queued P contents b' (env s)" for b' using p by (simp add: queued_def env_def)
    show "foreign_slots P l" unfolding foreign_slots_def
    proof (intro ballI impI)
      fix dt assume dt: "dt \<in> set (delayed_tasks l)" "in_use dt"
      from post_slots[OF assms(3) False dt] dt(2) assms(1,2) show "cmd_execute (dt_cmd dt) \<noteq> step_fn P"
        by (auto simp: foreign_slots_def sys_inv_def)
    qed
    show "length (contents (krn l)) \<le> capacity" using p inv_capacity[OF assms(1)] by simp
  qed
qed

lemma foreign_timer_inv:
  assumes "good s" "i < length (delayed_tasks (sys_loop s))" "in_use (delayed_tasks (sys_loop s) ! i)"
    "timer_callback (rt P) i (sys_loop s) = (b, l)"
  shows "good (s\<lparr>sys_loop := l\<rparr>)"
proof -
  let ?c = "dt_cmd (delayed_tasks (sys_loop s) ! i)"
  obtain l1 where p: "push_func (rt P) False ?c (sys_loop s) = (b, l1)"
    and l: "l = l1\<lparr>delayed_tasks := (delayed_tasks l1)[i := (delayed_tasks l1 ! i)\<lparr>in_use := False\<rparr>]\<rparr>"
    using assms(4) by (auto simp: timer_callback_def split: prod.splits)
  have slots: "foreign_slots P (sys_loop s)" using assms(1) by (simp add: sys_inv_def)
  then have c: "cmd_execute ?c \<noteq> step_fn P" using assms(2,3) by (simp add: foreign_slots_def)
  have l1: "foreign_slots P l1" using push_contents[OF p] slots by (simp add: foreign_slots_def)
  have "good (s\<lparr>sys_loop := l1\<rparr>)" by (rule foreign_push_inv[OF assms(1) c p l1])
  moreover have "foreign_slots P l"
    using l1 unfolding l foreign_slots_def by (auto dest!: set_update_subset_insert[THEN subsetD])
  ultimately show ?thesis
    using sys_inv_loop[of P contents capacity sem cnt "s\<lparr>sys_loop := l1\<rparr>" l] inv_capacity[of "s\<lparr>sys_loop := l1\<rparr>"]
    by (simp add: l queued_def env_def)
qed

lemma take_foreign_inv:
  assumes "good s" "run_round (rt P) (sys_loop s) = Some (c, l)" "cmd_execute c \<noteq> step_fn P"
  shows "good (s\<lparr>sys_loop := l\<rparr>)"
proof -
  have "contents (krn (sys_loop s)) = c # contents (krn l)" "delayed_tasks l = delayed_tasks (sys_loop s)"
    using assms(2) task.receive_Some by (auto simp: run_round_def split: option.splits)
  moreover have "c \<noteq> step_command P b" for b using assms(3) by auto
  ultimately show ?thesis using sys_inv_loop[OF assms(1), of l] assms(1)
    by (auto simp: queued_def env_def sys_inv_def foreign_slots_def)
qed

text \<open>The task objects.\<close>

lemma construct_inv:
  assumes "good s" "tasks s a = None"
  shows "good (s\<lparr>tasks := (tasks s)(a \<mapsto> ml_task_new), missed := (missed s)(a := 0)\<rparr>)" (is "good ?s")
proof -
  have load: "load P contents ?s b = load P contents s b" "in_user_code ?s b = in_user_code s b" for b
    by (simp_all add: load_def env_def in_flight_iff in_user_code_iff)
  have new: "own_sem ml_task_new = {}" "own_locks ml_task_new = {}" "owned sem cnt ml_task_new (world s)"
    by (simp_all add: own_sem_def own_locks_def owned_def pm_rel_def ml_task_new_def pm_lock_new_def)
  have "ok ?s a ml_task_new"
    using assms by (simp add: task_ok_def load sys_inv_def) (simp add: ml_task_new_def pm_lock_new_def)
  moreover have "sem_ok P contents sem ?s a ml_task_new" using assms by (simp add: sem_ok_def sys_inv_def)
  moreover have "ok ?s b u" "sem_ok P contents sem ?s b u" if "b \<noteq> a" "tasks s b = Some u" for b u
    by (rule task_ok_same[OF invD(1)[OF assms(1) that(2)]] sem_ok_same[OF invD(3,1)[OF assms(1) that(2)]]; use that load in simp)+
  ultimately show ?thesis using assms new load by (auto simp: sys_inv_def)
qed

lemma destroy_inv:
  assumes "good s" "tasks s a = Some t" "\<not> mt_running t" "joining s a = None"
  shows "good (s\<lparr>tasks := (tasks s)(a := None)\<rparr>)" (is "good ?s")
proof -
  have load: "load P contents ?s b = load P contents s b" "in_user_code ?s b = in_user_code s b" for b
    by (simp_all add: load_def env_def in_flight_iff in_user_code_iff)
  have "ok ?s b u" "sem_ok P contents sem ?s b u" if "tasks s b = Some u" for b u
    by (rule task_ok_same[OF invD(1)[OF assms(1) that]] sem_ok_same[OF invD(3,1)[OF assms(1) that]]; use load in simp)+
  moreover have "load P contents s a = 0" using invD(1)[OF assms(1,2)] assms(3,4) by (simp add: task_ok_def)
  ultimately show ?thesis using assms load by (auto simp: sys_inv_def)
qed

lemma put_simps [simp]:
  "tasks (put a t e f s) = (tasks s)(a \<mapsto> t)" "env (put a t e f s) = e" "world (put a t e f s) = snd e"
  "missed (put a t e f s) = (missed s)(a := f)" "joining (put a t e f s) = joining s"
  "executing (put a t e f s) = executing s" "sys_loop (put a t e f s) = fst e"
  by (simp_all add: put_def env_def)

lemma put_exec [simp]:
  "in_flight (put a t e f s) b = in_flight s b" "in_user_code (put a t e f s) b = in_user_code s b"
  "in_flight (s\<lparr>joining := j\<rparr>) b = in_flight s b" "in_user_code (s\<lparr>joining := j\<rparr>) b = in_user_code s b"
  by (simp_all add: in_flight_iff in_user_code_iff)

lemma env_simps [simp]:
  "env (s\<lparr>joining := j\<rparr>) = env s" "env (s\<lparr>executing := x\<rparr>) = env s" "fst (env s) = sys_loop s" "snd (env s) = world s"
  by (simp_all add: env_def)

text \<open>An operation that starts from the present loop.\<close>

lemma sys_inv_here:
  assumes inv: "good s" and t: "tasks s a = Some t" and fr: "framed a (t, env s) (t', e')"
    and s': "tasks s' = (tasks s)(a \<mapsto> t')" "env s' = e'"
      "\<And>b. b \<noteq> a \<Longrightarrow> missed s' b = missed s b \<and> joining s' b = joining s b \<and>
        (\<forall>pc. executing s' = Some (b, pc) \<longleftrightarrow> executing s = Some (b, pc))"
      "executing s' \<noteq> Some (a, Exiting)"
    and "owned sem cnt t' (world s') \<Longrightarrow> ok s' a t'" "sem_ok P contents sem s' a t'"
  shows "good s'"
  by (rule sys_inv_task[OF inv t _ _ _ _ fr s']) (use assms inv_capacity[OF inv] in simp_all)

lemma not_exiting: "good s \<Longrightarrow> executing s \<noteq> Some (a, Exiting)"
  by (simp add: sys_inv_def)

lemma start_inv:
  assumes inv: "good s" and t: "tasks s a = Some t" and j: "joining s a = None"
    and r: "start_internal (api a) config t (env s) = (err, t', e')"
  shows "good (put a t' e' (if mt_running t then missed s a else 0) s)" (is "good ?s")
proof (rule sys_inv_here[OF inv t start_frame[OF r]])
  note okt = invD(1)[OF inv t]
  assume own: "owned sem cnt t' (world ?s)"
  show "ok ?s a t'"
  proof (cases "mt_running t")
    case True
    then have "t' = t" "e' = env s" using r by (auto simp: start_internal_def)
    then show ?thesis using True by (simp add: task_ok_same[OF okt] load_def)
  next
    case False
    have locks: "\<not> acquired (mt_sleep t)" "\<not> acquired (mt_apb t)"
      using okt invD(2)[OF inv t] False j by (simp_all add: task_ok_def owned_def pm_rel_def)
    have idle: "load P contents s a = 0" "mt_join t = 0" using okt False j by (simp_all add: task_ok_def)
    then have x: "\<not> in_flight s a" "queued P contents a (env s) = 0" by (simp_all add: load_def split: if_splits)
    from start_result[OF r False idle(2) locks] show ?thesis
    proof (elim disjE conjE)
      assume c: "contents (krn (fst e')) = contents (krn (fst (env s))) @ [step_command P a]"
        and "mt_running t'" "\<not> mt_terminate t'" "mt_join t' \<noteq> 0" "mt_inflight t' = 1" "\<not> acquired (mt_sleep t')"
          "\<not> acquired (mt_apb t')" "sem (snd e') (mt_join t') = Some False"
      moreover have "load P contents ?s a = 1" using c x by (simp add: load_def queued_def)
      ultimately show ?thesis using j False by (simp add: task_ok_def)
    next
      assume c: "contents (krn (fst e')) = contents (krn (fst (env s)))" and "\<not> mt_running t'" "mt_join t' = 0"
          "mt_timer t' = 0" and h: "handle (mt_sleep t') = 0" "handle (mt_apb t') = 0"
      moreover have "load P contents ?s a = 0" using c x by (simp add: load_def queued_def)
      moreover have "\<not> acquired (mt_sleep t')" "\<not> acquired (mt_apb t')" using own h by (simp_all add: owned_def pm_rel_def)
      ultimately show ?thesis using j False by (simp add: task_ok_def)
    qed
  qed
qed (use not_exiting[OF inv] j in \<open>simp_all add: sem_ok_def\<close>)

lemma run_op_idle:
  assumes "run_op (api a) op (t, e, f) = (t', e', f')" "\<not> mt_running t" "op \<noteq> TimerOp"
  shows "e' = e \<and> f' = f \<and> t' = t\<lparr>mt_stop := mt_stop t'\<rparr>"
  using assms by (cases op) (auto simp: count_failed_def notify_def politely_request_stop_def Let_def)

lemma operation_inv:
  assumes inv: "good s" and t: "tasks s a = Some t" and op: "op = TimerOp \<longrightarrow> mt_timer t \<noteq> 0"
    and r: "run_op (api a) op (t, env s, missed s a) = (t', e', f')" and f: "f' < 2 ^ 31"
  shows "good (put a t' e' f' s)" (is "good ?s")
proof (rule sys_inv_here[OF inv t conjunct1[OF run_op_frame[OF r]]])
  note okt = invD(1)[OF inv t]
  note keep = run_op_setup[OF r, unfolded same_setup_def]
  have sem: "sem (snd e') = sem (world s)" using conjunct2[OF run_op_frame[OF r]] by simp
  show "ok ?s a t'"
  proof (cases "mt_running t")
    case True
    let ?k = "if in_flight s a then 1 else 0"
    have "inflight_ok (queued P contents a) ?k (t, env s, missed s a)"
      using okt True by (auto simp: inflight_ok_def task_ok_def load_def)
    from run_op_ok[OF push_laws this, of op] have "mt_inflight t' = of_nat (load P contents ?s a + f')"
      by (simp add: r inflight_ok_def load_def add_ac)
    with okt True keep sem f show ?thesis by (auto simp: task_ok_def)
  next
    case False
    then have "op \<noteq> TimerOp" using op okt by (auto simp: task_ok_def)
    note idle = run_op_idle[OF r False this]
    have "ok ?s a t" by (rule task_ok_same[OF okt]) (simp_all add: conjunct1[OF idle] conjunct1[OF conjunct2[OF idle]] load_def)
    moreover have "ok ?s a (t\<lparr>mt_stop := mt_stop t'\<rparr>) = ok ?s a t" by (rule task_ok_stop)
    ultimately show ?thesis by (simp only: conjunct2[OF conjunct2[OF idle], symmetric])
  qed
  show "sem_ok P contents sem ?s a t'"
  proof (cases "mt_running t")
    case True
    with okt have "joining s a = None" by (simp add: task_ok_def)
    then show ?thesis by (simp add: sem_ok_def)
  next
    case False
    then have "op \<noteq> TimerOp" using op okt by (auto simp: task_ok_def)
    with run_op_idle[OF r False] invD(3)[OF inv t] keep sem show ?thesis by (simp add: sem_ok_def load_def)
  qed
qed (use not_exiting[OF inv] in simp_all)

lemma claim_inv:
  assumes inv: "good s" and t: "tasks s a = Some t" and cap: "capacity + 1 < 2 ^ 31"
    and r: "reset_claim (api a) t (env s) = (Some waits, t', e')"
  shows "good ((put a t' e' (missed s a) s)\<lparr>joining := (joining s)(a \<mapsto> waits)\<rparr>)" (is "good ?s")
proof (rule sys_inv_here[OF inv t conjunct1[OF reset_claim_frame[OF r]]])
  note okt = invD(1)[OF inv t]
  have run: "mt_running t" and t': "\<not> mt_running t'" "mt_terminate t'" "mt_timer t' = 0" "mt_join t' = mt_join t"
    "mt_inflight t' = mt_inflight t" "mt_sleep t' = mt_sleep t" "mt_apb t' = mt_apb t"
    and waits: "waits = (mt_inflight t > 0 \<and> mt_join t \<noteq> 0)"
    using r by (auto simp: reset_claim_def Let_def split: if_splits)
  have load: "load P contents ((put a t' e' m s)\<lparr>joining := j\<rparr>) a = load P contents s a"
    and sem: "sem (snd e') = sem (world s)" for m j
    using reset_claim_frame[OF r] by (simp_all add: load_def queued_def)
  have "load P contents s a + missed s a < 2 ^ 32" using load_bound[OF inv, of a] okt cap by (simp add: task_ok_def)
  then have "unat (of_nat (load P contents s a + missed s a) :: 32 word) = load P contents s a + missed s a"
    by (rule unat_of_nat_32)
  moreover have "mt_inflight t = of_nat (load P contents s a + missed s a)" "mt_join t \<noteq> 0"
    using okt run by (simp_all only: task_ok_def simp_thms)
  moreover have "0 < mt_inflight t \<longleftrightarrow> 0 < unat (mt_inflight t)" by (simp add: unat_gt_0 word_gt_0)
  ultimately have w: "waits \<longleftrightarrow> load P contents s a + missed s a \<noteq> 0" by (simp only: waits simp_thms neq0_conv)
  then show "ok ?s a t'" using okt run t' load sem by (simp add: task_ok_def)
  show "sem_ok P contents sem ?s a t'" using w load by (auto simp: sem_ok_def)
qed (use not_exiting[OF inv] in simp_all)

lemma finish_inv:
  assumes inv: "good s" and t: "tasks s a = Some t" and j: "joining s a = Some waits"
    and w: "\<not> waits \<or> sem (world s) (mt_join t) = Some True \<or> timed_out P contents {} s a"
    and r: "reset_release (api a) t (env s) = (t', e')"
  shows "good ((put a t' e' (missed s a) s)\<lparr>joining := (joining s)(a := None)\<rparr>)" (is "good ?s")
proof (rule sys_inv_here[OF inv t reset_release_frame[OF r]])
  note okt = invD(1)[OF inv t]
  note r' = reset_release_result[OF r]
  assume own: "owned sem cnt t' (world ?s)"
  have "load P contents s a = 0"
    using w okt j by (auto simp: task_ok_def timed_out_def load_def)
  then have "load P contents ?s a = 0" using r' by (simp add: load_def queued_def)
  moreover have "\<not> acquired (mt_sleep t')" "\<not> acquired (mt_apb t')" using own r' by (simp_all add: owned_def pm_rel_def)
  ultimately show "ok ?s a t'" using okt j r' by (auto simp: task_ok_def)
qed (use not_exiting[OF inv] in \<open>simp_all add: sem_ok_def\<close>)

text \<open>The step on the loop's thread.\<close>

lemma busy:
  assumes "good s" "executing s = Some (a, pc)"
  shows "pc \<noteq> Exiting" "in_flight s a" "0 < load P contents s a" "tasks s a \<noteq> None"
proof -
  show 1: "pc \<noteq> Exiting" using not_exiting[OF assms(1)] assms(2) by blast
  then show 2: "in_flight s a" using assms(2) by (simp add: in_flight_iff)
  then show 3: "0 < load P contents s a" by (simp add: load_def)
  have "tasks s a = None \<Longrightarrow> load P contents s a = 0" using assms(1) unfolding sys_inv_def by blast
  with 3 show "tasks s a \<noteq> None" by (metis less_irrefl)
qed

lemma step_enter_result:
  assumes "step_enter (api a) t e = (pc, t', e')"
  shows "framed a (t, e) (t', e') \<and> fst e' = fst e \<and> t' = t\<lparr>mt_sleep := mt_sleep t', mt_apb := mt_apb t'\<rparr> \<and>
    sem (snd e') = sem (snd e) \<and> (pc = Leaving \<and> t' = t \<or> (\<exists>v. pc = InStep v \<or> pc = InStop v))"
proof (cases "mt_terminate t \<or> mt_version t = 0")
  case False
  then have l: "acquire_locks (api a) t e = (t', e')" and pc: "pc = (if mt_stop t' then InStop else InStep) (mt_version t)"
    using assms by (auto simp: step_enter_def Let_def split: prod.splits if_splits)
  have "sem (snd e') = sem (snd e)"
    using l locks_sem(2) by (auto simp: acquire_locks_both lifted_locks on_locks_def with_loop_def split: prod.splits)
  with both_locks_frame(2)[OF l] loop_same(2)[OF l] acquire_locks_fields[OF l] pc show ?thesis by auto
qed (use assms in \<open>simp add: step_enter_def Let_def\<close>)

lemma release_locks_result:
  assumes "release_locks (api a) t e = (t', e')" "owned sem cnt t (snd e)"
  shows "sem (snd e') = sem (snd e) \<and> \<not> acquired (mt_sleep t') \<and> \<not> acquired (mt_apb t')"
proof -
  obtain l w where e: "e = (l, w)" by fastforce
  obtain x lk w1 where 1: "release (sv_pm (sv P)) (mt_sleep t) w = (x, lk, w1)" by (cases rule: prod_cases3)
  obtain y lk2 w2 where 2: "release (sv_pm (sv P)) (mt_apb t) w1 = (y, lk2, w2)" by (cases rule: prod_cases3)
  have own: "pm_rel cnt (mt_sleep t) w" "pm_rel cnt (mt_apb t) w" "handle (mt_apb t) = handle (mt_sleep t) \<longrightarrow> handle (mt_apb t) = 0"
    using assms(2) unfolding owned_def e by auto
  note rel1 = locks_rel(3)[OF 1 own(1)]
  have "pm_rel cnt (mt_apb t) w1" using lock_step[OF own(1) _ _ own(2,3)] rel1 by blast
  from locks_rel(3)[OF 2 this] rel1 locks_sem(3)[OF 1] locks_sem(3)[OF 2] show ?thesis
    using assms(1) 1 2 by (auto simp: release_locks_both lifted_locks on_locks_def with_loop_def e)
qed

lemma take_inv:
  assumes inv: "good s" and x: "executing s = None" and c: "run_round (rt P) (sys_loop s) = Some (step_command P a, l)"
    and t: "tasks s a = Some t" and r: "step_enter (api a) t (l, world s) = (pc, t', e')"
  shows "good ((put a t' e' (missed s a) s)\<lparr>executing := Some (a, pc)\<rparr>)" (is "good ?s")
proof (rule sys_inv_task[OF inv t, where ?e0.0 = "(l, world s)"])
  note okt = invD(1)[OF inv t]
  note r' = step_enter_result[OF r]
  have l: "contents (krn (sys_loop s)) = step_command P a # contents (krn l)" "delayed_tasks l = delayed_tasks (sys_loop s)"
    using c task.receive_Some by (auto simp: run_round_def split: option.splits)
  show "length (contents (krn (fst (l, world s)))) \<le> capacity" using inv_capacity[OF inv] l by simp
  show "queued P contents b (l, world s) = queued P contents b (env s)" if "b \<noteq> a" for b
    using l that by (simp add: queued_def)
  show "framed a (t, l, world s) (t', e')" using r' by blast
  have load: "load P contents ?s a = load P contents s a"
    using x l r' by (auto simp: load_def in_flight_iff queued_def)
  moreover have "\<not> in_user_code s a" using x by (simp add: in_user_code_iff)
  moreover have "mt_running t' = mt_running t \<and> mt_terminate t' = mt_terminate t \<and> mt_join t' = mt_join t \<and>
      mt_timer t' = mt_timer t \<and> mt_inflight t' = mt_inflight t" using r' by (cases t) (auto, (metis ml_task.select_convs)+)
  moreover have pos: "0 < load P contents s a" using l by (simp add: load_def queued_def)
  ultimately show "ok ?s a t'" using okt r' by (auto simp: task_ok_def in_user_code_iff)
  show "sem_ok P contents sem ?s a t'" using pos load by (simp add: sem_ok_def)
qed (use x c r t in \<open>auto simp: put_def run_round_def env_def dest: step_enter_result split: option.splits\<close>)

lemma release_inv:
  assumes inv: "good s" and x: "executing s = Some (a, pc)" and t: "tasks s a = Some t"
    and u: "u = t\<lparr>mt_version := v\<rparr>"
    and mid: "framed a (t, env s) (u, e1)" "fst e1 = sys_loop s" "sem (snd e1) = sem (world s)"
    and r: "release_locks (api a) u e1 = (t', e')"
  shows "good ((put a t' e' (missed s a) s)\<lparr>executing := Some (a, Leaving)\<rparr>)" (is "good ?s")
proof (rule sys_inv_here[OF inv t frame_trans[OF mid(1) both_locks_frame(3)[OF r]]])
  note okt = invD(1)[OF inv t]
  have "owned sem cnt u (snd e1)" using mid(1) invD(2)[OF inv t] by (simp add: frame_def)
  note r' = release_locks_result[OF r this]
  have load: "load P contents ?s a = load P contents s a"
    using loop_same(3)[OF r] mid(2) busy(2)[OF inv x] by (simp add: load_def in_flight_iff queued_def)
  moreover have "mt_running t' = mt_running t \<and> mt_terminate t' = mt_terminate t \<and> mt_join t' = mt_join t \<and>
      mt_timer t' = mt_timer t \<and> mt_inflight t' = mt_inflight t"
    using release_locks_fields[OF r] u by (cases t) (auto, (metis ml_task.select_convs)+)
  ultimately show "ok ?s a t'" using okt r' mid(3) busy(3)[OF inv x] by (auto simp: task_ok_def)
  show "sem_ok P contents sem ?s a t'" using load busy(3)[OF inv x] by (simp add: sem_ok_def)
qed (use x in simp_all)

lemma step_again_inv:
  assumes inv: "good s" and x: "executing s = Some (a, pc)" and t: "tasks s a = Some t"
    and r: "step_delay (api a) d t (env s) = (t', e')"
  shows "good ((put a t' e' (missed s a) s)\<lparr>executing := Some (a, Leaving)\<rparr>)"
proof -
  define e1 where "e1 = (if \<not> mt_terminate t \<and> mt_timer t \<noteq> 0
      then timer_start_once (api a) (mt_timer t) (ucast d * 1000) (timer_stop (api a) (mt_timer t) (env s)) else env s)"
  have "framed a (t, env s) (t, e1)" unfolding e1_def using frame_trans[OF frame_timer(1) frame_timer(3)] by simp
  moreover have "fst e1 = sys_loop s" by (simp add: e1_def loop_same)
  moreover have "sem (snd e1) = sem (world s)" by (simp add: e1_def loop_task_api_def env_def laws)
  moreover have "release_locks (api a) t e1 = (t', e')" using r by (simp add: step_delay_def e1_def)
  ultimately show ?thesis using release_inv[OF inv x t, of t "mt_version t" e1 t' e'] by simp
qed

lemma stopped_inv:
  assumes inv: "good s" and x: "executing s = Some (a, pc)" and t: "tasks s a = Some t"
    and r: "step_stop (api a) v t (env s) = (t', e')"
  shows "good ((put a t' e' (missed s a) s)\<lparr>executing := Some (a, Leaving)\<rparr>)"
proof -
  have "deactivate v t = t\<lparr>mt_version := mt_version (deactivate v t)\<rparr>" by (simp add: deactivate_def)
  moreover have "framed a (t, env s) (deactivate v t, env s)" by (rule frame_task) (simp_all add: deactivate_def)
  ultimately show ?thesis using release_inv[OF inv x t _ _ _ _ r[unfolded step_stop_def]] by simp
qed

lemma step_completes_inv:
  assumes inv: "good s" and x: "executing s = Some (a, InStep v)"
  shows "good (s\<lparr>executing := Some (a, InStop v)\<rparr>)" (is "good ?s")
proof -
  have load: "load P contents ?s b = load P contents s b" "in_user_code ?s b = in_user_code s b" for b
    using x by (auto simp: load_def in_flight_iff in_user_code_iff)
  have "ok ?s b u" "sem_ok P contents sem ?s b u" if "tasks s b = Some u" for b u
    by (rule task_ok_same[OF invD(1)[OF inv that]] sem_ok_same[OF invD(3,1)[OF inv that]]; use load in simp)+
  then show ?thesis using inv load by (simp add: sys_inv_def)
qed

lemma exit_give_world:
  assumes "mt_join t \<noteq> 0 \<longrightarrow> sem (world s) (mt_join t) \<noteq> None"
  shows "sem (snd (exit_give (api a) t (env s))) =
    (if mt_terminate t \<and> mt_join t \<noteq> 0 then (sem (world s))(mt_join t \<mapsto> True) else sem (world s))"
  using assms laws(16) by (auto simp: exit_give_def loop_task_api_def env_def)

text \<open>The decrement at the end of a step: what it changes, and when it is the last one.\<close>

lemma leave_changes:
  assumes inv: "good s" and x: "executing s = Some (a, Leaving)"
    and r: "exit_decrement (api a) t (env s) = (t', e')"
  shows "t' = t\<lparr>mt_inflight := mt_inflight t - 1\<rparr>"
    and "e' = (if mt_inflight t = 1 then exit_give (api a) t (env s) else env s)"
    and "framed a (t, env s) (t', e')"
    and "load P contents ((put a t' e' (missed s a) s)\<lparr>executing := None\<rparr>) a + 1 = load P contents s a"
proof -
  show t': "t' = t\<lparr>mt_inflight := mt_inflight t - 1\<rparr>"
    and e': "e' = (if mt_inflight t = 1 then exit_give (api a) t (env s) else env s)"
    using r by (auto simp: exit_halves exit_count_def exit_give_def split: if_splits)
  have "framed a (t, env s) (t, e')" by (simp add: e' exit_give_def sem_give_frame)
  moreover have "framed a (t, e') (t', e')" by (rule frame_task) (simp_all add: t')
  ultimately show "framed a (t, env s) (t', e')" by (rule frame_trans)
  have "fst e' = sys_loop s" by (simp add: e' exit_give_def loop_same)
  then show "load P contents ((put a t' e' (missed s a) s)\<lparr>executing := None\<rparr>) a + 1 = load P contents s a"
    using busy(2)[OF inv x] by (simp add: load_def in_flight_iff queued_def)
qed

lemma leave_last:
  assumes inv: "good s" and t: "tasks s a = Some t" and act: "mt_running t \<or> joining s a \<noteq> None"
    and cap: "capacity + 1 < 2 ^ 31"
  shows "mt_inflight t = of_nat (load P contents s a + missed s a)"
    and "mt_inflight t = 1 \<longleftrightarrow> load P contents s a + missed s a = 1"
proof -
  note okt = invD(1)[OF inv t]
  show infl: "mt_inflight t = of_nat (load P contents s a + missed s a)" using okt act unfolding task_ok_def by blast
  have "load P contents s a + missed s a < 2 ^ 32" using load_bound[OF inv, of a] okt cap by (simp add: task_ok_def)
  then show "mt_inflight t = 1 \<longleftrightarrow> load P contents s a + missed s a = 1"
    unfolding infl by (metis unat_of_nat_32 unat_eq_1_iff of_nat_1)
qed

lemma leave_ok:
  assumes okt: "ok s a t" and act: "mt_running t \<or> joining s a \<noteq> None" and user: "\<not> in_user_code s a"
    and t': "t' = t\<lparr>mt_inflight := mt_inflight t - 1\<rparr>"
    and load: "load P contents s' a + 1 = load P contents s a" "missed s' a = missed s a" "joining s' a = joining s a"
    and infl: "mt_inflight t = of_nat (load P contents s a + missed s a)"
    and sem: "sem (world s') (mt_join t) = Some True \<longrightarrow> mt_join t \<noteq> 0 \<longrightarrow>
      joining s a \<noteq> None \<and> load P contents s' a + missed s a = 0"
  shows "ok s' a t'"
proof -
  obtain L where L: "load P contents s' a = L" "load P contents s a = Suc L" using load(1) by (metis Suc_eq_plus1)
  have f: "mt_running t' = mt_running t" "mt_terminate t' = mt_terminate t" "mt_join t' = mt_join t"
    "mt_timer t' = mt_timer t" "mt_sleep t' = mt_sleep t" "mt_apb t' = mt_apb t" by (simp_all add: t')
  have i: "mt_inflight t' = of_nat (L + missed s a)" by (simp add: t' infl L)
  have locks: "\<not> acquired (mt_sleep t)" "\<not> acquired (mt_apb t)" "missed s a < 2 ^ 31"
    using okt user unfolding task_ok_def by blast+
  show ?thesis
  proof (cases "mt_running t")
    case True
    then have "joining s a = None" "\<not> mt_terminate t" "mt_join t \<noteq> 0" using okt unfolding task_ok_def by blast+
    with True locks i sem load(2,3) show ?thesis unfolding task_ok_def f L by simp
  next
    case False
    with act obtain w where w: "joining s a = Some w" by blast
    with okt have "mt_terminate t" "mt_join t \<noteq> 0" "mt_timer t = 0" "w" using L False unfolding task_ok_def by auto
    with False w locks i sem load(2,3) show ?thesis unfolding task_ok_def f L by simp
  qed
qed

lemma leave_inv:
  assumes inv: "good s" and x: "executing s = Some (a, Leaving)" and t: "tasks s a = Some t" and cap: "capacity + 1 < 2 ^ 31"
    and r: "exit_decrement (api a) t (env s) = (t', e')"
  shows "good ((put a t' e' (missed s a) s)\<lparr>executing := None\<rparr>)" (is "good ?s")
proof -
  note okt = invD(1)[OF inv t] and ch = leave_changes[OF inv x r]
  have act: "mt_running t \<or> joining s a \<noteq> None" using okt busy(3)[OF inv x] by (auto simp: task_ok_def)
  note last = leave_last[OF inv t act cap]
  have own: "mt_join t \<noteq> 0 \<longrightarrow> sem (world s) (mt_join t) \<noteq> None" using invD(2)[OF inv t] by (simp add: owned_def)
  have sem: "sem (snd e') (mt_join t) = Some True \<longrightarrow> mt_join t \<noteq> 0 \<longrightarrow>
      joining s a \<noteq> None \<and> load P contents ?s a + missed s a = 0"
    using exit_give_world[OF own, of a] last(2) ch(2,4) okt act busy(3)[OF inv x]
    by (auto simp: task_ok_def split: if_splits)
  show ?thesis
  proof (rule sys_inv_here[OF inv t ch(3)])
    have user: "\<not> in_user_code s a" using x by (simp add: in_user_code_iff)
    have m: "missed ?s a = missed s a" "joining ?s a = joining s a" and w: "world ?s = snd e'" by simp_all
    show "ok ?s a t'" by (rule leave_ok[OF okt act user ch(1,4) m last(1)]) (unfold w, rule sem)
    have "sem (snd e') (mt_join t) = Some True" if "joining s a = Some True" "mt_inflight t = 1"
    proof -
      have "mt_terminate t" "mt_join t \<noteq> 0" using okt that(1) unfolding task_ok_def by blast+
      with exit_give_world[OF own, of a] that(2) show ?thesis by (simp add: ch(2))
    qed
    then show "sem_ok P contents sem ?s a t'" using last(2) ch(1,4) by (auto simp: sem_ok_def)
  qed (use x in simp_all)
qed

lemma foreign_push_inv':
  "good s \<Longrightarrow> cmd_execute c \<noteq> step_fn P \<Longrightarrow> push_func (rt P) isr c (sys_loop s) = (b, l) \<Longrightarrow> good (s\<lparr>sys_loop := l\<rparr>)"
  using foreign_push_inv push_contents by (simp add: sys_inv_def foreign_slots_def)

theorem sys_step_inv:
  assumes "sys_step P contents sem {} s s'" "good s" "capacity + 1 < 2 ^ 31"
  shows "good s'"
  using assms(1)
proof (cases rule: sys_step.cases)
  case (start a t config err t' e')
  then show ?thesis using start_inv[OF assms(2)] by simp
next
  case (operation a t op t' e' f')
  then show ?thesis using operation_inv[OF assms(2)] by simp
next
  case (claim a t waits t' e')
  then show ?thesis using claim_inv[OF assms(2) _ assms(3)] by simp
next
  case (finish a t waits t' e')
  then show ?thesis using finish_inv[OF assms(2)] by simp
next
  case (take a l t pc t' e')
  then show ?thesis using take_inv[OF assms(2)] by simp
next
  case (step_again a v t d t' e')
  then show ?thesis using step_again_inv[OF assms(2)] by simp
next
  case (stopped a v t t' e')
  then show ?thesis using stopped_inv[OF assms(2)] by simp
next
  case (leave a t t' e')
  then show ?thesis using leave_inv[OF assms(2) _ _ assms(3)] by simp
next
  case (leave_give a t)
  with not_exiting[OF assms(2)] show ?thesis by blast
qed (use assms(2) in \<open>simp_all add: construct_inv destroy_inv foreign_push_inv' foreign_post_inv foreign_timer_inv
    take_foreign_inv step_completes_inv\<close>)

lemma sys_reach_inv:
  assumes "sys_reach P contents sem {} s0 s" "sys_init contents s0" "capacity + 1 < 2 ^ 31"
  shows "good s"
  using assms(1)
proof (induction rule: sys_reach.induct)
  case refl
  show ?case using assms(2)
    by (auto simp: sys_inv_def sys_init_def load_def in_flight_iff queued_def env_def foreign_slots_def)
next
  case (step s s')
  then show ?case using sys_step_inv assms(3) by blast
qed

end

section \<open>The loop's thread on its own\<close>

text \<open>One turn of the thread while nothing else runs and the user's steps complete; \<^const>\<open>None\<close> when it waits for a
  command (or would touch an object that does not exist).\<close>

definition loop_turn :: "('k, 'w) platform \<Rightarrow> ('k, 'w) task_system \<Rightarrow> ('k, 'w) task_system option" where
  "loop_turn P s =
     (case executing s of
        None \<Rightarrow> do {
          (c, l) \<leftarrow> run_round (rt P) (sys_loop s);
          if cmd_execute c \<noteq> step_fn P then Some (s\<lparr>sys_loop := l\<rparr>)
          else do {
            t \<leftarrow> tasks s (cmd_arg c);
            (case step_enter (loop_task_api P (cmd_arg c)) t (l, world s) of (pc, t', e') \<Rightarrow>
              Some ((put (cmd_arg c) t' e' (missed s (cmd_arg c)) s)\<lparr>executing := Some (cmd_arg c, pc)\<rparr>)) } }
      | Some (a, InStep v) \<Rightarrow> Some (s\<lparr>executing := Some (a, InStop v)\<rparr>)
      | Some (a, InStop v) \<Rightarrow> do {
          t \<leftarrow> tasks s a;
          (case step_stop (loop_task_api P a) v t (env s) of (t', e') \<Rightarrow>
            Some ((put a t' e' (missed s a) s)\<lparr>executing := Some (a, Leaving)\<rparr>)) }
      | Some (a, Leaving) \<Rightarrow> do {
          t \<leftarrow> tasks s a;
          (case exit_decrement (loop_task_api P a) t (env s) of (t', e') \<Rightarrow>
            Some ((put a t' e' (missed s a) s)\<lparr>executing := None\<rparr>)) }
      | Some (a, Exiting) \<Rightarrow> do {
          t \<leftarrow> tasks s a;
          Some ((put a t (exit_give (loop_task_api P a) t (env s)) (missed s a) s)\<lparr>executing := None\<rparr>) })"

lemma loop_turn_take:
  assumes "loop_turn P s = Some s'" "executing s = None" "run_round (rt P) (sys_loop s) = Some (c, l)" "cmd_execute c = step_fn P"
  obtains t pc t' e' where "c = step_command P (cmd_arg c)" "tasks s (cmd_arg c) = Some t"
    "step_enter (loop_task_api P (cmd_arg c)) t (l, world s) = (pc, t', e')"
    "s' = (put (cmd_arg c) t' e' (missed s (cmd_arg c)) s)\<lparr>executing := Some (cmd_arg c, pc)\<rparr>"
proof -
  obtain t where t: "tasks s (cmd_arg c) = Some t"
    using assms by (cases "tasks s (cmd_arg c)") (simp_all add: loop_turn_def)
  obtain pc t' e' where e: "step_enter (loop_task_api P (cmd_arg c)) t (l, world s) = (pc, t', e')"
    by (cases rule: prod_cases3)
  have "c = step_command P (cmd_arg c)" using assms(4) by (cases c) (simp add: step_command_def)
  then show thesis by (rule that[OF _ t e]) (use assms t e in \<open>simp add: loop_turn_def\<close>)
qed

lemma loop_turn_step: "loop_turn P s = Some s' \<Longrightarrow> sys_step P contents sem hz s s'"
proof (cases "executing s")
  case None
  assume r: "loop_turn P s = Some s'"
  with None obtain c l where c: "run_round (rt P) (sys_loop s) = Some (c, l)"
    by (auto simp: loop_turn_def bind_eq_Some_conv)
  show ?thesis
  proof (cases "cmd_execute c = step_fn P")
    case True
    show ?thesis by (rule loop_turn_take[OF r None c True]) (use sys_step.take[OF None] c in auto)
  qed (use r None c in \<open>auto simp: loop_turn_def intro: sys_step.take_foreign\<close>)
next
  case (Some x)
  assume r: "loop_turn P s = Some s'"
  obtain a pc where x: "x = (a, pc)" by fastforce
  show ?thesis using r Some x
    by (cases pc; cases "tasks s a") (auto simp: loop_turn_def split: prod.splits
        intro: sys_step.step_completes sys_step.stopped sys_step.leave sys_step.leave_give)
qed

primrec loop_turns :: "('k, 'w) platform \<Rightarrow> nat \<Rightarrow> ('k, 'w) task_system \<Rightarrow> ('k, 'w) task_system" where
  "loop_turns P 0 s = s"
| "loop_turns P (Suc n) s = (case loop_turn P s of None \<Rightarrow> s | Some s' \<Rightarrow> loop_turns P n s')"

definition turns_left :: "('k \<Rightarrow> app_command list) \<Rightarrow> ('k, 'w) task_system \<Rightarrow> nat" where
  "turns_left contents s = 4 * length (contents (krn (sys_loop s))) +
     (case executing s of None \<Rightarrow> 0 | Some (a, pc) \<Rightarrow> (case pc of InStep v \<Rightarrow> 3 | InStop v \<Rightarrow> 2 | _ \<Rightarrow> 1))"

text \<open>What a turn leaves alone.\<close>

definition same_joins :: "nat \<Rightarrow> ('k, 'w) task_system \<Rightarrow> ('k, 'w) task_system \<Rightarrow> bool" where
  "same_joins a s s' \<longleftrightarrow> joining s' = joining s \<and> missed s' = missed s \<and>
     map_option mt_join (tasks s' a) = map_option mt_join (tasks s a)"

context platform
begin

lemma loop_turn_progress:
  assumes "loop_turn P s = Some s'"
  shows "turns_left contents s' < turns_left contents s \<and> same_joins a s s'"
proof (cases "executing s")
  case None
  then obtain c l where c: "run_round (rt P) (sys_loop s) = Some (c, l)"
    using assms by (auto simp: loop_turn_def bind_eq_Some_conv)
  then have l: "contents (krn (sys_loop s)) = c # contents (krn l)"
    using task.receive_Some by (auto simp: run_round_def split: option.splits)
  show ?thesis
  proof (cases "cmd_execute c = step_fn P")
    case True
    then obtain t pc t' e' where t: "tasks s (cmd_arg c) = Some t"
      and e: "step_enter (api (cmd_arg c)) t (l, world s) = (pc, t', e')"
      and s': "s' = (put (cmd_arg c) t' e' (missed s (cmd_arg c)) s)\<lparr>executing := Some (cmd_arg c, pc)\<rparr>"
      by (rule loop_turn_take[OF assms None c])
    note e' = step_enter_result[OF e]
    then have "mt_join t' = mt_join t" by (metis ml_task.cases ml_task.select_convs(7) ml_task.update_convs(8,9))
    with e' t l None show ?thesis by (auto simp: s' turns_left_def same_joins_def)
  qed (use assms None c l in \<open>auto simp: loop_turn_def turns_left_def same_joins_def\<close>)
next
  case (Some x)
  obtain b pc where x: "x = (b, pc)" by fastforce
  have stop: "mt_join t' = mt_join t \<and> fst e' = fst e" if "step_stop (api b) v t e = (t', e')" for v t e t' e'
    using that release_locks_fields[of "api b" "deactivate v t" e t' e'] loop_same(3)[of b "deactivate v t" e t' e']
    by (cases t') (auto simp: step_stop_def deactivate_def split: if_splits)
  have dec: "mt_join t' = mt_join t \<and> fst e' = fst e" if "exit_decrement (api b) t e = (t', e')" for t e t' e'
    using that by (auto simp: exit_decrement_def Let_def loop_same split: if_splits)
  have give: "fst (exit_give (api b) t e) = fst e" for t e by (simp add: exit_give_def loop_same)
  from assms Some x show ?thesis
    by (cases pc; cases "tasks s b") (auto simp: loop_turn_def turns_left_def same_joins_def give split: prod.splits
        dest!: stop dec)
qed

lemma loop_turn_None:
  assumes "good s" "loop_turn P s = None"
  shows "executing s = None \<and> contents (krn (sys_loop s)) = []"
proof (cases "executing s")
  case None
  show ?thesis
  proof (cases "run_round (rt P) (sys_loop s)")
    case None
    then show ?thesis using task.receive_None \<open>executing s = None\<close> by (auto simp: run_round_def split: option.splits)
  next
    case (Some cl)
    obtain c l where cl: "cl = (c, l)" by fastforce
    then have "contents (krn (sys_loop s)) = c # contents (krn l)"
      using Some task.receive_Some by (auto simp: run_round_def split: option.splits)
    moreover have "cmd_execute c = step_fn P \<Longrightarrow> c = step_command P (cmd_arg c)" by (cases c) (simp add: step_command_def)
    ultimately have "cmd_execute c = step_fn P \<Longrightarrow> 0 < load P contents s (cmd_arg c)"
      by (simp add: load_def queued_def)
    then have "cmd_execute c = step_fn P \<Longrightarrow> tasks s (cmd_arg c) \<noteq> None"
      using assms(1) unfolding sys_inv_def by (metis less_irrefl)
    with assms(2) None Some cl show ?thesis
      by (auto simp: loop_turn_def split: prod.splits if_splits)
  qed
next
  case (Some x)
  obtain a pc where x: "x = (a, pc)" by fastforce
  with busy(4)[OF assms(1)] Some obtain t where "tasks s a = Some t" by auto
  with assms(2) Some x show ?thesis by (cases pc) (auto simp: loop_turn_def split: prod.splits)
qed

lemma loop_turns_drain:
  assumes "good s" "turns_left contents s \<le> n" "capacity + 1 < 2 ^ 31"
  shows "good (loop_turns P n s) \<and> executing (loop_turns P n s) = None \<and>
    contents (krn (sys_loop (loop_turns P n s))) = [] \<and> same_joins a s (loop_turns P n s)"
  using assms(1,2)
proof (induction n arbitrary: s)
  case 0
  then show ?case by (auto simp: turns_left_def same_joins_def split: option.splits step_pc.splits)
next
  case (Suc n)
  show ?case
  proof (cases "loop_turn P s")
    case None
    with loop_turn_None[OF Suc.prems(1)] Suc.prems(1) show ?thesis by (simp add: same_joins_def)
  next
    case (Some s')
    have "good s'" using sys_step_inv[OF loop_turn_step[OF Some] Suc.prems(1) assms(3)] .
    with Suc.IH[of s'] loop_turn_progress[OF Some, of a] Suc.prems(2) Some show ?thesis by (simp add: same_joins_def)
  qed
qed

end

end
