(* ===== verification/Task_Safety.thy ===== *)
theory Task_Safety
  imports Task_Invariant
begin

text \<open>
  The platform of the host build as an instance, schedules of the system that can be executed, and
  the properties of the tasks on the loop.
\<close>

section \<open>The host's loop as the platform\<close>

text \<open>The queue of the host build, with a driver that counts acquisitions, semaphores in a list, and timers of
  which nothing is remembered.\<close>

type_synonym host_world = "nat option list \<times> bool option list"

definition slot_at :: "'a option list \<Rightarrow> nat \<Rightarrow> 'a option" where
  "slot_at xs h = (if 0 < h \<and> h \<le> length xs then xs ! (h - 1) else None)"

definition on_fst :: "('a \<Rightarrow> 'x \<times> 'a) \<Rightarrow> 'a \<times> 'b \<Rightarrow> 'x \<times> 'a \<times> 'b" where
  "on_fst f w = (case f (fst w) of (x, a) \<Rightarrow> (x, a, snd w))"

definition host_services :: "host_world services" where
  "host_services =
     \<lparr>sv_pm = \<lparr>pm_create = (\<lambda>t w. case pm_create list_api t (fst w) of (err, h, a) \<Rightarrow> (err, h, a, snd w)),
               pm_delete = (\<lambda>h. on_fst (pm_delete list_api h)), pm_acquire = (\<lambda>h. on_fst (pm_acquire list_api h)),
               pm_release = (\<lambda>h. on_fst (pm_release list_api h))\<rparr>,
      sv_timer_create = (\<lambda>w. (ESP_OK, 1, w)), sv_timer_stop = (\<lambda>h w. w), sv_timer_delete = (\<lambda>h w. w),
      sv_timer_start_once = (\<lambda>h us w. w),
      sv_sem_create = (\<lambda>(a, b). (length b + 1, a, b @ [Some False])),
      sv_sem_give = (\<lambda>h (a, b). (a, if slot_at b h \<noteq> None then b[h - 1 := Some True] else b)),
      sv_sem_delete = (\<lambda>h (a, b). (a, if slot_at b h \<noteq> None then b[h - 1 := None] else b))\<rparr>"

definition host_platform :: "nat \<Rightarrow> (mock_loop, host_world) platform" where
  "host_platform n = \<lparr>rt = mock_rtos n, sv = host_services, step_fn = 1\<rparr>"

lemma slot_at_update: "slot_at xs h = Some y \<Longrightarrow> slot_at (xs[h - Suc 0 := x]) = (slot_at xs)(h := x)"
  by (auto simp: slot_at_def fun_eq_iff nth_list_update split: if_splits)

lemma slot_at_append: "slot_at (xs @ [x]) = (slot_at xs)(Suc (length xs) := x)"
  by (auto simp: slot_at_def fun_eq_iff nth_append)

lemma slot_at_end [simp]: "slot_at xs (Suc (length xs)) = None"
  by (simp add: slot_at_def)

lemma pm_laws_lift:
  assumes "pm_laws A cnt"
  shows "pm_laws \<lparr>pm_create = (\<lambda>t w. case pm_create A t (fst w) of (err, h, a) \<Rightarrow> (err, h, a, snd w)),
    pm_delete = (\<lambda>h. on_fst (pm_delete A h)), pm_acquire = (\<lambda>h. on_fst (pm_acquire A h)),
    pm_release = (\<lambda>h. on_fst (pm_release A h))\<rparr> (\<lambda>w. cnt (fst w))"
  unfolding pm_laws_def
proof (intro conjI allI impI, goal_cases)
  case (1 t w)
  obtain err h a where "pm_create A t (fst w) = (err, h, a)" by (cases rule: prod_cases3)
  from pm_lawsD(1)[OF assms this] this show ?case by simp
next
  case (2 h w n)
  obtain err a where "pm_acquire A h (fst w) = (err, a)" by fastforce
  from pm_lawsD(2)[OF assms 2 this] this show ?case by (simp add: on_fst_def)
next
  case (3 h w n)
  obtain err a where "pm_release A h (fst w) = (err, a)" by fastforce
  from pm_lawsD(3)[OF assms 3 this] this show ?case by (simp add: on_fst_def)
next
  case (4 h w)
  obtain err a where "pm_delete A h (fst w) = (err, a)" by fastforce
  from pm_lawsD(4)[OF assms 4 this] this show ?case by (simp add: on_fst_def)
qed

lemma host_services_laws: "service_laws host_services (\<lambda>w. slot_at (snd w)) (\<lambda>w. count_at (fst w))"
proof -
  have "pm_laws (sv_pm host_services) (\<lambda>w. count_at (fst w))"
    using pm_laws_lift[OF list_api_laws] by (simp add: host_services_def)
  then show ?thesis
    by (auto simp: service_laws_def host_services_def keeps_def on_fst_def slot_at_append slot_at_update split: prod.splits)
qed

interpretation host: platform "host_platform n" mock_queue n "\<lambda>w. slot_at (snd w)" "\<lambda>w. count_at (fst w)" for n
proof -
  have "kernel (rt (host_platform n)) mock_queue n" by (simp add: host_platform_def mockk.kernel_axioms)
  moreover have "service_laws (sv (host_platform n)) (\<lambda>w. slot_at (snd w)) (\<lambda>w. count_at (fst w))"
    by (simp add: host_platform_def host_services_laws)
  ultimately show "platform (host_platform n) mock_queue n (\<lambda>w. slot_at (snd w)) (\<lambda>w. count_at (fst w))"
    by (simp add: platform_def platform_axioms_def)
qed

section \<open>Schedules\<close>

text \<open>The steps as events, so that a schedule can be executed; \<^const>\<open>None\<close> when a step is not possible.\<close>

datatype sys_event = Construct nat | StartTask nat ml_task_config | Operation nat task_op | Claim nat | Finish nat
  | Destroy nat | Take | StepCompletes | Stopped | Leave | LeaveCut | LeaveGive | OpCut nat task_op | PushCut nat task_op

fun sys_exec :: "('k, 'w) platform \<Rightarrow> ('k \<Rightarrow> app_command list) \<Rightarrow> ('w \<Rightarrow> nat \<Rightarrow> bool option) \<Rightarrow> hazard list \<Rightarrow>
    sys_event \<Rightarrow> ('k, 'w) task_system \<Rightarrow> ('k, 'w) task_system option" where
  "sys_exec P contents sem hz (Construct a) s =
     (if tasks s a = None then Some (s\<lparr>tasks := (tasks s)(a \<mapsto> ml_task_new), missed := (missed s)(a := 0)\<rparr>) else None)"
| "sys_exec P contents sem hz (StartTask a config) s = do {
     t \<leftarrow> tasks s a;
     if joining s a = None then
       (case start_internal (loop_task_api P a) config t (env s) of (err, t', e') \<Rightarrow>
         Some (put a t' e' (if mt_running t then missed s a else 0) s))
     else None }"
| "sys_exec P contents sem hz (Operation a op) s = do {
     t \<leftarrow> tasks s a;
     (case run_op (loop_task_api P a) op (t, env s, missed s a) of (t', e', f') \<Rightarrow>
       if (op = TimerOp \<longrightarrow> mt_timer t \<noteq> 0) \<and> int f' < 2 ^ 31 then Some (put a t' e' f' s) else None) }"
| "sys_exec P contents sem hz (Claim a) s = do {
     t \<leftarrow> tasks s a;
     (case reset_claim (loop_task_api P a) t (env s) of (w, t', e') \<Rightarrow> do {
        waits \<leftarrow> w; Some ((put a t' e' (missed s a) s)\<lparr>joining := (joining s)(a \<mapsto> waits)\<rparr>) }) }"
| "sys_exec P contents sem hz (Finish a) s = do {
     t \<leftarrow> tasks s a; waits \<leftarrow> joining s a;
     if \<not> waits \<or> sem (world s) (mt_join t) = Some True \<or> timed_out P contents (set hz) s a then
       (case reset_release (loop_task_api P a) t (env s) of (t', e') \<Rightarrow>
         Some ((put a t' e' (missed s a) s)\<lparr>joining := (joining s)(a := None)\<rparr>))
     else None }"
| "sys_exec P contents sem hz (Destroy a) s = do {
     t \<leftarrow> tasks s a;
     if \<not> mt_running t \<and> joining s a = None then Some (s\<lparr>tasks := (tasks s)(a := None)\<rparr>) else None }"
| "sys_exec P contents sem hz Take s = (if executing s = None then loop_turn P s else None)"
| "sys_exec P contents sem hz StepCompletes s =
     (case executing s of Some (a, InStep v) \<Rightarrow> loop_turn P s | _ \<Rightarrow> None)"
| "sys_exec P contents sem hz Stopped s = (case executing s of Some (a, InStop v) \<Rightarrow> loop_turn P s | _ \<Rightarrow> None)"
| "sys_exec P contents sem hz Leave s = (case executing s of Some (a, Leaving) \<Rightarrow> loop_turn P s | _ \<Rightarrow> None)"
| "sys_exec P contents sem hz LeaveCut s =
     (case executing s of
        Some (a, Leaving) \<Rightarrow> do {
          t \<leftarrow> tasks s a;
          (case exit_count t of (pc, t') \<Rightarrow>
            if CutExit \<in> set hz then Some ((put a t' (env s) (missed s a) s)\<lparr>executing := map_option (Pair a) pc\<rparr>) else None) }
      | _ \<Rightarrow> None)"
| "sys_exec P contents sem hz LeaveGive s = (case executing s of Some (a, Exiting) \<Rightarrow> loop_turn P s | _ \<Rightarrow> None)"
| "sys_exec P contents sem hz (OpCut a op) s = do {
     t \<leftarrow> tasks s a;
     (case op_check op t of (go, t') \<Rightarrow>
       if CutPush \<in> set hz \<and> checked s = None \<and> (op = TimerOp \<longrightarrow> mt_timer t \<noteq> 0) \<and> go
       then Some ((put a t' (env s) (missed s a) s)\<lparr>checked := Some (a, op)\<rparr>) else None) }"
| "sys_exec P contents sem hz (PushCut a op) s = do {
     t \<leftarrow> tasks s a;
     (case count_failed (missed s a) (op_push (loop_task_api P a) op t (env s)) of (t', e', f') \<Rightarrow>
       if CutPush \<in> set hz \<and> checked s = Some (a, op) \<and> int f' < 2 ^ 31
       then Some ((put a t' e' f' s)\<lparr>checked := None\<rparr>) else None) }"

definition sys_run :: "('k, 'w) platform \<Rightarrow> ('k \<Rightarrow> app_command list) \<Rightarrow> ('w \<Rightarrow> nat \<Rightarrow> bool option) \<Rightarrow> hazard list \<Rightarrow>
    sys_event list \<Rightarrow> ('k, 'w) task_system \<Rightarrow> ('k, 'w) task_system option" where
  "sys_run P contents sem hz evs s = fold (\<lambda>ev r. Option.bind r (sys_exec P contents sem hz ev)) evs (Some s)"

definition host_start :: "(mock_loop, host_world) task_system" where
  "host_start = \<lparr>tasks = (\<lambda>a. None), sys_loop = main_loop_new \<lparr>cmd_arg = 0, cmd_execute = 0\<rparr> 0 mock_new, world = ([], []),
     missed = (\<lambda>a. 0), joining = (\<lambda>a. None), executing = None, checked = None\<rparr>"

abbreviation "host_run n hz evs \<equiv> sys_run (host_platform n) mock_queue (\<lambda>w. slot_at (snd w)) hz evs host_start"
abbreviation "quiet \<equiv> \<lparr>prevent_light_sleep = True, lock_apb_freq = False\<rparr>"

lemma sys_exec_step:
  assumes "sys_exec P contents sem hz ev s = Some s'"
  shows "sys_step P contents sem (set hz) s s'"
proof (cases ev)
  case (StartTask a config)
  with assms show ?thesis
    by (cases "tasks s a") (auto split: prod.splits if_splits dest: sys_step.start)
next
  case (Operation a op)
  moreover have "int x < 2 ^ 31 \<longleftrightarrow> x < 2 ^ 31" for x by (metis of_nat_less_iff of_nat_numeral of_nat_power)
  ultimately show ?thesis using assms
    by (cases "tasks s a") (auto intro: sys_step.operation split: prod.splits if_splits)
next
  case (Claim a)
  with assms show ?thesis
    by (cases "tasks s a") (auto simp: bind_eq_Some_conv intro: sys_step.claim split: prod.splits)
next
  case (Finish a)
  with assms show ?thesis
    by (cases "tasks s a"; cases "joining s a") (auto intro: sys_step.finish split: prod.splits if_splits)
next
  case LeaveCut
  with assms obtain a where x: "executing s = Some (a, Leaving)" by (auto split: option.splits step_pc.splits)
  with assms LeaveCut show ?thesis
    by (cases "tasks s a") (auto intro: sys_step.leave_cut split: prod.splits if_splits)
next
  case (OpCut a op)
  with assms show ?thesis
    by (cases "tasks s a") (auto intro: sys_step.op_cut split: prod.splits if_splits)
next
  case (PushCut a op)
  moreover have "int x < 2 ^ 31 \<longleftrightarrow> x < 2 ^ 31" for x by (metis of_nat_less_iff of_nat_numeral of_nat_power)
  ultimately show ?thesis using assms
    by (cases "tasks s a") (auto intro: sys_step.push_cut split: prod.splits if_splits)
qed (use assms in \<open>auto simp: bind_eq_Some_conv intro: sys_step.construct sys_step.destroy loop_turn_step
    split: if_splits option.splits step_pc.splits\<close>)

lemma sys_run_reach: "sys_run P contents sem hz evs s = Some s' \<Longrightarrow> sys_reach P contents sem (set hz) s s'"
proof (induction evs arbitrary: s' rule: rev_induct)
  case Nil
  then show ?case by (simp add: sys_run_def sys_reach.refl)
next
  case (snoc ev evs)
  then obtain s1 where 1: "sys_run P contents sem hz evs s = Some s1" "sys_exec P contents sem hz ev s1 = Some s'"
    by (auto simp: sys_run_def bind_eq_Some_conv)
  show ?case by (rule sys_reach.step[OF snoc.IH[OF 1(1)] sys_exec_step[OF 1(2)]])
qed

text \<open>A notification between the last decrement and its test, a reset there, and a reset that times out.\<close>

definition race_schedule :: "sys_event list" where
  "race_schedule = [Construct 1, StartTask 1 quiet, Take, StepCompletes, Stopped, LeaveCut, Operation 1 (NotifyOp True),
     Claim 1, LeaveGive, Finish 1, Destroy 1]"

definition late_schedule :: "sys_event list" where
  "late_schedule = [Construct 1, StartTask 1 quiet, Take, StepCompletes, Stopped, LeaveCut, Claim 1, Finish 1, Destroy 1]"

definition slow_schedule :: "sys_event list" where
  "slow_schedule = [Construct 1, StartTask 1 quiet, Claim 1, Finish 1, Destroy 1]"

text \<open>A \<open>reset\<close> between the check of a notification and its push: it sees nothing in flight and does not wait.\<close>

definition push_schedule :: "sys_event list" where
  "push_schedule = [Construct 1, StartTask 1 quiet, Take, StepCompletes, Stopped, Leave, OpCut 1 (NotifyOp True), Claim 1,
     PushCut 1 (NotifyOp True), Finish 1, Destroy 1]"

lemma schedules_run:
  "map_option (\<lambda>s. (tasks s 1, mock_queue (krn (sys_loop s)), executing s)) (host_run 2 [CutExit] race_schedule) =
    Some (None, [step_command (host_platform 2) 1], None)"
  "map_option (\<lambda>s. (tasks s 1, mock_queue (krn (sys_loop s)), executing s)) (host_run 2 [CutExit] late_schedule) =
    Some (None, [], Some (1, Exiting))"
  "map_option (\<lambda>s. (tasks s 1, mock_queue (krn (sys_loop s)), executing s)) (host_run 2 [SlowLoop] slow_schedule) =
    Some (None, [step_command (host_platform 2) 1], None)"
  "map_option (\<lambda>s. (tasks s 1, mock_queue (krn (sys_loop s)), executing s)) (host_run 2 [CutPush] push_schedule) =
    Some (None, [step_command (host_platform 2) 1], None)"
  by code_simp+

section \<open>Properties\<close>



text \<open>C28: Power management: in every state of the runs of C27 (no reset times out with steps pending, no switch
  inside the final decrement, nothing between a request's check and its push) the locks of a task are held, in the
  wrapper and in the driver, only while its step is executed, so between steps, also during a delay, the device can
  sleep; a task that is not active owns no lock and no semaphore at all.\<close>

theorem locks_only_in_steps:
  assumes "kernel (rt P) contents capacity" "service_laws (sv P) sem cnt" "capacity + 1 < 2 ^ 31"
    and "sys_init contents s0" "sys_reach P contents sem {} s0 s" "tasks s a = Some t"
  shows "(\<not> in_user_code s a \<longrightarrow> (\<forall>lk\<in>{mt_sleep t, mt_apb t}. \<not> acquired lk \<and>
      (is_enabled lk \<longrightarrow> cnt (world s) (handle lk) = Some 0))) \<and>
    (\<not> mt_running t \<and> joining s a = None \<longrightarrow> own_locks t = {} \<and> own_sem t = {})"
proof -
  have p: "platform P contents capacity sem cnt" by (simp add: platform_def platform_axioms_def assms(1,2))
  have inv: "sys_inv P contents capacity sem cnt s" by (rule platform.sys_reach_inv[OF p assms(5,4,3)])
  note ok = platform.invD(1)[OF p inv assms(6)] and own = platform.invD(2)[OF p inv assms(6)]
  have "\<not> acquired (mt_sleep t) \<and> \<not> acquired (mt_apb t)" if "\<not> in_user_code s a"
    using ok that unfolding task_ok_def by blast
  moreover have "mt_join t = 0 \<and> handle (mt_sleep t) = 0 \<and> handle (mt_apb t) = 0" if "\<not> mt_running t" "joining s a = None"
    using ok that unfolding task_ok_def by blast
  ultimately show ?thesis using own by (auto simp: owned_def pm_rel_def is_enabled_def own_locks_def own_sem_def)
qed

theorem locks_only_in_steps_witness:
  "\<exists>(s :: (mock_loop, host_world) task_system) t. tasks s 1 = Some t \<and> is_enabled (mt_sleep t) \<and> \<not> in_user_code s 1 \<and>
     count_at (fst (world s)) (handle (mt_sleep t)) = Some 0"
proof -
  define evs where "evs = [Construct 1, StartTask 1 quiet, Take, StepCompletes, Stopped]"
  have "map_option (\<lambda>s. (map_option (\<lambda>t. is_enabled (mt_sleep t)) (tasks s 1), in_user_code s 1)) (host_run 2 [] evs) =
    Some (Some True, False)" unfolding evs_def by code_simp
  then obtain s t where s: "host_run 2 [] evs = Some s" "tasks s 1 = Some t" "is_enabled (mt_sleep t)" "\<not> in_user_code s 1" by auto
  have r: "sys_reach (host_platform 2) mock_queue (\<lambda>w. slot_at (snd w)) {} host_start s"
    using sys_run_reach[OF s(1)] by simp
  have i: "sys_init mock_queue host_start" by (simp add: sys_init_def host_start_def main_loop_new_def mock_new_def)
  have "count_at (fst (world s)) (handle (mt_sleep t)) = Some 0"
    using locks_only_in_steps[OF host.kernel_axioms[of 2] host.services _ i r s(2)] s(3,4) by simp
  with s(2-4) show ?thesis by blast
qed



text \<open>Each hazard alone breaks it. A notification between the decrement to zero and the
  test of \<open>terminate_requested_\<close> makes the test give the semaphore of a reset that has begun in between,
  although the notified step is still queued, and the loop then executes a step of a destroyed object;
  a reset at that point does not wait at all and the test itself reads the destroyed object; a
  reset whose wait times out leaves its steps in the queue; and a reset between the check of a notification and
  its push does not wait for the step that is pushed afterwards.\<close>

theorem final_decrement_races:
  "(\<exists>s. sys_reach (host_platform 2) mock_queue (\<lambda>w. slot_at (snd w)) {CutExit} host_start s \<and>
      tasks s 1 = None \<and> mock_queue (krn (sys_loop s)) = [step_command (host_platform 2) 1]) \<and>
   (\<exists>s. sys_reach (host_platform 2) mock_queue (\<lambda>w. slot_at (snd w)) {CutExit} host_start s \<and>
      tasks s 1 = None \<and> executing s = Some (1, Exiting)) \<and>
   (\<exists>s. sys_reach (host_platform 2) mock_queue (\<lambda>w. slot_at (snd w)) {SlowLoop} host_start s \<and>
      tasks s 1 = None \<and> mock_queue (krn (sys_loop s)) = [step_command (host_platform 2) 1]) \<and>
   (\<exists>s. sys_reach (host_platform 2) mock_queue (\<lambda>w. slot_at (snd w)) {CutPush} host_start s \<and>
      tasks s 1 = None \<and> mock_queue (krn (sys_loop s)) = [step_command (host_platform 2) 1])"
proof -
  obtain s1 where 1: "host_run 2 [CutExit] race_schedule = Some s1" "tasks s1 1 = None"
      "mock_queue (krn (sys_loop s1)) = [step_command (host_platform 2) 1]" using schedules_run(1) by auto
  obtain s2 where 2: "host_run 2 [CutExit] late_schedule = Some s2" "tasks s2 1 = None"
      "executing s2 = Some (1, Exiting)" using schedules_run(2) by auto
  obtain s3 where 3: "host_run 2 [SlowLoop] slow_schedule = Some s3" "tasks s3 1 = None"
      "mock_queue (krn (sys_loop s3)) = [step_command (host_platform 2) 1]" using schedules_run(3) by auto
  obtain s4 where 4: "host_run 2 [CutPush] push_schedule = Some s4" "tasks s4 1 = None"
      "mock_queue (krn (sys_loop s4)) = [step_command (host_platform 2) 1]" using schedules_run(4) by auto
  note reach = sys_run_reach[OF 1(1), simplified] sys_run_reach[OF 2(1), simplified]
    sys_run_reach[OF 3(1), simplified] sys_run_reach[OF 4(1), simplified]
  show ?thesis using reach 1(2,3) 2(2,3) 3(2,3) 4(2,3) by blast
qed

end
