(* ===== verification/Esp_Task.thy ===== *)
theory Esp_Task
  imports Pm_Lock
begin

text \<open>
  \<open>EspTaskBase\<close> and \<open>EspTask\<close> (\<open>esp_task.hpp\<close>, \<open>esp_task.cpp\<close>): a FreeRTOS thread with its two semaphores and
  its power-management locks. The kernel is reached through the parameter \<open>api\<close> over a state of any type
  \<open>'e\<close>; a handle is a number, 0 the null pointer and 1 the flag that the code stores while it starts a
  thread. \<open>start_internal\<close> is cut between the creation of the thread and the store of its handle: what
  the new thread and the others do there is the argument \<open>meanwhile\<close>.
\<close>

record 'e thread_api =
  tpm :: "'e pm_api"
  create_thread :: "'e \<Rightarrow> bool \<times> nat \<times> 'e"
  delete_thread :: "nat \<Rightarrow> 'e \<Rightarrow> 'e"
  binary_create :: "'e \<Rightarrow> nat \<times> 'e"
  binary_give :: "nat \<Rightarrow> 'e \<Rightarrow> 'e"
  binary_take :: "nat \<Rightarrow> 'e \<Rightarrow> bool \<times> 'e"
  binary_reset :: "nat \<Rightarrow> 'e \<Rightarrow> 'e"
  binary_delete :: "nat \<Rightarrow> 'e \<Rightarrow> 'e"
  hw_timer_create :: "'e \<Rightarrow> esp_err \<times> nat \<times> 'e"
  hw_timer_stop :: "nat \<Rightarrow> 'e \<Rightarrow> 'e"
  hw_timer_delete :: "nat \<Rightarrow> 'e \<Rightarrow> 'e"

record esp_task =
  task_handle :: nat
  sync_sem :: nat
  join_sem :: nat
  et_stop :: bool
  et_terminate :: bool
  et_sleep :: pm_lock
  et_apb :: pm_lock

record task_config =
  cfg_prevent_light_sleep :: bool
  cfg_lock_apb_freq :: bool
  notify_if_started :: bool
  use_hardware_wakeups :: bool

definition esp_task_new :: esp_task where
  "esp_task_new = \<lparr>task_handle = 0, sync_sem = 0, join_sem = 0, et_stop = False, et_terminate = False,
     et_sleep = pm_lock_new NoLightSleep, et_apb = pm_lock_new ApbFreqMax\<rparr>"

definition give_sync :: "'e thread_api \<Rightarrow> 'm esp_task_scheme \<Rightarrow> 'e \<Rightarrow> 'e" where
  "give_sync api t e = (if sync_sem t \<noteq> 0 then binary_give api (sync_sem t) e else e)"

text \<open>Asking the thread to end: it is joined by its semaphore, or deleted when it does not give it in time.\<close>

definition join_thread :: "'e thread_api \<Rightarrow> 'm esp_task_scheme \<Rightarrow> 'e \<Rightarrow> 'm esp_task_scheme \<times> 'e" where
  "join_thread api t e =
     (if task_handle t \<noteq> 0 then
        let t = t\<lparr>et_terminate := True\<rparr>;
            e = give_sync api t e;
            e = (if join_sem t \<noteq> 0 then
                   (let (taken, e) = binary_take api (join_sem t) e
                    in if taken then e else delete_thread api (task_handle t) e)
                 else e)
        in (t\<lparr>task_handle := 0\<rparr>, e)
      else (t, e))"

definition drop_resources :: "'e thread_api \<Rightarrow> 'm esp_task_scheme \<Rightarrow> 'e \<Rightarrow> 'm esp_task_scheme \<times> 'e" where
  "drop_resources api t e =
     (let (t, e) = (if sync_sem t \<noteq> 0 then (t\<lparr>sync_sem := 0\<rparr>, binary_delete api (sync_sem t) e) else (t, e));
          (t, e) = (if join_sem t \<noteq> 0 then (t\<lparr>join_sem := 0\<rparr>, binary_delete api (join_sem t) e) else (t, e));
          (_, apb, e) = enable (tpm api) False (et_apb t) e;
          (_, sleep, e) = enable (tpm api) False (et_sleep t) e
      in (t\<lparr>et_apb := apb, et_sleep := sleep\<rparr>, e))"

definition thread_reset :: "'e thread_api \<Rightarrow> 'm esp_task_scheme \<Rightarrow> 'e \<Rightarrow> 'm esp_task_scheme \<times> 'e" where
  "thread_reset api t e = (let (t, e) = join_thread api t e in drop_resources api t e)"

definition thread_notify :: "'e thread_api \<Rightarrow> bool \<Rightarrow> 'm esp_task_scheme \<Rightarrow> 'e \<Rightarrow> 'm esp_task_scheme \<times> 'e" where
  "thread_notify api clear_stop t e =
     (let t = (if clear_stop then t\<lparr>et_stop := False\<rparr> else t) in (t, give_sync api t e))"

definition request_thread_stop :: "'e thread_api \<Rightarrow> 'm esp_task_scheme \<Rightarrow> 'e \<Rightarrow> 'm esp_task_scheme \<times> 'e" where
  "request_thread_stop api t e = thread_notify api False (t\<lparr>et_stop := True\<rparr>) e"

definition wait_for_notification :: "'e thread_api \<Rightarrow> 'm esp_task_scheme \<Rightarrow> 'e \<Rightarrow> bool \<times> 'e" where
  "wait_for_notification api t e = binary_take api (sync_sem t) e"

text \<open>What \<open>log_high_watermark\<close> logs: the name and the bytes of stack that were never used; \<open>stack_type\<close> is
  \<open>sizeof(StackType_t)\<close>.\<close>

definition log_high_watermark :: "nat \<Rightarrow> bytes \<Rightarrow> nat \<Rightarrow> 'm esp_task_scheme \<Rightarrow> (bytes \<times> nat) list" where
  "log_high_watermark stack_type task_name high_watermark t =
     (if task_handle t \<noteq> 0 then [(task_name, high_watermark * stack_type)] else [])"

definition acquire_pm_locks :: "'e thread_api \<Rightarrow> 'm esp_task_scheme \<Rightarrow> 'e \<Rightarrow> 'm esp_task_scheme \<times> 'e" where
  "acquire_pm_locks api t e =
     (let (_, sleep, e) = acquire_if_enabled (tpm api) (et_sleep t) e;
          (_, apb, e) = acquire_if_enabled (tpm api) (et_apb t) e
      in (t\<lparr>et_sleep := sleep, et_apb := apb\<rparr>, e))"

definition release_pm_locks :: "'e thread_api \<Rightarrow> 'm esp_task_scheme \<Rightarrow> 'e \<Rightarrow> 'm esp_task_scheme \<times> 'e" where
  "release_pm_locks api t e =
     (let (_, apb, e) = release (tpm api) (et_apb t) e;
          (_, sleep, e) = release (tpm api) (et_sleep t) e
      in (t\<lparr>et_apb := apb, et_sleep := sleep\<rparr>, e))"

text \<open>The thread's own end: \<open>vTaskDelete(nullptr)\<close> deletes the calling thread \<open>self\<close>.\<close>

definition terminate_from_task :: "'e thread_api \<Rightarrow> nat \<Rightarrow> 'm esp_task_scheme \<Rightarrow> 'e \<Rightarrow> 'm esp_task_scheme \<times> 'e" where
  "terminate_from_task api self t e =
     (let (t, e) = release_pm_locks api t e;
          e = (if join_sem t \<noteq> 0 then binary_give api (join_sem t) e else e)
      in (t\<lparr>task_handle := 0\<rparr>, delete_thread api self e))"

text \<open>The timer is a member of the derived class; the first argument is its handle.\<close>

definition configure_hardware_timer :: "'e thread_api \<Rightarrow> nat \<Rightarrow> bool \<Rightarrow> 'e \<Rightarrow> esp_err \<times> nat \<times> 'e" where
  "configure_hardware_timer api timer en e =
     (if \<not> en then
        (if timer \<noteq> 0 then (ESP_OK, 0, hw_timer_delete api timer (hw_timer_stop api timer e)) else (ESP_OK, timer, e))
      else if timer \<noteq> 0 then (ESP_OK, timer, e)
      else case hw_timer_create api e of (err, h, e) \<Rightarrow> (err, if err = ESP_OK then h else timer, e))"

section \<open>Starting a thread\<close>

definition provide_sem :: "'e thread_api \<Rightarrow> nat \<Rightarrow> 'e \<Rightarrow> nat \<times> 'e" where
  "provide_sem api sem e = (if sem = 0 then binary_create api e else (sem, binary_reset api sem e))"

text \<open>\<open>claimed\<close> and \<open>rst\<close> are the virtual functions \<open>on_task_claimed\<close> and \<open>reset\<close> of the task's class.
  \<^const>\<open>None\<close>: the call spins, because another one is starting the thread.\<close>

definition start_thread :: "'e thread_api \<Rightarrow> ('m esp_task_scheme \<Rightarrow> 'e \<Rightarrow> esp_err \<times> 'm esp_task_scheme \<times> 'e) \<Rightarrow>
    ('m esp_task_scheme \<Rightarrow> 'e \<Rightarrow> 'm esp_task_scheme \<times> 'e) \<Rightarrow>
    (nat \<Rightarrow> 'm esp_task_scheme \<times> 'e \<Rightarrow> 'm esp_task_scheme \<times> 'e) \<Rightarrow>
    task_config \<Rightarrow> 'm esp_task_scheme \<Rightarrow> 'e \<Rightarrow> (esp_err \<times> 'm esp_task_scheme \<times> 'e) option" where
  "start_thread api claimed rst meanwhile config t e =
     (if task_handle t \<noteq> 0 then
        (if notify_if_started config then
           (if task_handle t = 1 then None
            else let (t, e) = thread_notify api True t e in Some (ESP_OK, t, e))
         else Some (ESP_ERR_INVALID_STATE, t, e))
      else
        let t = t\<lparr>task_handle := 1, et_stop := False, et_terminate := False\<rparr>;
            (err, t, e) = claimed t e
        in if err \<noteq> ESP_OK then Some (err, t\<lparr>task_handle := 0\<rparr>, e)
        else
          let (_, sleep, e) = enable (tpm api) (cfg_prevent_light_sleep config) (et_sleep t) e;
              (_, apb, e) = enable (tpm api) (cfg_lock_apb_freq config) (et_apb t) e;
              (sync, e) = provide_sem api (sync_sem t) e;
              (join, e) = provide_sem api (join_sem t) e;
              t = t\<lparr>et_sleep := sleep, et_apb := apb, sync_sem := sync, join_sem := join\<rparr>
          in if sync_sem t = 0 \<or> join_sem t = 0
             then (let (t, e) = rst (t\<lparr>task_handle := 0\<rparr>) e in Some (ESP_ERR_NO_MEM, t, e))
          else let (created, new_handle, e) = create_thread api e
          in if \<not> created
             then (let (t, e) = rst (t\<lparr>task_handle := 0\<rparr>) e in Some (ESP_ERR_NO_MEM, t, e))
             else let (t, e) = meanwhile new_handle (t, e) in Some (ESP_OK, t\<lparr>task_handle := new_handle\<rparr>, e))"

definition running :: "'m esp_task_scheme \<Rightarrow> bool" where
  "running t = (task_handle t \<noteq> 0)"

definition is_stop_requested :: "'m esp_task_scheme \<Rightarrow> bool" where
  "is_stop_requested t = et_stop t"

section \<open>Tasks with a function\<close>

text \<open>
  \<open>EspTask<TaskData>\<close>, derived from \<open>EspTaskBase\<close>: the pointer to the data and the user's function (\<open>'f\<close>,
  \<^const>\<open>None\<close> a null pointer), which \<open>call\<close> executes. Its \<open>on_task_claimed\<close> and \<open>reset\<close> are those of the base.
\<close>

record ('d, 'f) user_task = esp_task +
  ut_data :: "'d option"
  ut_func :: "'f option"

definition user_start :: "'e thread_api \<Rightarrow> (nat \<Rightarrow> ('d, 'f) user_task \<times> 'e \<Rightarrow> ('d, 'f) user_task \<times> 'e) \<Rightarrow>
    task_config \<Rightarrow> 'd option \<Rightarrow> 'f option \<Rightarrow> ('d, 'f) user_task \<Rightarrow> 'e \<Rightarrow> (esp_err \<times> ('d, 'f) user_task \<times> 'e) option" where
  "user_start api meanwhile config data func t e =
     start_thread api (\<lambda>t e. (ESP_OK, t, e)) (thread_reset api) meanwhile config (t\<lparr>ut_data := data, ut_func := func\<rparr>) e"

text \<open>The thread; \<^const>\<open>None\<close>: the call of a null pointer.\<close>

definition task_trampoline :: "'e thread_api \<Rightarrow> ('f \<Rightarrow> ('d, 'f) user_task \<times> 'e \<Rightarrow> ('d, 'f) user_task \<times> 'e) \<Rightarrow> nat \<Rightarrow>
    ('d, 'f) user_task \<Rightarrow> 'e \<Rightarrow> (('d, 'f) user_task \<times> 'e) option" where
  "task_trampoline api call self t e =
     (let (t, e) = acquire_pm_locks api t e
      in case ut_func t of
           None \<Rightarrow> None
         | Some f \<Rightarrow>
             let (t, e) = call f (t, e); (t, e) = release_pm_locks api t e
             in Some (terminate_from_task api self t e))"

section \<open>The kernel's objects\<close>

text \<open>
  What exists in the kernel: semaphores, timers (with whether they are armed), threads, and the power-management
  locks with their counts. The locale says what creating and deleting does to it: a new object gets a handle that is
  not in use, a failure changes nothing, and a timer can be deleted when it is not armed.
\<close>

record kernel_view =
  kv_sems :: "nat set"
  kv_timers :: "nat \<Rightarrow> bool option"
  kv_threads :: "nat set"
  kv_locks :: "nat \<Rightarrow> nat option"

text \<open>All but the locks.\<close>

definition but_locks :: "kernel_view \<Rightarrow> nat set \<times> (nat \<Rightarrow> bool option) \<times> nat set" where
  "but_locks v = (kv_sems v, kv_timers v, kv_threads v)"

text \<open>A timer, two locks and two semaphores that exist and are different, and the rest of the kernel's objects.\<close>

definition holds :: "('e \<Rightarrow> kernel_view) \<Rightarrow> kernel_view \<Rightarrow> nat \<Rightarrow> pm_lock \<Rightarrow> pm_lock \<Rightarrow> nat \<Rightarrow> nat \<Rightarrow> 'e \<Rightarrow> bool" where
  "holds view R timer sleep apb sync join e \<longleftrightarrow>
     (timer \<noteq> 0 \<longrightarrow> kv_timers (view e) timer \<noteq> None) \<and>
     (sync \<noteq> 0 \<longrightarrow> sync \<in> kv_sems (view e)) \<and> (join \<noteq> 0 \<longrightarrow> join \<in> kv_sems (view e)) \<and> (sync = join \<longrightarrow> sync = 0) \<and>
     pm_rel (\<lambda>e. kv_locks (view e)) sleep e \<and> pm_rel (\<lambda>e. kv_locks (view e)) apb e \<and>
     (handle sleep = handle apb \<longrightarrow> handle sleep = 0) \<and>
     R = \<lparr>kv_sems = kv_sems (view e) - ({sync, join} - {0}), kv_timers = kv_timers (view e) |` (- ({timer} - {0})),
          kv_threads = kv_threads (view e), kv_locks = kv_locks (view e) |` (- ({handle sleep, handle apb} - {0}))\<rparr>"

lemma holds_view: "view e' = view e \<Longrightarrow> holds view R timer sleep apb sync join e' = holds view R timer sleep apb sync join e"
  by (simp add: holds_def pm_rel_def)

locale thread_kernel =
  fixes api :: "'e thread_api" and view :: "'e \<Rightarrow> kernel_view"
  assumes locks: "pm_laws (tpm api) (\<lambda>e. kv_locks (view e))"
    and lock_create: "pm_create (tpm api) k e = (err, h, e') \<Longrightarrow> but_locks (view e') = but_locks (view e)"
    and lock_delete: "pm_delete (tpm api) h e = (err, e') \<Longrightarrow> but_locks (view e') = but_locks (view e)"
    and lock_release: "pm_release (tpm api) h e = (err, e') \<Longrightarrow> but_locks (view e') = but_locks (view e)"
    and sem_create: "binary_create api e = (h, e') \<Longrightarrow>
      if h = 0 then view e' = view e
      else h \<notin> kv_sems (view e) \<and> view e' = (view e)\<lparr>kv_sems := insert h (kv_sems (view e))\<rparr>"
    and sem_reset: "view (binary_reset api h e) = view e"
    and sem_delete: "h \<in> kv_sems (view e) \<Longrightarrow>
      view (binary_delete api h e) = (view e)\<lparr>kv_sems := kv_sems (view e) - {h}\<rparr>"
    and timer_create: "hw_timer_create api e = (err, h, e') \<Longrightarrow>
      if err = ESP_OK then h \<noteq> 0 \<and> kv_timers (view e) h = None \<and>
        view e' = (view e)\<lparr>kv_timers := (kv_timers (view e))(h \<mapsto> False)\<rparr>
      else view e' = view e"
    and timer_stop: "kv_timers (view e) h \<noteq> None \<Longrightarrow>
      view (hw_timer_stop api h e) = (view e)\<lparr>kv_timers := (kv_timers (view e))(h \<mapsto> False)\<rparr>"
    and timer_delete: "kv_timers (view e) h = Some False \<Longrightarrow>
      view (hw_timer_delete api h e) = (view e)\<lparr>kv_timers := (kv_timers (view e))(h := None)\<rparr>"
    and thread_create: "create_thread api e = (created, h, e') \<Longrightarrow>
      if created then h \<notin> {0, 1} \<and> h \<notin> kv_threads (view e) \<and>
        view e' = (view e)\<lparr>kv_threads := insert h (kv_threads (view e))\<rparr>
      else view e' = view e"
begin

lemma holds_nothing:
  "handle sleep = 0 \<Longrightarrow> handle apb = 0 \<Longrightarrow> holds view R 0 sleep apb 0 0 e \<Longrightarrow> view e = R"
  by (simp add: holds_def restrict_map_def)

lemma enable_view:
  assumes "enable (tpm api) en l e = (err, l', e')"
  shows "but_locks (view e') = but_locks (view e)"
proof -
  define e1 where "e1 = (if acquired l then snd (pm_release (tpm api) (handle l) e) else e)"
  have "but_locks (view e1) = but_locks (view e)"
    using lock_release[of "handle l" e] by (cases "pm_release (tpm api) (handle l) e") (simp add: e1_def)
  moreover have "but_locks (view (snd (pm_delete (tpm api) (handle l) e1))) = but_locks (view e1)"
    using lock_delete[of "handle l" e1] by (cases "pm_delete (tpm api) (handle l) e1") simp
  moreover have "but_locks (view (snd (snd (pm_create (tpm api) k e)))) = but_locks (view e)" for k
    using lock_create[of k e] by (cases "pm_create (tpm api) k e") simp
  moreover have "e' \<in> {e, snd (pm_delete (tpm api) (handle l) e1), snd (snd (pm_create (tpm api) (convert_lock_type (lock_kind l)) e))}"
    using assms by (auto simp: enable_def create_or_delete_def e1_def Let_def split: if_splits prod.splits)
  ultimately show ?thesis by auto
qed

lemma enable_holds:
  assumes r: "enable (tpm api) en l e = (err, l', e')"
  shows "holds view R timer l apb sync join e \<Longrightarrow> holds view R timer l' apb sync join e'"
    and "holds view R timer sleep l sync join e \<Longrightarrow> holds view R timer sleep l' sync join e'"
proof -
  let ?cnt = "\<lambda>e. kv_locks (view e)"
  have rel: "pm_rel ?cnt l' e' \<and> others ?cnt (l', e') = others ?cnt (l, e)" if "pm_rel ?cnt l e"
    using enable_rel[OF locks that, of en] r by simp
  have other: "pm_rel ?cnt m e' \<and> (handle m = handle l' \<longrightarrow> handle m = 0) \<and>
      ?cnt e' |` (- ({handle l', handle m} - {0})) = ?cnt e |` (- ({handle l, handle m} - {0}))"
    if "pm_rel ?cnt l e" "pm_rel ?cnt m e" "handle m = handle l \<longrightarrow> handle m = 0" for m
    by (rule lock_step[OF that(1) _ _ that(2,3)]) (use rel[OF that(1)] in blast)+
  have same: "kv_sems (view e') = kv_sems (view e)" "kv_timers (view e') = kv_timers (view e)"
    "kv_threads (view e') = kv_threads (view e)"
    using enable_view[OF r] by (simp_all add: but_locks_def)
  show "holds view R timer l' apb sync join e'" if h: "holds view R timer l apb sync join e"
  proof -
    have p: "pm_rel ?cnt l e" "pm_rel ?cnt apb e" "handle apb = handle l \<longrightarrow> handle apb = 0"
      using h unfolding holds_def by metis+
    show ?thesis using h rel[OF p(1)] other[OF p] by (simp add: holds_def same) metis
  qed
  show "holds view R timer sleep l' sync join e'" if h: "holds view R timer sleep l sync join e"
  proof -
    have p: "pm_rel ?cnt l e" "pm_rel ?cnt sleep e" "handle sleep = handle l \<longrightarrow> handle sleep = 0"
      using h unfolding holds_def by metis+
    show ?thesis using h rel[OF p(1)] other[OF p] by (simp add: holds_def same insert_commute)
  qed
qed

lemma provide_holds:
  assumes "provide_sem api old e = (h, e')"
  shows "holds view R timer sleep apb old join e \<Longrightarrow> holds view R timer sleep apb h join e'"
    and "holds view R timer sleep apb sync old e \<Longrightarrow> holds view R timer sleep apb sync h e'"
proof -
  consider (new) "old = 0" "h \<noteq> 0" "h \<notin> kv_sems (view e)" "view e' = (view e)\<lparr>kv_sems := insert h (kv_sems (view e))\<rparr>"
    | (same) "h = old" "view e' = view e"
    using assms sem_create[of e h e'] sem_reset by (auto simp: provide_sem_def split: if_splits)
  note cases = this
  show "holds view R timer sleep apb old join e \<Longrightarrow> holds view R timer sleep apb h join e'"
    by (cases rule: cases) (auto simp: holds_def pm_rel_def)
  show "holds view R timer sleep apb sync old e \<Longrightarrow> holds view R timer sleep apb sync h e'"
    by (cases rule: cases) (auto simp: holds_def pm_rel_def)
qed

lemma timer_holds:
  assumes "configure_hardware_timer api timer en e = (err, timer', e')" "holds view R timer sleep apb sync join e"
  shows "holds view R timer' sleep apb sync join e' \<and> (\<not> en \<longrightarrow> timer' = 0) \<and> (timer = 0 \<longrightarrow> err \<noteq> ESP_OK \<longrightarrow> timer' = 0)"
proof -
  consider (delete) "\<not> en" "timer \<noteq> 0" | (create) "en" "timer = 0" | (same) "timer' = timer" "e' = e" "\<not> en \<longrightarrow> timer = 0"
      "err = ESP_OK"
    using assms(1) by (auto simp: configure_hardware_timer_def split: if_splits)
  then show ?thesis
  proof cases
    case delete
    then have "kv_timers (view e) timer \<noteq> None" using assms(2) by (simp add: holds_def)
    from timer_stop[OF this] timer_delete[of "hw_timer_stop api timer e" timer] delete assms show ?thesis
      by (auto simp: configure_hardware_timer_def holds_def pm_rel_def fun_eq_iff restrict_map_def)
  next
    case create
    obtain h e1 where "hw_timer_create api e = (err, h, e1)" "timer' = (if err = ESP_OK then h else 0)" "e' = e1"
      using assms(1) create by (auto simp: configure_hardware_timer_def split: prod.splits)
    with timer_create[of e err h e1] create assms(2) show ?thesis
      by (auto simp: holds_def pm_rel_def fun_eq_iff restrict_map_def split: if_splits)
  qed (use assms in auto)
qed

lemma drop_holds:
  assumes "drop_resources api t e = (t', e')"
    and "holds view R timer (et_sleep t) (et_apb t) (sync_sem t) (join_sem t) e"
  shows "holds view R timer (et_sleep t') (et_apb t') (sync_sem t') (join_sem t') e'"
proof -
  define e1 where "e1 = (if sync_sem t \<noteq> 0 then binary_delete api (sync_sem t) e else e)"
  define e2 where "e2 = (if join_sem t \<noteq> 0 then binary_delete api (join_sem t) e1 else e1)"
  obtain x apb e3 where 3: "enable (tpm api) False (et_apb t) e2 = (x, apb, e3)" by (cases rule: prod_cases3)
  obtain y sleep e4 where 4: "enable (tpm api) False (et_sleep t) e3 = (y, sleep, e4)" by (cases rule: prod_cases3)
  have e1: "holds view R timer (et_sleep t) (et_apb t) 0 (join_sem t) e1"
    using assms(2) sem_delete[of "sync_sem t" e] by (auto simp: e1_def holds_def pm_rel_def)
  then have "holds view R timer (et_sleep t) (et_apb t) 0 0 e2"
    using sem_delete[of "join_sem t" e1] by (auto simp: e2_def holds_def pm_rel_def)
  from enable_holds(2)[OF 3 this] have "holds view R timer (et_sleep t) apb 0 0 e3" .
  from enable_holds(1)[OF 4 this] have "holds view R timer sleep apb 0 0 e4" .
  moreover have "sync_sem t' = 0 \<and> join_sem t' = 0 \<and> et_sleep t' = sleep \<and> et_apb t' = apb \<and> e' = e4"
    using assms(1) 3 4 by (cases "sync_sem t = 0"; cases "join_sem t = 0") (auto simp: drop_resources_def e1_def e2_def Let_def)
  ultimately show ?thesis by simp
qed

end

text \<open>An instance: a kernel that is the view itself, with a supply of handles that ends at a limit.\<close>

record host_kernel =
  hk_next :: nat
  hk_view :: kernel_view

definition fresh_handle :: "nat \<Rightarrow> host_kernel \<Rightarrow> bool" where
  "fresh_handle limit e \<longleftrightarrow> 1 < hk_next e \<and> hk_next e < limit \<and> hk_next e \<notin> kv_sems (hk_view e) \<and>
     hk_next e \<notin> kv_threads (hk_view e) \<and> kv_timers (hk_view e) (hk_next e) = None \<and> kv_locks (hk_view e) (hk_next e) = None"

definition hk_put :: "(kernel_view \<Rightarrow> kernel_view) \<Rightarrow> host_kernel \<Rightarrow> host_kernel" where
  "hk_put f e = e\<lparr>hk_next := hk_next e + 1, hk_view := f (hk_view e)\<rparr>"

definition host_threads :: "nat \<Rightarrow> host_kernel thread_api" where
  "host_threads limit =
     \<lparr>tpm = \<lparr>pm_create = \<lambda>t e. if fresh_handle limit e
          then (ESP_OK, hk_next e, hk_put (\<lambda>v. v\<lparr>kv_locks := (kv_locks v)(hk_next e \<mapsto> 0)\<rparr>) e) else (ESP_ERR_NO_MEM, 0, e),
        pm_delete = \<lambda>h e. if kv_locks (hk_view e) h = Some 0
          then (ESP_OK, hk_put (\<lambda>v. v\<lparr>kv_locks := (kv_locks v)(h := None)\<rparr>) e) else (ESP_ERR_INVALID_STATE, e),
        pm_acquire = \<lambda>h e. case kv_locks (hk_view e) h of None \<Rightarrow> (ESP_ERR_INVALID_STATE, e)
          | Some n \<Rightarrow> (ESP_OK, hk_put (\<lambda>v. v\<lparr>kv_locks := (kv_locks v)(h \<mapsto> n + 1)\<rparr>) e),
        pm_release = \<lambda>h e. case kv_locks (hk_view e) h of
            Some (Suc n) \<Rightarrow> (ESP_OK, hk_put (\<lambda>v. v\<lparr>kv_locks := (kv_locks v)(h \<mapsto> n)\<rparr>) e)
          | _ \<Rightarrow> (ESP_ERR_INVALID_STATE, e)\<rparr>,
      create_thread = \<lambda>e. if fresh_handle limit e
        then (True, hk_next e, hk_put (\<lambda>v. v\<lparr>kv_threads := insert (hk_next e) (kv_threads v)\<rparr>) e) else (False, 0, e),
      delete_thread = \<lambda>h e. hk_put (\<lambda>v. v\<lparr>kv_threads := kv_threads v - {h}\<rparr>) e,
      binary_create = \<lambda>e. if fresh_handle limit e
        then (hk_next e, hk_put (\<lambda>v. v\<lparr>kv_sems := insert (hk_next e) (kv_sems v)\<rparr>) e) else (0, e),
      binary_give = \<lambda>h e. e, binary_take = \<lambda>h e. (True, e), binary_reset = \<lambda>h e. e,
      binary_delete = \<lambda>h e. hk_put (\<lambda>v. v\<lparr>kv_sems := kv_sems v - {h}\<rparr>) e,
      hw_timer_create = \<lambda>e. if fresh_handle limit e
        then (ESP_OK, hk_next e, hk_put (\<lambda>v. v\<lparr>kv_timers := (kv_timers v)(hk_next e \<mapsto> False)\<rparr>) e) else (ESP_ERR_NO_MEM, 0, e),
      hw_timer_stop = \<lambda>h e. hk_put (\<lambda>v. v\<lparr>kv_timers := (kv_timers v)(h \<mapsto> False)\<rparr>) e,
      hw_timer_delete = \<lambda>h e. hk_put (\<lambda>v. v\<lparr>kv_timers := (kv_timers v)(h := None)\<rparr>) e\<rparr>"

interpretation host_kernel: thread_kernel "host_threads limit" hk_view
proof unfold_locales
  show "pm_laws (tpm (host_threads limit)) (\<lambda>e. kv_locks (hk_view e))"
    by (auto simp: pm_laws_def host_threads_def fresh_handle_def hk_put_def split: option.splits nat.splits)
qed (auto simp: host_threads_def fresh_handle_def hk_put_def but_locks_def split: if_splits option.splits nat.splits)

section \<open>Properties\<close>

lemma drop_resources_clears:
  "drop_resources api t e = (t', e') \<Longrightarrow> sync_sem t' = 0 \<and> join_sem t' = 0 \<and> task_handle t' = task_handle t \<and>
    \<not> is_enabled (et_apb t') \<and> \<not> is_enabled (et_sleep t')"
  by (auto simp: drop_resources_def enable_def create_or_delete_def is_enabled_def Let_def split: prod.splits if_splits)

lemma drop_resources_again:
  "sync_sem t = 0 \<Longrightarrow> join_sem t = 0 \<Longrightarrow> \<not> is_enabled (et_apb t) \<Longrightarrow> \<not> is_enabled (et_sleep t) \<Longrightarrow>
    drop_resources api t e = (t, e)"
  by (simp add: drop_resources_def enable_def)

text \<open>\<open>reset\<close> on any state leaves no thread, no semaphore and no lock behind, and a second \<open>reset\<close> (the one of the
  destructor) does nothing at all. A start whose resources cannot be allocated does the same clean-up.\<close>

theorem thread_reset_complete:
  "case thread_reset api t e of (t', e') \<Rightarrow>
     task_handle t' = 0 \<and> sync_sem t' = 0 \<and> join_sem t' = 0 \<and> \<not> is_enabled (et_apb t') \<and> \<not> is_enabled (et_sleep t') \<and>
     thread_reset api t' e' = (t', e')"
proof -
  obtain t1 e1 where 1: "join_thread api t e = (t1, e1)" by fastforce
  obtain t2 e2 where 2: "drop_resources api t1 e1 = (t2, e2)" by fastforce
  have "task_handle t1 = 0" using 1 by (auto simp: join_thread_def Let_def split: if_splits)
  with drop_resources_clears[OF 2] have c: "task_handle t2 = 0" "sync_sem t2 = 0" "join_sem t2 = 0"
    "\<not> is_enabled (et_apb t2)" "\<not> is_enabled (et_sleep t2)" by simp_all
  have "thread_reset api t2 e2 = (t2, e2)"
    using drop_resources_again[OF c(2-5)] c(1) by (simp add: thread_reset_def join_thread_def)
  moreover have "thread_reset api t e = (t2, e2)" by (simp add: thread_reset_def 1 2)
  ultimately show ?thesis using c by simp
qed

text \<open>The ways in which a start fails: the hook fails, or \<open>reset\<close> is called with the handle cleared.\<close>

lemma start_thread_fails:
  assumes "start_thread api claimed rst meanwhile config t e = Some (err, t', e')" "err \<noteq> ESP_OK" "task_handle t = 0"
  obtains (hook) t1 where "claimed (t\<lparr>task_handle := 1, et_stop := False, et_terminate := False\<rparr>) e = (err, t1, e')"
      "t' = t1\<lparr>task_handle := 0\<rparr>"
    | (cleaned) t1 e1 where "err = ESP_ERR_NO_MEM" "task_handle t1 = 0" "rst t1 e1 = (t', e')"
proof -
  obtain r t1 e1 where c: "claimed (t\<lparr>task_handle := 1, et_stop := False, et_terminate := False\<rparr>) e = (r, t1, e1)"
    by (cases rule: prod_cases3)
  show ?thesis
  proof (cases "r = ESP_OK")
    case True
    with assms c have "err = ESP_ERR_NO_MEM \<and> (\<exists>t1 e1. rst t1 e1 = (t', e') \<and> task_handle t1 = 0)"
      by (auto simp: start_thread_def Let_def split_beta split: if_splits; intro exI conjI; (assumption | simp))
    with cleaned show ?thesis by blast
  next
    case False
    with assms c show ?thesis by (auto simp: start_thread_def Let_def intro!: hook)
  qed
qed

text \<open>Nothing is allocated for the task.\<close>

definition bare :: "'m esp_task_scheme \<Rightarrow> bool" where
  "bare t \<longleftrightarrow> task_handle t = 0 \<and> sync_sem t = 0 \<and> join_sem t = 0 \<and> \<not> is_enabled (et_apb t) \<and> \<not> is_enabled (et_sleep t)"

lemma thread_reset_bare: "thread_reset api t e = (t', e') \<Longrightarrow> bare t'"
  using drop_resources_clears[of api "fst (join_thread api t e)" "snd (join_thread api t e)" t' e']
  by (auto simp: thread_reset_def bare_def join_thread_def Let_def split_beta split: if_splits)

text \<open>The end of the thread and the store of its handle: when the thread ends after \<open>start_internal\<close> has stored
  the handle, the task can be started again; when it ends before, the store overwrites the cleared
  handle, and from then on \<open>running()\<close> is true and a start only notifies, although no thread exists.\<close>

theorem start_races_with_exit:
  assumes "\<And>e. fst (create_thread api e) \<and> fst (snd (create_thread api e)) \<notin> {0, 1}" "\<And>t e. \<exists>e'. claimed t e = (ESP_OK, t, e')"
    and "task_handle t = 0" "sync_sem t \<noteq> 0" "join_sem t \<noteq> 0" "notify_if_started config"
  shows "(case start_thread api claimed rst (\<lambda>_ s. s) config t e of None \<Rightarrow> False | Some (err, t', e') \<Rightarrow>
      err = ESP_OK \<and> task_handle t' \<noteq> 0 \<and> task_handle (fst (terminate_from_task api (task_handle t') t' e')) = 0) \<and>
    (case start_thread api claimed rst (\<lambda>self (t, e). terminate_from_task api self t e) config t e of
       None \<Rightarrow> False | Some (err, t', e') \<Rightarrow> err = ESP_OK \<and> task_handle t' \<noteq> 0 \<and>
         start_thread api claimed rst m config t' e' = Some (ESP_OK, t'\<lparr>et_stop := False\<rparr>, give_sync api t' e'))"
proof -
  have notifies: "start_thread api claimed rst m config t' e' = Some (ESP_OK, t'\<lparr>et_stop := False\<rparr>, give_sync api t' e')"
    if "task_handle t' \<notin> {0, 1}" for t' e'
    using that assms(6) by (simp add: start_thread_def thread_notify_def give_sync_def)
  let ?t = "t\<lparr>task_handle := 1, et_stop := False, et_terminate := False\<rparr>"
  obtain e' where "claimed ?t e = (ESP_OK, ?t, e')" using assms(2) by blast
  then have starts: "\<exists>h t1 e1 e2. h \<notin> {0, 1} \<and>
      start_thread api claimed rst f config t e = Some (ESP_OK, fst (f h (t1, e1))\<lparr>task_handle := h\<rparr>, snd (f h (t1, e1)))" for f
    using assms(1,3-5) by (auto simp: start_thread_def provide_sem_def Let_def split_beta)
  show ?thesis
    using starts[of "\<lambda>_ s. s"] starts[of "\<lambda>self (t, e). terminate_from_task api self t e"]
    by (auto simp: notifies terminate_from_task_def split_beta)
qed

text \<open>A kernel that counts the threads it has created.\<close>

definition counting_api :: "nat thread_api" where
  "counting_api =
     \<lparr>tpm = \<lparr>pm_create = \<lambda>t e. (ESP_FAIL, 0, e), pm_delete = \<lambda>h e. (ESP_OK, e), pm_acquire = \<lambda>h e. (ESP_OK, e),
        pm_release = \<lambda>h e. (ESP_OK, e)\<rparr>, create_thread = \<lambda>e. (True, 7, e + 1), delete_thread = \<lambda>h e. e,
      binary_create = \<lambda>e. (1, e), binary_give = \<lambda>h e. e, binary_take = \<lambda>h e. (True, e), binary_reset = \<lambda>h e. e,
      binary_delete = \<lambda>h e. e, hw_timer_create = \<lambda>e. (ESP_OK, 1, e), hw_timer_stop = \<lambda>h e. e,
      hw_timer_delete = \<lambda>h e. e\<rparr>"

theorem start_races_with_exit_witness:
  "(let config = \<lparr>cfg_prevent_light_sleep = False, cfg_lock_apb_freq = False, notify_if_started = True, use_hardware_wakeups = False\<rparr>
    in case start_thread counting_api (\<lambda>t e. (ESP_OK, t, e)) (thread_reset counting_api) (\<lambda>self (t, e). terminate_from_task counting_api self t e) config
         (esp_task_new\<lparr>sync_sem := 1, join_sem := 2\<rparr>) 0 of
       None \<Rightarrow> False
     | Some (err, t', e') \<Rightarrow> err = ESP_OK \<and> task_handle t' \<noteq> 0)"
  using start_races_with_exit[where api = counting_api and claimed = "\<lambda>t e. (ESP_OK, t, e)" and rst = "thread_reset counting_api" and e = 0
      and config = "\<lparr>cfg_prevent_light_sleep = False, cfg_lock_apb_freq = False, notify_if_started = True, use_hardware_wakeups = False\<rparr>"
      and t = "esp_task_new\<lparr>sync_sem := 1, join_sem := 2\<rparr>" and m = "\<lambda>_ s. s"]
  by (auto simp: counting_api_def esp_task_new_def split: option.splits)

end
