(* ===== verification/Yielding_Task.thy ===== *)
theory Yielding_Task
  imports Esp_Task
begin

text \<open>
  \<open>YieldingTask\<close> (\<open>yielding_task.hpp\<close>): the loop of the thread that runs a sequence of steps, goes idle when
  it completes or is stopped, and holds the power-management locks only while it is active. Each
  iteration reads the flags that other threads write, so its input is the list of what the iterations
  see, and its result the list of what they call.
\<close>

section \<open>The object\<close>

text \<open>
  \<open>YieldingTask<TaskData>\<close>, derived from \<open>EspTaskBase\<close>: the pointer to the data, the step and stop functions (of
  any types \<open>'f\<close>, \<open>'g\<close>; \<^const>\<open>None\<close> a null pointer) and the handle of its timer.
\<close>

record ('d, 'f, 'g) yielding_task = esp_task +
  yt_data :: "'d option"
  yt_step :: "'f option"
  yt_stop :: "'g option"
  yt_timer :: nat

definition yielding_reset :: "'e thread_api \<Rightarrow> ('d, 'f, 'g) yielding_task \<Rightarrow> 'e \<Rightarrow> ('d, 'f, 'g) yielding_task \<times> 'e" where
  "yielding_reset api t e =
     (let (_, timer, e) = configure_hardware_timer api (yt_timer t) False e in thread_reset api (t\<lparr>yt_timer := timer\<rparr>) e)"

definition on_task_claimed :: "'e thread_api \<Rightarrow> task_config \<Rightarrow> ('d, 'f, 'g) yielding_task \<Rightarrow> 'e \<Rightarrow>
    esp_err \<times> ('d, 'f, 'g) yielding_task \<times> 'e" where
  "on_task_claimed api config t e =
     (let (err, timer, e) = configure_hardware_timer api (yt_timer t) (use_hardware_wakeups config) e
      in (err, t\<lparr>yt_timer := timer\<rparr>, e))"

definition yielding_start :: "'e thread_api \<Rightarrow> (nat \<Rightarrow> ('d, 'f, 'g) yielding_task \<times> 'e \<Rightarrow> ('d, 'f, 'g) yielding_task \<times> 'e) \<Rightarrow>
    task_config \<Rightarrow> 'd option \<Rightarrow> 'f option \<Rightarrow> 'g option \<Rightarrow> ('d, 'f, 'g) yielding_task \<Rightarrow> 'e \<Rightarrow>
    (esp_err \<times> ('d, 'f, 'g) yielding_task \<times> 'e) option" where
  "yielding_start api meanwhile config data step_func stop_func t e =
     start_thread api (on_task_claimed api config) (yielding_reset api) meanwhile config
       (t\<lparr>yt_data := data, yt_step := step_func, yt_stop := stop_func\<rparr>) e"

section \<open>The loop\<close>

text \<open>What an iteration sees: the flags, the members and what the step function returns. The handle of the timer is read
  up to three times; the first read decides which branch is taken and is the one that is seen here. \<open>reset\<close> deletes the
  timer before it joins the thread, so that the later reads may give a null pointer or the handle of a deleted timer to
  the calls of the timer; which calls are made does not change.\<close>

record observation =
  sees_terminate :: bool
  sees_stop :: bool
  sees_timer :: bool
  has_step :: bool
  has_stop :: bool
  step_delay :: "32 word option"

datatype ycall = AcquireLocks | ReleaseLocks | OnStep | OnStop | WaitForever | WaitTicks "32 word"
  | TimerStartOnce "64 word" | TimerStop | Terminate

text \<open>A list that ends without a termination is a thread that is still running.\<close>

fun trampoline :: "(32 word \<Rightarrow> 32 word) \<Rightarrow> bool \<Rightarrow> observation list \<Rightarrow> ycall list" where
  "trampoline ms_to_ticks is_active [] = []"
| "trampoline ms_to_ticks is_active (ob # obs) =
     (let stop_call = (if has_stop ob then [OnStop] else []) in
      if sees_terminate ob then (if is_active then stop_call @ [ReleaseLocks] else []) @ [Terminate]
      else (if \<not> is_active then [AcquireLocks] else []) @
        (if sees_stop ob then
           stop_call @ [ReleaseLocks, WaitForever] @ trampoline ms_to_ticks False obs
         else (if has_step ob then [OnStep] else []) @
           (case (if has_step ob then step_delay ob else None) of
              Some d \<Rightarrow>
                (if sees_timer ob then [TimerStartOnce (ucast d * 1000), WaitForever, TimerStop] else [WaitTicks (ms_to_ticks d)]) @
                trampoline ms_to_ticks True obs
            | None \<Rightarrow>
                stop_call @ [ReleaseLocks, WaitForever] @ trampoline ms_to_ticks False obs)))"

section \<open>The protocol\<close>

text \<open>
  What a caller may rely on, with a flag for the locks being held: steps, stops and delays happen with
  the locks held, an unlimited wait without a timer without them; a stop is followed by the release; the
  locks are never taken twice; and the thread ends without them.
\<close>

fun protocol :: "bool \<Rightarrow> ycall list \<Rightarrow> bool" where
  "protocol held [] = True"
| "protocol held (AcquireLocks # cs) = (\<not> held \<and> protocol True cs)"
| "protocol held (ReleaseLocks # cs) = (held \<and> protocol False cs)"
| "protocol held (OnStep # cs) = (held \<and> protocol held cs)"
| "protocol held (OnStop # ReleaseLocks # cs) = (held \<and> protocol False cs)"
| "protocol held (TimerStartOnce us # WaitForever # TimerStop # cs) = (held \<and> protocol held cs)"
| "protocol held (WaitForever # cs) = (\<not> held \<and> protocol held cs)"
| "protocol held (WaitTicks n # cs) = (held \<and> protocol held cs)"
| "protocol held [Terminate] = (\<not> held)"
| "protocol held _ = False"

lemma trampoline_protocol: "protocol is_active (trampoline ticks is_active obs)"
  by (induction obs arbitrary: is_active) (auto simp: Let_def split: option.split)

lemma trampoline_terminates:
  "Terminate \<in> set (trampoline ticks is_active obs) \<longleftrightarrow> (\<exists>ob\<in>set obs. sees_terminate ob)"
  by (induction obs arbitrary: is_active) (auto simp: Let_def split: option.split)

lemma trampoline_stops:
  "list_all has_stop obs \<Longrightarrow> count_list (trampoline ticks is_active obs) OnStop =
    count_list (trampoline ticks is_active obs) ReleaseLocks"
  by (induction obs arbitrary: is_active) (auto simp: Let_def split: option.split)

section \<open>The locks behind the calls\<close>

text \<open>\<open>other\<close> is what the user's functions, the waits and the timer do to the kernel.\<close>

definition run_call :: "'e thread_api \<Rightarrow> nat \<Rightarrow> (ycall \<Rightarrow> 'e \<Rightarrow> 'e) \<Rightarrow> ycall \<Rightarrow> esp_task \<times> 'e \<Rightarrow> esp_task \<times> 'e" where
  "run_call api self other c s =
     (case c of
        AcquireLocks \<Rightarrow> acquire_pm_locks api (fst s) (snd s)
      | ReleaseLocks \<Rightarrow> release_pm_locks api (fst s) (snd s)
      | Terminate \<Rightarrow> terminate_from_task api self (fst s) (snd s)
      | _ \<Rightarrow> (fst s, other c (snd s)))"

definition run_calls :: "'e thread_api \<Rightarrow> nat \<Rightarrow> (ycall \<Rightarrow> 'e \<Rightarrow> 'e) \<Rightarrow> ycall list \<Rightarrow> esp_task \<times> 'e \<Rightarrow> esp_task \<times> 'e" where
  "run_calls api self other cs s = fold (run_call api self other) cs s"

text \<open>Semaphores, threads and everything else leave the power-management locks alone.\<close>

definition lock_frame :: "'e thread_api \<Rightarrow> ('e \<Rightarrow> nat \<Rightarrow> nat option) \<Rightarrow> (ycall \<Rightarrow> 'e \<Rightarrow> 'e) \<Rightarrow> bool" where
  "lock_frame api cnt other \<longleftrightarrow>
     (\<forall>h e. cnt (binary_give api h e) = cnt e \<and> cnt (delete_thread api h e) = cnt e) \<and> (\<forall>c e. cnt (other c e) = cnt e)"

definition task_locks :: "('e \<Rightarrow> nat \<Rightarrow> nat option) \<Rightarrow> esp_task \<times> 'e \<Rightarrow> bool" where
  "task_locks cnt s \<longleftrightarrow> pm_rel cnt (et_sleep (fst s)) (snd s) \<and> pm_rel cnt (et_apb (fst s)) (snd s) \<and>
     (handle (et_apb (fst s)) = handle (et_sleep (fst s)) \<longrightarrow> handle (et_apb (fst s)) = 0)"

definition unlocked :: "esp_task \<Rightarrow> bool" where
  "unlocked t \<longleftrightarrow> \<not> acquired (et_sleep t) \<and> \<not> acquired (et_apb t)"

text \<open>Whether the calls so far hold the locks, and a wait that no timer ends.\<close>

primrec held_after :: "bool \<Rightarrow> ycall list \<Rightarrow> bool" where
  "held_after held [] = held"
| "held_after held (c # cs) =
     held_after (case c of AcquireLocks \<Rightarrow> True | ReleaseLocks \<Rightarrow> False | Terminate \<Rightarrow> False | _ \<Rightarrow> held) cs"

definition sleeps :: "ycall list \<Rightarrow> ycall \<Rightarrow> bool" where
  "sleeps before c \<longleftrightarrow> c = WaitForever \<and> (before = [] \<or> (\<forall>us. last before \<noteq> TimerStartOnce us))"

lemma protocol_held:
  "protocol held (xs @ c # ys) \<Longrightarrow> (sleeps xs c \<longrightarrow> \<not> held_after held xs) \<and> (c = OnStep \<longrightarrow> held_after held xs) \<and>
    (c = Terminate \<longrightarrow> \<not> held_after held xs)"
proof (induction held xs rule: protocol.induct)
  case (1 held)
  then show ?case by (cases c; cases ys) (auto simp: sleeps_def)
qed (cases c; cases ys; auto simp: sleeps_def)+

lemma acquire_pm_locks_rel:
  assumes laws: "pm_laws (tpm api) cnt" and rel: "task_locks cnt (t, e)" and r: "acquire_pm_locks api t e = (t', e')"
  shows "task_locks cnt (t', e')"
proof -
  obtain x lk e1 where 1: "acquire_if_enabled (tpm api) (et_sleep t) e = (x, lk, e1)" by (cases rule: prod_cases3)
  obtain y lk2 e2 where 2: "acquire_if_enabled (tpm api) (et_apb t) e1 = (y, lk2, e2)" by (cases rule: prod_cases3)
  have own: "pm_rel cnt (et_sleep t) e" "pm_rel cnt (et_apb t) e" "handle (et_apb t) = handle (et_sleep t) \<longrightarrow> handle (et_apb t) = 0"
    using rel by (simp_all add: task_locks_def)
  have r1: "pm_rel cnt lk e1" "others cnt (lk, e1) = others cnt (et_sleep t, e)"
    using acquire_rel[OF laws own(1)] 1 by simp_all
  note s1 = lock_step[OF own(1) r1 own(2,3)]
  have r2: "pm_rel cnt lk2 e2" "others cnt (lk2, e2) = others cnt (et_apb t, e1)"
    using acquire_rel[OF laws conjunct1[OF s1]] 2 by simp_all
  have "handle lk = handle (et_apb t) \<longrightarrow> handle lk = 0" using s1 by auto
  from lock_step[OF conjunct1[OF s1] r2 r1(1) this] r2(1) show ?thesis
    using r 1 2 by (auto simp: acquire_pm_locks_def task_locks_def)
qed

lemma release_pm_locks_rel:
  assumes laws: "pm_laws (tpm api) cnt" and rel: "task_locks cnt (t, e)" and r: "release_pm_locks api t e = (t', e')"
  shows "task_locks cnt (t', e') \<and> unlocked t'"
proof -
  obtain x lk e1 where 1: "release (tpm api) (et_apb t) e = (x, lk, e1)" by (cases rule: prod_cases3)
  obtain y lk2 e2 where 2: "release (tpm api) (et_sleep t) e1 = (y, lk2, e2)" by (cases rule: prod_cases3)
  have own: "pm_rel cnt (et_apb t) e" "pm_rel cnt (et_sleep t) e" "handle (et_sleep t) = handle (et_apb t) \<longrightarrow> handle (et_sleep t) = 0"
    using rel by (auto simp: task_locks_def)
  have r1: "pm_rel cnt lk e1" "others cnt (lk, e1) = others cnt (et_apb t, e)" "\<not> acquired lk"
    using release_rel[OF laws own(1)] 1 by simp_all
  note s1 = lock_step[OF own(1) r1(1,2) own(2,3)]
  have r2: "pm_rel cnt lk2 e2" "others cnt (lk2, e2) = others cnt (et_sleep t, e1)" "\<not> acquired lk2"
    using release_rel[OF laws conjunct1[OF s1]] 2 by simp_all
  have "handle lk = handle (et_sleep t) \<longrightarrow> handle lk = 0" using s1 by auto
  from lock_step[OF conjunct1[OF s1] r2(1,2) r1(1) this] r2(1,3) r1(3) show ?thesis
    using r 1 2 by (auto simp: release_pm_locks_def task_locks_def unlocked_def)
qed

lemma run_call_rel:
  assumes laws: "pm_laws (tpm api) cnt" "lock_frame api cnt other" and rel: "task_locks cnt s"
    and held: "held \<or> unlocked (fst s)"
  shows "task_locks cnt (run_call api self other c s) \<and>
    (held_after held [c] \<or> unlocked (fst (run_call api self other c s)))"
proof -
  obtain t e where s: "s = (t, e)" by fastforce
  have frame: "task_locks cnt (t, other c e)"
    using rel laws(2) by (simp add: s lock_frame_def task_locks_def pm_rel_def)
  show ?thesis
  proof (cases c)
    case AcquireLocks
    obtain t' e' where "acquire_pm_locks api t e = (t', e')" by fastforce
    with acquire_pm_locks_rel[OF laws(1) rel[unfolded s] this] AcquireLocks show ?thesis by (simp add: run_call_def s)
  next
    case ReleaseLocks
    obtain t' e' where "release_pm_locks api t e = (t', e')" by fastforce
    with release_pm_locks_rel[OF laws(1) rel[unfolded s] this] ReleaseLocks show ?thesis by (simp add: run_call_def s)
  next
    case Terminate
    obtain t' e' where r: "release_pm_locks api t e = (t', e')" by fastforce
    define e2 where "e2 = delete_thread api self (if join_sem t' \<noteq> 0 then binary_give api (join_sem t') e' else e')"
    have "cnt e2 = cnt e'" using laws(2) by (simp add: e2_def lock_frame_def)
    moreover have "terminate_from_task api self t e = (t'\<lparr>task_handle := 0\<rparr>, e2)"
      by (simp add: terminate_from_task_def r e2_def Let_def)
    ultimately show ?thesis using release_pm_locks_rel[OF laws(1) rel[unfolded s] r] Terminate
      by (simp add: run_call_def s task_locks_def unlocked_def pm_rel_def)
  qed (use held frame in \<open>simp_all add: run_call_def s\<close>)
qed

lemma run_calls_rel:
  assumes "pm_laws (tpm api) cnt" "lock_frame api cnt other"
  shows "task_locks cnt s \<Longrightarrow> held \<or> unlocked (fst s) \<Longrightarrow> task_locks cnt (run_calls api self other cs s) \<and>
    (held_after held cs \<or> unlocked (fst (run_calls api self other cs s)))"
proof (induction cs arbitrary: s held)
  case (Cons c cs)
  from run_call_rel[OF assms Cons.prems, of self c] Cons.IH[of "run_call api self other c s" "held_after held [c]"]
  show ?case by (simp add: run_calls_def)
qed (simp add: run_calls_def)

lemma held_after_append: "held_after held (xs @ ys) = held_after (held_after held xs) ys"
  by (induction xs arbitrary: held) auto

section \<open>What a task owns in the kernel\<close>

text \<open>The timer, the locks and the semaphores of the task exist, and \<open>R\<close> is everything else in the kernel.\<close>

definition owns_rest :: "('e \<Rightarrow> kernel_view) \<Rightarrow> kernel_view \<Rightarrow> ('d, 'f, 'g) yielding_task \<Rightarrow> 'e \<Rightarrow> bool" where
  "owns_rest view R t e = holds view R (yt_timer t) (et_sleep t) (et_apb t) (sync_sem t) (join_sem t) e"

context thread_kernel
begin

lemma yielding_reset_owns:
  assumes "yielding_reset api t e = (t', e')" "task_handle t = 0" "owns_rest view R t e"
  shows "owns_rest view R t' e' \<and> bare t' \<and> yt_timer t' = 0"
proof -
  obtain x timer e1 where 1: "configure_hardware_timer api (yt_timer t) False e = (x, timer, e1)" by (cases rule: prod_cases3)
  from timer_holds[OF 1 assms(3)[unfolded owns_rest_def]]
  have h: "holds view R 0 (et_sleep t) (et_apb t) (sync_sem t) (join_sem t) e1" "timer = 0" by auto
  have d: "drop_resources api (t\<lparr>yt_timer := 0\<rparr>) e1 = (t', e')"
    using assms(1,2) 1 h(2) by (simp add: yielding_reset_def thread_reset_def join_thread_def)
  then have "yt_timer t' = 0" by (auto simp: drop_resources_def Let_def split: prod.splits if_splits)
  moreover have "bare t'" using drop_resources_clears[OF d] assms(2) by (simp add: bare_def)
  ultimately show ?thesis using drop_holds[OF d, of R 0] h(1) by (simp add: owns_rest_def)
qed

lemma failed_start_owns:
  assumes s: "yielding_start api meanwhile config data f g t e = Some (err, t', e')" "err \<noteq> ESP_OK" "task_handle t = 0"
    and o: "owns_rest view R t e"
  shows "owns_rest view R t' e'"
proof -
  obtain r timer e1 where 1: "configure_hardware_timer api (yt_timer t) (use_hardware_wakeups config) e = (r, timer, e1)"
    by (cases rule: prod_cases3)
  have h1: "holds view R timer (et_sleep t) (et_apb t) (sync_sem t) (join_sem t) e1"
    using timer_holds[OF 1 o[unfolded owns_rest_def]] by blast
  obtain x2 sleep e2 where 2: "enable (tpm api) (cfg_prevent_light_sleep config) (et_sleep t) e1 = (x2, sleep, e2)"
    by (cases rule: prod_cases3)
  obtain x3 apb e3 where 3: "enable (tpm api) (cfg_lock_apb_freq config) (et_apb t) e2 = (x3, apb, e3)"
    by (cases rule: prod_cases3)
  obtain sync e4 where 4: "provide_sem api (sync_sem t) e3 = (sync, e4)" by fastforce
  obtain join e5 where 5: "provide_sem api (join_sem t) e4 = (join, e5)" by fastforce
  have h5: "holds view R timer sleep apb sync join e5"
    by (rule provide_holds(2)[OF 5 provide_holds(1)[OF 4 enable_holds(2)[OF 3 enable_holds(1)[OF 2 h1]]]])
  obtain created h e6 where 6: "create_thread api e5 = (created, h, e6)" by (cases rule: prod_cases3)
  let ?t = "t\<lparr>yt_data := data, yt_step := f, yt_stop := g, et_stop := False, et_terminate := False,
    yt_timer := timer, et_sleep := sleep, et_apb := apb, sync_sem := sync, join_sem := join, task_handle := 0\<rparr>"
  note run = s(1)[unfolded yielding_start_def start_thread_def on_task_claimed_def]
  consider (hook) "r \<noteq> ESP_OK" | (sems) "r = ESP_OK" "sync = 0 \<or> join = 0"
    | (thread) "r = ESP_OK" "sync \<noteq> 0" "join \<noteq> 0" "\<not> created"
    | (ok) "r = ESP_OK" "sync \<noteq> 0" "join \<noteq> 0" "created" by blast
  then show ?thesis
  proof cases
    case hook
    with run 1 s(3) h1 show ?thesis by (auto simp: owns_rest_def)
  next
    case sems
    have "yielding_reset api ?t e5 = (t', e')" using run 1 2 3 4 5 s(3) sems by (auto simp: Let_def split: prod.splits)
    moreover have "owns_rest view R ?t e5" using h5 by (simp add: owns_rest_def)
    ultimately show ?thesis using yielding_reset_owns[of ?t e5 t' e' R] by simp
  next
    case thread
    have "yielding_reset api ?t e6 = (t', e')" using run 1 2 3 4 5 6 s(3) thread by (auto simp: Let_def split: prod.splits)
    moreover have "view e6 = view e5" using thread_create[OF 6] thread by simp
    then have "holds view R timer sleep apb sync join e6" by (simp only: holds_view[of view] h5)
    then have "owns_rest view R ?t e6" by (simp add: owns_rest_def)
    ultimately show ?thesis using yielding_reset_owns[of ?t e6 t' e' R] by simp
  next
    case ok
    with run 1 2 3 4 5 6 s(2,3) show ?thesis by (auto simp: Let_def split: prod.splits)
  qed
qed

text \<open>A task without anything in the kernel: the rest is all there is.\<close>

lemma owns_nothing: "bare t \<Longrightarrow> yt_timer t = 0 \<Longrightarrow> owns_rest view R t e \<Longrightarrow> view e = R"
  using holds_nothing[of "et_sleep t" "et_apb t" R e] by (simp add: owns_rest_def bare_def is_enabled_def)

lemma owns_all:
  "bare t \<Longrightarrow> yt_timer t = 0 \<Longrightarrow> \<not> acquired (et_sleep t) \<Longrightarrow> \<not> acquired (et_apb t) \<Longrightarrow> owns_rest view (view e) t e"
  by (simp add: owns_rest_def holds_def bare_def is_enabled_def pm_rel_def restrict_map_def)

end

section \<open>Properties\<close>

text \<open>C31: Whatever the flags show to the iterations and the step function returns: the locks are taken before
  the first step of a sequence and released at its end, so that the thread waits without a limit and
  ends only without them; every sequence is closed by exactly one call of the stop function when there
  is one, right before its release; and the thread ends exactly when an iteration sees the termination request.\<close>

theorem yielding_protocol:
  "protocol False (trampoline ticks False obs) \<and>
   (list_all has_stop obs \<longrightarrow> count_list (trampoline ticks False obs) OnStop =
     count_list (trampoline ticks False obs) ReleaseLocks) \<and>
   (Terminate \<in> set (trampoline ticks False obs)) = list_ex sees_terminate obs"
  using trampoline_protocol[of False] trampoline_stops trampoline_terminates by (auto simp: list_ex_iff)

theorem yielding_protocol_witness:
  "count_list (trampoline (\<lambda>t. t) False
     [\<lparr>sees_terminate = False, sees_stop = False, sees_timer = True, has_step = True, has_stop = True, step_delay = None\<rparr>]) OnStop = 1"
  using yielding_protocol[of "\<lambda>t. t" "[\<lparr>sees_terminate = False, sees_stop = False, sees_timer = True, has_step = True,
      has_stop = True, step_delay = None\<rparr>]"]
  by simp

text \<open>C33: A start of a \<open>YieldingTask\<close> that fails leaves no trace in the kernel. When the task is not running, whatever
  allocation fails, everything that does not belong to the task is as it was, and of the objects that were made for it
  (timer, locks, semaphores) exactly those exist that the task still refers to; for a task that had
  nothing allocated before (and no lock acquired), it has nothing afterwards, and the kernel's timers, semaphores, threads and locks with their counts are
  those from before the call. A start that is refused because the task is running leaves the kernel and the thread
  alone, but has replaced the functions and the data that the thread uses.\<close>

theorem yielding_start_fails_clean:
  assumes "thread_kernel api view"
    and "yielding_start api meanwhile config data f g t e = Some (err, t', e')" "err \<noteq> ESP_OK"
  shows "if task_handle t = 0
    then (\<forall>R. owns_rest view R t e \<longrightarrow> owns_rest view R t' e') \<and>
      (bare t \<and> yt_timer t = 0 \<and> \<not> acquired (et_sleep t) \<and> \<not> acquired (et_apb t) \<longrightarrow> bare t' \<and> yt_timer t' = 0 \<and> view e' = view e)
    else err = ESP_ERR_INVALID_STATE \<and> e' = e \<and> t' = t\<lparr>yt_data := data, yt_step := f, yt_stop := g\<rparr>"
proof (cases "task_handle t = 0")
  case True
  note owns = thread_kernel.failed_start_owns[OF assms(1,2,3) True]
  let ?t = "t\<lparr>yt_data := data, yt_step := f, yt_stop := g\<rparr>"
  have h: "task_handle ?t = 0" using True by simp
  have "bare t' \<and> yt_timer t' = 0 \<and> view e' = view e"
    if b: "bare t" "yt_timer t = 0" "\<not> acquired (et_sleep t)" "\<not> acquired (et_apb t)"
  proof -
    have o: "owns_rest view (view e) t' e'"
      by (rule owns[OF thread_kernel.owns_all[OF assms(1)]]) (use b in simp_all)
    have "bare t' \<and> yt_timer t' = 0"
      using assms(2)[unfolded yielding_start_def]
    proof (rule start_thread_fails[OF _ assms(3) h])
      fix t1 assume "on_task_claimed api config (?t\<lparr>task_handle := 1, et_stop := False, et_terminate := False\<rparr>) e = (err, t1, e')"
        "t' = t1\<lparr>task_handle := 0\<rparr>"
      with b assms(3) show ?thesis
        by (auto simp: on_task_claimed_def configure_hardware_timer_def bare_def split: if_splits prod.splits)
    next
      fix t1 e1 assume r: "yielding_reset api t1 e1 = (t', e')"
      then have "bare t'" by (auto simp: yielding_reset_def split: prod.splits intro: thread_reset_bare)
      moreover have "yt_timer t' = 0"
        using r by (auto simp: yielding_reset_def thread_reset_def join_thread_def drop_resources_def configure_hardware_timer_def
            Let_def split_beta split: if_splits)
      ultimately show ?thesis ..
    qed
    moreover from this have "view e' = view e" using thread_kernel.owns_nothing[OF assms(1) _ _ o] by simp
    ultimately show ?thesis by simp
  qed
  with True owns show ?thesis by simp
next
  case False
  with assms show ?thesis
    by (auto simp: yielding_start_def start_thread_def thread_notify_def split: if_splits)
qed

theorem yielding_start_fails_clean_witness:
  "(let api = host_threads 5;
        e = \<lparr>hk_next = 2, hk_view = \<lparr>kv_sems = {}, kv_timers = Map.empty, kv_threads = {}, kv_locks = Map.empty\<rparr>\<rparr>
    in \<exists>t' e'. yielding_start api (\<lambda>_ s. s)
      \<lparr>cfg_prevent_light_sleep = True, cfg_lock_apb_freq = False, notify_if_started = False, use_hardware_wakeups = True\<rparr>
      None (Some ()) (None :: unit option) (esp_task.extend esp_task_new \<lparr>yt_data = None :: unit option, yt_step = None, yt_stop = None, yt_timer = 0\<rparr>) e
    = Some (ESP_ERR_NO_MEM, t', e') \<and> bare t' \<and> yt_timer t' = 0 \<and> hk_next e' \<noteq> hk_next e \<and> hk_view e' = hk_view e)"
proof -
  let ?api = "host_threads 5"
  let ?e = "\<lparr>hk_next = 2, hk_view = \<lparr>kv_sems = {}, kv_timers = Map.empty, kv_threads = {}, kv_locks = Map.empty\<rparr>\<rparr>"
  let ?c = "\<lparr>cfg_prevent_light_sleep = True, cfg_lock_apb_freq = False, notify_if_started = False, use_hardware_wakeups = True\<rparr>"
  let ?t = "esp_task.extend esp_task_new \<lparr>yt_data = None :: unit option, yt_step = None :: unit option, yt_stop = None :: unit option, yt_timer = 0\<rparr>"
  obtain t' e' where 1: "yielding_start ?api (\<lambda>_ s. s) ?c None (Some ()) None ?t ?e = Some (ESP_ERR_NO_MEM, t', e')" "hk_next e' \<noteq> 2"
    by (simp add: yielding_start_def start_thread_def on_task_claimed_def configure_hardware_timer_def host_threads_def
        fresh_handle_def hk_put_def provide_sem_def enable_def esp_task.defs esp_task_new_def yielding_reset_def
        thread_reset_def join_thread_def drop_resources_def pm_lock_new_def Let_def is_enabled_def create_or_delete_def)
  have "bare ?t \<and> yt_timer ?t = 0 \<and> \<not> acquired (et_sleep ?t) \<and> \<not> acquired (et_apb ?t) \<and> task_handle ?t = 0"
    by (simp add: bare_def esp_task.defs esp_task_new_def is_enabled_def pm_lock_new_def)
  with yielding_start_fails_clean[OF host_kernel.thread_kernel_axioms 1(1)] 1 show ?thesis by (auto simp: Let_def)
qed

text \<open>C32: Asleep without locks: for the thread of a task whose locks are not held, whatever the iterations see and
  whatever the user's functions and the other threads do to the kernel, whenever the thread waits
  without a timer and without a limit, and when it has ended, neither lock is held, in the wrapper or in the
  driver.\<close>

theorem sleeps_unlocked:
  assumes "pm_laws (tpm api) cnt" "lock_frame api cnt other" "task_locks cnt s" "unlocked (fst s)"
    and "trampoline ticks False obs = before @ c # after" "sleeps before c \<or> c = Terminate"
    and "run_calls api self other (if c = Terminate then before @ [c] else before) s = (t, e)"
  shows "\<forall>lk\<in>{et_sleep t, et_apb t}. \<not> acquired lk \<and> (is_enabled lk \<longrightarrow> cnt e (handle lk) = Some 0)"
proof -
  define cs where "cs = (if c = Terminate then before @ [c] else before)"
  have "protocol False (before @ c # after)" using trampoline_protocol[of False ticks obs] assms(5) by simp
  then have "\<not> held_after False before" using protocol_held[of False before c after] assms(6) by blast
  then have "\<not> held_after False cs"
    by (auto simp: cs_def held_after_append)
  with run_calls_rel[OF assms(1,2,3), of False self cs] assms(4,7) have "task_locks cnt (t, e)" "unlocked t"
    by (simp_all add: cs_def)
  then show ?thesis by (auto simp: task_locks_def unlocked_def pm_rel_def is_enabled_def)
qed

theorem sleeps_unlocked_witness:
  "(let t = esp_task_new\<lparr>et_sleep := (pm_lock_new NoLightSleep)\<lparr>handle := 1\<rparr>\<rparr>;
        api = \<lparr>tpm = list_api, create_thread = \<lambda>e. (True, 7, e), delete_thread = \<lambda>h e. e, binary_create = \<lambda>e. (1, e),
          binary_give = \<lambda>h e. e, binary_take = \<lambda>h e. (True, e), binary_reset = \<lambda>h e. e, binary_delete = \<lambda>h e. e,
          hw_timer_create = \<lambda>e. (ESP_OK, 1, e), hw_timer_stop = \<lambda>h e. e, hw_timer_delete = \<lambda>h e. e\<rparr>
    in case run_calls api 5 (\<lambda>c e. e) [AcquireLocks, OnStep, ReleaseLocks] (t, [Some 0]) of (t', e') \<Rightarrow>
      \<not> acquired (et_sleep t') \<and> count_at e' (handle (et_sleep t')) = Some 0)"
proof -
  let ?t = "esp_task_new\<lparr>et_sleep := (pm_lock_new NoLightSleep)\<lparr>handle := 1\<rparr>\<rparr>"
  let ?api = "\<lparr>tpm = list_api, create_thread = \<lambda>e. (True, 7, e), delete_thread = \<lambda>h e. e, binary_create = \<lambda>e. (1, e),
          binary_give = \<lambda>h e. e, binary_take = \<lambda>h e. (True, e), binary_reset = \<lambda>h e. e, binary_delete = \<lambda>h e. e,
          hw_timer_create = \<lambda>e. (ESP_OK, 1, e), hw_timer_stop = \<lambda>h e. e, hw_timer_delete = \<lambda>h e. e\<rparr> :: nat option list thread_api"
  let ?ob = "\<lparr>sees_terminate = False, sees_stop = False, sees_timer = False, has_step = True, has_stop = False, step_delay = None\<rparr>"
  have laws: "pm_laws (tpm ?api) count_at" "lock_frame ?api count_at (\<lambda>c e. e)"
    by (simp_all add: list_api_laws lock_frame_def)
  have rel: "task_locks count_at (?t, [Some 0])" "unlocked (fst (?t, [Some 0 :: nat option]))"
    by (simp_all add: task_locks_def unlocked_def esp_task_new_def pm_lock_new_def pm_rel_def count_at_def)
  have run: "trampoline (\<lambda>t. t) False [?ob] = [AcquireLocks, OnStep, ReleaseLocks] @ WaitForever # []" by simp
  have "sleeps [AcquireLocks, OnStep, ReleaseLocks] WaitForever" by (simp add: sleeps_def)
  from sleeps_unlocked[OF laws rel run disjI1[OF this]] show ?thesis
    by (simp add: run_calls_def run_call_def acquire_pm_locks_def release_pm_locks_def acquire_if_enabled_def release_def
        list_api_def count_at_def esp_task_new_def pm_lock_new_def is_enabled_def)
qed

end
