(* ===== verification/Esp_Timer.thy ===== *)
theory Esp_Timer
  imports Result
begin

text \<open>
  \<open>EspTimer\<close> (\<open>esp_timer.hpp\<close>): the owner of one timer of ESP-IDF. The timer service is the parameter \<open>api\<close>
  over a state of any type \<open>'e\<close>; a handle is a number, 0 the null pointer. Shown is that no timer is
  leaked or used after its deletion.
\<close>

record 'e timer_api =
  svc_create :: "'e \<Rightarrow> esp_err \<times> nat \<times> 'e"
  svc_start_once :: "nat \<Rightarrow> 64 word \<Rightarrow> 'e \<Rightarrow> 'e"
  svc_stop :: "nat \<Rightarrow> 'e \<Rightarrow> 'e"
  svc_delete :: "nat \<Rightarrow> 'e \<Rightarrow> 'e"

record esp_timer =
  timer_handle :: nat

definition destroy_timer :: "'e timer_api \<Rightarrow> esp_timer \<Rightarrow> 'e \<Rightarrow> esp_timer \<times> 'e" where
  "destroy_timer api t e =
     (if timer_handle t \<noteq> 0
      then (t\<lparr>timer_handle := 0\<rparr>, svc_delete api (timer_handle t) (svc_stop api (timer_handle t) e)) else (t, e))"

text \<open>Both \<open>create\<close> functions; the service stores a handle only when it succeeds.\<close>

definition create_timer :: "'e timer_api \<Rightarrow> esp_timer \<Rightarrow> 'e \<Rightarrow> esp_err \<times> esp_timer \<times> 'e" where
  "create_timer api t e =
     (let (t, e) = destroy_timer api t e; (err, h, e) = svc_create api e
      in (err, if err = ESP_OK then t\<lparr>timer_handle := h\<rparr> else t, e))"

definition start_timer :: "'e timer_api \<Rightarrow> 32 word \<Rightarrow> esp_timer \<Rightarrow> 'e \<Rightarrow> esp_timer \<times> 'e" where
  "start_timer api delay_ms t e =
     (t, if timer_handle t \<noteq> 0
         then svc_start_once api (timer_handle t) (ucast delay_ms * 1000) (svc_stop api (timer_handle t) e) else e)"

definition stop_timer :: "'e timer_api \<Rightarrow> esp_timer \<Rightarrow> 'e \<Rightarrow> esp_timer \<times> 'e" where
  "stop_timer api t e = (t, if timer_handle t \<noteq> 0 then svc_stop api (timer_handle t) e else e)"

section \<open>Ownership\<close>

text \<open>\<open>live e\<close> is the set of timers that exist; every call on a handle requires that it is one of them.\<close>

definition timer_laws :: "'e timer_api \<Rightarrow> ('e \<Rightarrow> nat set) \<Rightarrow> bool" where
  "timer_laws api live \<longleftrightarrow>
     (\<forall>e err h e'. svc_create api e = (err, h, e') \<longrightarrow>
        (if err = ESP_OK then h \<noteq> 0 \<and> h \<notin> live e \<and> live e' = insert h (live e) else live e' = live e)) \<and>
     (\<forall>h e us. h \<in> live e \<longrightarrow> live (svc_start_once api h us e) = live e) \<and>
     (\<forall>h e. h \<in> live e \<longrightarrow> live (svc_stop api h e) = live e) \<and>
     (\<forall>h e. h \<in> live e \<longrightarrow> live (svc_delete api h e) = live e - {h})"

datatype timer_op = Create | StartOnce "32 word" | Stop

fun timer_op_step :: "'e timer_api \<Rightarrow> timer_op \<Rightarrow> esp_timer \<times> 'e \<Rightarrow> esp_timer \<times> 'e" where
  "timer_op_step api Create (t, e) = snd (create_timer api t e)"
| "timer_op_step api (StartOnce d) (t, e) = start_timer api d t e"
| "timer_op_step api Stop (t, e) = stop_timer api t e"

definition owns :: "('e \<Rightarrow> nat set) \<Rightarrow> nat set \<Rightarrow> esp_timer \<times> 'e \<Rightarrow> bool" where
  "owns live others te = (case te of (t, e) \<Rightarrow>
     if timer_handle t = 0 then live e = others else timer_handle t \<notin> others \<and> live e = insert (timer_handle t) others)"

lemma timer_lawsD:
  assumes "timer_laws api live"
  shows "svc_create api e = (err, h, e') \<Longrightarrow>
      if err = ESP_OK then h \<noteq> 0 \<and> h \<notin> live e \<and> live e' = insert h (live e) else live e' = live e"
    and "h \<in> live e \<Longrightarrow> live (svc_start_once api h us e) = live e"
    and "h \<in> live e \<Longrightarrow> live (svc_stop api h e) = live e"
    and "h \<in> live e \<Longrightarrow> live (svc_delete api h e) = live e - {h}"
proof -
  note laws = assms[unfolded timer_laws_def]
  show "svc_create api e = (err, h, e') \<Longrightarrow>
      if err = ESP_OK then h \<noteq> 0 \<and> h \<notin> live e \<and> live e' = insert h (live e) else live e' = live e"
    by (rule laws[THEN conjunct1, rule_format])
  show "h \<in> live e \<Longrightarrow> live (svc_start_once api h us e) = live e"
    by (rule laws[THEN conjunct2, THEN conjunct1, rule_format])
  show "h \<in> live e \<Longrightarrow> live (svc_stop api h e) = live e"
    by (rule laws[THEN conjunct2, THEN conjunct2, THEN conjunct1, rule_format])
  show "h \<in> live e \<Longrightarrow> live (svc_delete api h e) = live e - {h}"
    by (rule laws[THEN conjunct2, THEN conjunct2, THEN conjunct2, rule_format])
qed

lemma destroy_owns:
  assumes laws: "timer_laws api live" and own: "owns live os (t, e)" and d: "destroy_timer api t e = (t', e')"
  shows "timer_handle t' = 0 \<and> live e' = os"
proof (cases "timer_handle t = 0")
  case True
  with own d show ?thesis by (auto simp: owns_def destroy_timer_def)
next
  case False
  with own have l: "timer_handle t \<in> live e" and o: "timer_handle t \<notin> os" "live e = insert (timer_handle t) os"
    by (simp_all add: owns_def)
  have s: "live (svc_stop api (timer_handle t) e) = live e" by (rule timer_lawsD(3)[OF laws l])
  with l have "live (svc_delete api (timer_handle t) (svc_stop api (timer_handle t) e)) = live e - {timer_handle t}"
    using timer_lawsD(4)[OF laws, of "timer_handle t" "svc_stop api (timer_handle t) e"] by simp
  with d False o show ?thesis by (auto simp: destroy_timer_def)
qed

lemma step_owns:
  assumes laws: "timer_laws api live" and own: "owns live os (t, e)"
  shows "owns live os (timer_op_step api op (t, e))"
proof (cases op)
  case Create
  obtain t1 e1 where d: "destroy_timer api t e = (t1, e1)" by fastforce
  obtain err h e2 where c: "svc_create api e1 = (err, h, e2)" by (cases rule: prod_cases3)
  from destroy_owns[OF laws own d] timer_lawsD(1)[OF laws c] show ?thesis
    by (cases "err = ESP_OK") (auto simp: Create create_timer_def d c owns_def)
next
  case (StartOnce delay)
  show ?thesis
  proof (cases "timer_handle t = 0")
    case False
    with own have l: "timer_handle t \<in> live e" by (simp add: owns_def)
    let ?e = "svc_stop api (timer_handle t) e"
    have s: "live ?e = live e" by (rule timer_lawsD(3)[OF laws l])
    with l have "live (svc_start_once api (timer_handle t) us ?e) = live e" for us
      using timer_lawsD(2)[OF laws, of "timer_handle t" ?e] by simp
    with own False show ?thesis by (simp add: StartOnce start_timer_def owns_def)
  qed (use own in \<open>simp add: StartOnce start_timer_def\<close>)
next
  case Stop
  show ?thesis
  proof (cases "timer_handle t = 0")
    case False
    with own have "timer_handle t \<in> live e" by (simp add: owns_def)
    with timer_lawsD(3)[OF laws this] own False show ?thesis by (simp add: Stop stop_timer_def owns_def)
  qed (use own in \<open>simp add: Stop stop_timer_def\<close>)
qed

text \<open>After any use of a new object its destructor leaves exactly the timers that existed before, and every
  handle it has passed to the service belonged to a live timer.\<close>

theorem timer_no_leak:
  assumes "timer_laws api live" "fold (timer_op_step api) ops (\<lparr>timer_handle = 0\<rparr>, e) = (t, e1)"
  shows "(timer_handle t = 0 \<or> timer_handle t \<in> live e1) \<and> live (snd (destroy_timer api t e1)) = live e"
proof -
  have "owns live (live e) (fold (timer_op_step api) ops s)" if "owns live (live e) s" for s
    using that
  proof (induction ops arbitrary: s)
    case (Cons op ops)
    then show ?case using step_owns[OF assms(1), of "live e" "fst s" "snd s" op] by simp
  qed simp
  from this[of "(\<lparr>timer_handle = 0\<rparr>, e)"] have own: "owns live (live e) (t, e1)"
    by (simp add: assms(2)) (simp add: owns_def)
  obtain t2 e2 where d: "destroy_timer api t e1 = (t2, e2)" by fastforce
  from destroy_owns[OF assms(1) own d] own d show ?thesis by (auto simp: owns_def split: if_splits)
qed

end
