(* ===== verification/Pm_Lock_Owners.thy ===== *)
theory Pm_Lock_Owners
  imports Pm_Lock
begin

text \<open>
  Programs over any number of \<open>PmLock\<close> objects, which are constructed, moved, enabled, acquired, released and
  destroyed in any order: every lock of the driver has one owner and the count that its owner says.
\<close>

section \<open>Programs\<close>

text \<open>The objects by their address, and the driver's state.\<close>

type_synonym 'e lock_pool = "(nat \<Rightarrow> pm_lock option) \<times> 'e"

datatype lock_op = NewLock nat lock_type | MoveNew nat nat | MoveTo nat nat | EnableLock nat bool | AcquireLock nat
  | ReleaseLock nat | DestroyLock nat

text \<open>\<^const>\<open>None\<close>: the program uses an object that does not exist or constructs one that does. In \<open>MoveNew i j\<close> and
  \<open>MoveTo i j\<close> the source is \<open>j\<close>.\<close>

definition on_lock :: "nat \<Rightarrow> 'e lock_pool \<Rightarrow> (pm_lock \<Rightarrow> 'e \<Rightarrow> pm_lock \<times> 'e) \<Rightarrow> 'e lock_pool option" where
  "on_lock i p f = do { l \<leftarrow> fst p i; (case f l (snd p) of (l, e) \<Rightarrow> Some ((fst p)(i \<mapsto> l), e)) }"

fun lock_run :: "'e pm_api \<Rightarrow> lock_op \<Rightarrow> 'e lock_pool \<Rightarrow> 'e lock_pool option" where
  "lock_run api (NewLock i k) p = (if fst p i = None then Some ((fst p)(i \<mapsto> pm_lock_new k), snd p) else None)"
| "lock_run api (MoveNew i j) p =
     (if fst p i \<noteq> None then None
      else do { other \<leftarrow> fst p j;
                (case move_construct other of (l, other) \<Rightarrow> Some ((fst p)(j \<mapsto> other, i \<mapsto> l), snd p)) })"
| "lock_run api (MoveTo i j) p = do {
     l \<leftarrow> fst p i; other \<leftarrow> fst p j;
     if i = j then Some p
     else (case move_assign api l other (snd p) of (l, other, e) \<Rightarrow> Some ((fst p)(j \<mapsto> other, i \<mapsto> l), e)) }"
| "lock_run api (EnableLock i en) p = on_lock i p (\<lambda>l e. snd (enable api en l e))"
| "lock_run api (AcquireLock i) p = on_lock i p (\<lambda>l e. snd (acquire_if_enabled api l e))"
| "lock_run api (ReleaseLock i) p = on_lock i p (\<lambda>l e. snd (release api l e))"
| "lock_run api (DestroyLock i) p =
     do { l \<leftarrow> fst p i; (case enable api False l (snd p) of (_, _, e) \<Rightarrow> Some ((fst p)(i := None), e)) }"

fun lock_runs :: "'e pm_api \<Rightarrow> lock_op list \<Rightarrow> 'e lock_pool \<Rightarrow> 'e lock_pool option" where
  "lock_runs api [] p = Some p"
| "lock_runs api (c # cs) p = do { p \<leftarrow> lock_run api c p; lock_runs api cs p }"

section \<open>Owners\<close>

definition owns_lock :: "(nat \<Rightarrow> pm_lock option) \<Rightarrow> nat \<Rightarrow> nat \<Rightarrow> bool" where
  "owns_lock ls i h \<longleftrightarrow> (\<exists>l. ls i = Some l \<and> handle l = h \<and> h \<noteq> 0)"

text \<open>\<open>base\<close> are the locks of others.\<close>

definition locks_ok :: "('e \<Rightarrow> nat \<Rightarrow> nat option) \<Rightarrow> (nat \<Rightarrow> nat option) \<Rightarrow> 'e lock_pool \<Rightarrow> bool" where
  "locks_ok cnt base p \<longleftrightarrow>
     (\<forall>i l. fst p i = Some l \<longrightarrow> pm_rel cnt l (snd p)) \<and>
     (\<forall>i j h. owns_lock (fst p) i h \<longrightarrow> owns_lock (fst p) j h \<longrightarrow> i = j) \<and>
     (\<forall>h. if \<exists>i. owns_lock (fst p) i h then base h = None else cnt (snd p) h = base h)"

lemma locks_okD:
  assumes "locks_ok cnt base (ls, e)"
  shows "ls i = Some l \<Longrightarrow> pm_rel cnt l e"
    and "ls i = Some l \<Longrightarrow> ls j = Some m \<Longrightarrow> i \<noteq> j \<Longrightarrow> handle m = handle l \<longrightarrow> handle m = 0"
    and "if \<exists>i. owns_lock ls i h then base h = None else cnt e h = base h"
proof -
  show "ls i = Some l \<Longrightarrow> pm_rel cnt l e" using assms by (simp add: locks_ok_def)
  have "\<forall>i j h. owns_lock ls i h \<longrightarrow> owns_lock ls j h \<longrightarrow> i = j" using assms by (simp add: locks_ok_def)
  then show "ls i = Some l \<Longrightarrow> ls j = Some m \<Longrightarrow> i \<noteq> j \<Longrightarrow> handle m = handle l \<longrightarrow> handle m = 0"
    unfolding owns_lock_def by metis
  show "if \<exists>i. owns_lock ls i h then base h = None else cnt e h = base h"
    using assms unfolding locks_ok_def fst_conv snd_conv by blast
qed

lemma locks_okI:
  assumes "\<And>i l. ls i = Some l \<Longrightarrow> pm_rel cnt l e"
    and "\<And>i j h. owns_lock ls i h \<Longrightarrow> owns_lock ls j h \<Longrightarrow> i = j"
    and "\<And>h. if \<exists>i. owns_lock ls i h then base h = None else cnt e h = base h"
  shows "locks_ok cnt base (ls, e)"
  using assms unfolding locks_ok_def fst_conv snd_conv by blast

text \<open>An operation on the object \<open>i\<close> that changes no other lock, in place or as its last.\<close>

lemma locks_keep:
  assumes ok: "locks_ok cnt base (ls, e)" and i: "ls i = Some l"
    and l': "pm_rel cnt l' e'" "others cnt (l', e') = others cnt (l, e)"
    and x: "x = Some l' \<or> x = None \<and> handle l' = 0"
  shows "locks_ok cnt base (ls(i := x), e')"
proof -
  have o: "(if handle l' \<noteq> 0 \<and> h = handle l' then None else cnt e' h) =
      (if handle l \<noteq> 0 \<and> h = handle l then None else cnt e h)" for h
    using fun_cong[OF l'(2), of h] by (auto simp: others_def split: if_splits)
  have other: "pm_rel cnt m e' \<and> (handle m = handle l' \<longrightarrow> handle m = 0)" if "j \<noteq> i" "ls j = Some m" for j m
    using lock_step[OF locks_okD(1)[OF ok i] l' locks_okD(1)[OF ok that(2)]]
      locks_okD(2)[OF ok i that(2)] that(1) by blast
  have w: "owns_lock (ls(i := x)) j h \<longleftrightarrow> (if j = i then h = handle l' \<and> h \<noteq> 0 else owns_lock ls j h)" for j h
    using x by (auto simp: owns_lock_def)
  have own_i: "owns_lock ls i h \<longleftrightarrow> h = handle l \<and> h \<noteq> 0" for h using i by (auto simp: owns_lock_def)
  have uniq: "owns_lock ls j h \<Longrightarrow> owns_lock ls k h \<Longrightarrow> j = k" for j k h
    using ok by (simp add: locks_ok_def)
  have apart: "\<not> (owns_lock ls j (handle l') \<and> handle l' \<noteq> 0)" if "j \<noteq> i" for j
    using other[OF that] by (auto simp: owns_lock_def)
  have "if \<exists>j. owns_lock (ls(i := x)) j h then base h = None else cnt e' h = base h" for h
  proof -
    have ex: "(\<exists>j. owns_lock (ls(i := x)) j h) \<longleftrightarrow> h = handle l' \<and> h \<noteq> 0 \<or> (\<exists>j. j \<noteq> i \<and> owns_lock ls j h)"
      unfolding w by metis
    have ex0: "(\<exists>j. owns_lock ls j h) \<longleftrightarrow> h = handle l \<and> h \<noteq> 0 \<or> (\<exists>j. j \<noteq> i \<and> owns_lock ls j h)"
      using own_i by metis
    have cnt_own: "cnt e (handle l) \<noteq> None" if "handle l \<noteq> 0" using locks_okD(1)[OF ok i] that by (simp add: pm_rel_def)
    show ?thesis using locks_okD(3)[OF ok, of h] o[of h] cnt_own uniq[of i h] own_i apart[of _]
      unfolding ex ex0 by (auto split: if_splits)
  qed
  moreover have "pm_rel cnt m e'" if "(ls(i := x)) j = Some m" for j m
    using that x l'(1) other[of j m] by (auto split: if_splits)
  moreover have "j = k" if "owns_lock (ls(i := x)) j h" "owns_lock (ls(i := x)) k h" for j k h
    using that uniq[of j h k] apart unfolding w by (auto split: if_splits)
  ultimately show ?thesis by (intro locks_okI) blast+
qed

lemma locks_move:
  assumes ok: "locks_ok cnt base (ls, e)" and i: "\<And>h. \<not> owns_lock ls i h" and j: "ls j = Some m" "i \<noteq> j"
    and l: "handle l = handle m" "acquired l = acquired m"
  shows "locks_ok cnt base (ls(j \<mapsto> m\<lparr>handle := 0, acquired := False\<rparr>, i \<mapsto> l), e)"
proof -
  let ?ls = "ls(j \<mapsto> m\<lparr>handle := 0, acquired := False\<rparr>, i \<mapsto> l)"
  have w: "owns_lock ?ls k h \<longleftrightarrow> (if k = i then owns_lock ls j h else k \<noteq> j \<and> owns_lock ls k h)" for k h
    using j l(1) by (auto simp: owns_lock_def)
  have ex: "(\<exists>k. owns_lock ?ls k h) \<longleftrightarrow> (\<exists>k. owns_lock ls k h)" for h
    unfolding w using i j(2) by metis
  have uniq: "owns_lock ls j h \<Longrightarrow> owns_lock ls k h \<Longrightarrow> j = k" for j k h
    using ok by (simp add: locks_ok_def)
  show ?thesis
  proof (rule locks_okI)
    fix k n
    assume "?ls k = Some n"
    then have k: "(if k = i then Some l else if k = j then Some (m\<lparr>handle := 0, acquired := False\<rparr>) else ls k) = Some n"
      by (simp only: fun_upd_apply)
    show "pm_rel cnt n e"
    proof (cases "k = i \<or> k = j")
      case True
      have "pm_rel cnt l e" using locks_okD(1)[OF ok j(1)] l by (simp add: pm_rel_def)
      moreover have "pm_rel cnt (m\<lparr>handle := 0, acquired := False\<rparr>) e" by (simp add: pm_rel_def)
      ultimately show ?thesis using True k by (cases "k = i") simp_all
    next
      case False
      with k show ?thesis by (intro locks_okD(1)[OF ok, of k]) simp
    qed
  next
    fix k k' h
    assume "owns_lock ?ls k h" "owns_lock ?ls k' h"
    then have "owns_lock ls (if k = i then j else k) h \<and> owns_lock ls (if k' = i then j else k') h \<and>
        (k \<noteq> i \<longrightarrow> k \<noteq> j) \<and> (k' \<noteq> i \<longrightarrow> k' \<noteq> j)"
      unfolding w by (metis (full_types))
    then show "k = k'" using uniq by metis
  next
    fix h
    show "if \<exists>k. owns_lock ?ls k h then base h = None else cnt e h = base h"
      unfolding ex by (rule locks_okD(3)[OF ok])
  qed
qed

lemma on_lock_ok:
  assumes "locks_ok cnt base p" "on_lock i p f = Some p'"
    and "\<And>l. pm_rel cnt l (snd p) \<Longrightarrow>
      case f l (snd p) of (l', e') \<Rightarrow> pm_rel cnt l' e' \<and> others cnt (l', e') = others cnt (l, snd p)"
  shows "locks_ok cnt base p'"
proof -
  obtain ls e where p: "p = (ls, e)" by fastforce
  obtain l where i: "ls i = Some l" using assms(2) by (auto simp: on_lock_def p bind_eq_Some_conv)
  obtain l' e' where f: "f l e = (l', e')" by fastforce
  have l: "ls i = Some l" "f l e = (l', e')" "p' = (ls(i \<mapsto> l'), e')"
    using assms(2) i f by (simp_all add: on_lock_def p)
  with assms(3)[of l] locks_okD(1)[OF assms(1)[unfolded p] l(1)] show ?thesis
    using locks_keep[OF assms(1)[unfolded p] l(1), of l' e' "Some l'"] by (simp add: p)
qed

lemma lock_run_ok:
  assumes laws: "pm_laws api cnt" and ok: "locks_ok cnt base p" and run: "lock_run api c p = Some p'"
  shows "locks_ok cnt base p'"
proof -
  obtain ls e where p: "p = (ls, e)" by fastforce
  note ok' = ok[unfolded p]
  show ?thesis
  proof (cases c)
    case (NewLock i k)
    with run have i: "ls i = None" "p' = (ls(i \<mapsto> pm_lock_new k), e)" by (auto simp: p split: if_splits)
    then have w: "owns_lock (ls(i \<mapsto> pm_lock_new k)) j h = owns_lock ls j h" for j h
      by (auto simp: owns_lock_def pm_lock_new_def)
    have "pm_rel cnt (pm_lock_new k) e" by (simp add: pm_rel_def pm_lock_new_def)
    note t = \<open>pm_rel cnt (pm_lock_new k) e\<close>
    show ?thesis
      unfolding i(2)
    proof (rule locks_okI)
      fix j l
      show "(ls(i \<mapsto> pm_lock_new k)) j = Some l \<Longrightarrow> pm_rel cnt l e"
        using t locks_okD(1)[OF ok'] by (auto split: if_splits)
    next
      fix j j' h
      show "owns_lock (ls(i \<mapsto> pm_lock_new k)) j h \<Longrightarrow> owns_lock (ls(i \<mapsto> pm_lock_new k)) j' h \<Longrightarrow> j = j'"
        unfolding w using ok' by (simp add: locks_ok_def)
    next
      fix h
      show "if \<exists>j. owns_lock (ls(i \<mapsto> pm_lock_new k)) j h then base h = None else cnt e h = base h"
        unfolding w by (rule locks_okD(3)[OF ok'])
    qed
  next
    case (MoveNew i j)
    with run obtain m where m: "ls i = None" "ls j = Some m" "p' = (ls(j \<mapsto> m\<lparr>handle := 0, acquired := False\<rparr>,
        i \<mapsto> \<lparr>handle = handle m, lock_kind = lock_kind m, acquired = acquired m\<rparr>), e)"
      by (auto simp: p move_construct_def bind_eq_Some_conv split: if_splits)
    then have "i \<noteq> j" by auto
    with locks_move[OF ok' _ m(2)] m show ?thesis by (simp add: owns_lock_def)
  next
    case (MoveTo i j)
    with run obtain l m where lm: "ls i = Some l" "ls j = Some m" by (auto simp: p bind_eq_Some_conv)
    obtain err l' e' where e: "enable api False l e = (err, l', e')" by (cases rule: prod_cases3)
    have l': "pm_rel cnt l' e' \<and> others cnt (l', e') = others cnt (l, e) \<and> handle l' = 0"
      using enable_rel[OF laws locks_okD(1)[OF ok' lm(1)], of False] e by simp
    show ?thesis
    proof (cases "i = j")
      case True
      with MoveTo run ok lm show ?thesis by (simp add: p)
    next
      case False
      have "locks_ok cnt base (ls(i \<mapsto> l'), e')" using locks_keep[OF ok' lm(1), of l' e' "Some l'"] l' by simp
      from locks_move[OF this, of i j m "l'\<lparr>handle := handle m, lock_kind := lock_kind m, acquired := acquired m\<rparr>"]
      show ?thesis using False MoveTo run lm l'
        by (auto simp: p move_assign_def e owns_lock_def fun_upd_twist)
    qed
  next
    case (EnableLock i en)
    with on_lock_ok[OF ok, of i "\<lambda>l e. snd (enable api en l e)" p'] run enable_rel[OF laws, of _ "snd p" en]
    show ?thesis by (fastforce split: prod.splits)
  next
    case (AcquireLock i)
    with on_lock_ok[OF ok, of i "\<lambda>l e. snd (acquire_if_enabled api l e)" p'] run acquire_rel[OF laws, of _ "snd p"]
    show ?thesis by (fastforce split: prod.splits)
  next
    case (ReleaseLock i)
    with on_lock_ok[OF ok, of i "\<lambda>l e. snd (release api l e)" p'] run release_rel[OF laws, of _ "snd p"]
    show ?thesis by (fastforce split: prod.splits)
  next
    case (DestroyLock i)
    with run obtain l where i: "ls i = Some l" by (auto simp: p bind_eq_Some_conv)
    obtain err l' e' where d: "enable api False l e = (err, l', e')" by (cases rule: prod_cases3)
    have l: "ls i = Some l" "enable api False l e = (err, l', e')" "p' = (ls(i := None), e')"
      using run DestroyLock i d by (simp_all add: p)
    with enable_rel[OF laws locks_okD(1)[OF ok' l(1)], of False] locks_keep[OF ok' l(1), of l' e' None] show ?thesis by simp
  qed
qed

lemma lock_runs_ok:
  "pm_laws api cnt \<Longrightarrow> locks_ok cnt base p \<Longrightarrow> lock_runs api cs p = Some p' \<Longrightarrow> locks_ok cnt base p'"
  by (induction cs arbitrary: p) (auto simp: bind_eq_Some_conv dest: lock_run_ok)

section \<open>Properties\<close>

text \<open>C34: No lock leaks and none is deleted twice: after any program over any number of \<open>PmLock\<close> objects, which constructs,
  moves, enables, disables, acquires, releases and destroys them in any order, whatever fails on the way, the
  driver's lock of every enabled object is acquired exactly as its object says, at most once; no two objects have the same lock;
  every other lock of the driver is as it was before the program; so that when all objects are gone, the driver has
  exactly the locks it had before, each with its count.\<close>

theorem pm_lock_no_leak:
  assumes "pm_laws api cnt" "lock_runs api cs (Map.empty, e) = Some (ls, e')"
  shows "(\<forall>i l. ls i = Some l \<longrightarrow>
      (if is_enabled l then cnt e' (handle l) = Some (if acquired l then 1 else 0) else \<not> acquired l)) \<and>
    (\<forall>i j h. owns_lock ls i h \<longrightarrow> owns_lock ls j h \<longrightarrow> i = j) \<and>
    (\<forall>h. if \<exists>i. owns_lock ls i h then cnt e h = None else cnt e' h = cnt e h) \<and>
    (ls = Map.empty \<longrightarrow> cnt e' = cnt e)"
proof -
  have "locks_ok cnt (cnt e) (Map.empty, e)" by (simp add: locks_ok_def owns_lock_def)
  from lock_runs_ok[OF assms(1) this assms(2)] show ?thesis
    unfolding locks_ok_def fst_conv snd_conv by (auto simp: is_enabled_def pm_rel_def owns_lock_def fun_eq_iff)
qed

theorem pm_lock_no_leak_witness:
  "\<exists>ls e'. lock_runs list_api [NewLock 0 NoLightSleep, EnableLock 0 True, AcquireLock 0, NewLock 1 ApbFreqMax,
      EnableLock 1 True, MoveTo 1 0, MoveNew 2 1, DestroyLock 0, DestroyLock 1] (Map.empty, []) = Some (ls, e') \<and>
    owns_lock ls 2 1 \<and> count_at e' 1 = Some 1 \<and> count_at e' 2 = None"
proof -
  let ?cs = "[NewLock 0 NoLightSleep, EnableLock 0 True, AcquireLock 0, NewLock 1 ApbFreqMax,
      EnableLock 1 True, MoveTo 1 0, MoveNew 2 1, DestroyLock 0, DestroyLock 1]"
  obtain ls e' where r: "lock_runs list_api ?cs (Map.empty, []) = Some (ls, e')" "ls 2 = Some \<lparr>handle = 1, lock_kind = NoLightSleep, acquired = True\<rparr>"
    "ls 0 = None" "ls 1 = None" "e' = [Some 1, None]"
    by (simp add: on_lock_def pm_lock_new_def enable_def is_enabled_def create_or_delete_def list_api_def count_at_def
        acquire_if_enabled_def move_assign_def move_construct_def owns_lock_def)
  have "if is_enabled l then count_at e' (handle l) = Some (if acquired l then 1 else 0) else \<not> acquired l" if "ls 2 = Some l" for l
    using pm_lock_no_leak[OF list_api_laws r(1)] that by blast
  from this[OF r(2)] have "count_at e' 1 = Some 1" by (simp add: is_enabled_def)
  moreover have "owns_lock ls 2 1" using r(2) by (simp add: owns_lock_def)
  ultimately show ?thesis using r(1,5) by (auto simp: count_at_def)
qed

end
