(* ===== verification/Nvs.thy ===== *)
theory Nvs
  imports Result
begin

text \<open>
  \<open>NvsStore\<close> (\<open>nvs_store.hpp\<close>, \<open>nvs_store.cpp\<close>): the wrapper of the key-value storage of ESP-IDF. The
  storage library is not part of the repository: its functions are the fields of the parameter \<open>api\<close>
  over a state of any type \<open>'e\<close>, and what the wrapper relies on is \<open>nvs_laws\<close>, stated over the entries
  that a handle sees.
\<close>

section \<open>The storage library\<close>

abbreviation ESP_ERR_NVS_NOT_FOUND :: esp_err where "ESP_ERR_NVS_NOT_FOUND \<equiv> 0x1102"
abbreviation ESP_ERR_NVS_TYPE_MISMATCH :: esp_err where "ESP_ERR_NVS_TYPE_MISMATCH \<equiv> 0x1103"
abbreviation ESP_ERR_NVS_INVALID_LENGTH :: esp_err where "ESP_ERR_NVS_INVALID_LENGTH \<equiv> 0x110C"
abbreviation ESP_ERR_NVS_NO_FREE_PAGES :: esp_err where "ESP_ERR_NVS_NO_FREE_PAGES \<equiv> 0x110D"
abbreviation ESP_ERR_NVS_NEW_VERSION_FOUND :: esp_err where "ESP_ERR_NVS_NEW_VERSION_FOUND \<equiv> 0x1110"

datatype nvs_open_mode = NVS_READONLY | NVS_READWRITE | NVS_READWRITE_PURGE

text \<open>
  A getter of variable length takes the contents of the caller's buffer (\<^const>\<open>None\<close> for a null
  pointer) and the length passed in, and gives the contents of the buffer and the length after it.
\<close>

record 'e nvs_api =
  flash_init :: "'e \<Rightarrow> esp_err \<times> 'e"
  flash_erase :: "'e \<Rightarrow> esp_err \<times> 'e"
  api_open :: "bytes \<Rightarrow> nvs_open_mode \<Rightarrow> 'e \<Rightarrow> esp_err \<times> 32 word \<times> 'e"
  api_close :: "32 word \<Rightarrow> 'e \<Rightarrow> 'e"
  api_set_i32 :: "32 word \<Rightarrow> bytes \<Rightarrow> 32 word \<Rightarrow> 'e \<Rightarrow> esp_err \<times> 'e"
  api_get_i32 :: "32 word \<Rightarrow> bytes \<Rightarrow> 'e \<Rightarrow> esp_err \<times> 32 word"
  api_set_u32 :: "32 word \<Rightarrow> bytes \<Rightarrow> 32 word \<Rightarrow> 'e \<Rightarrow> esp_err \<times> 'e"
  api_get_u32 :: "32 word \<Rightarrow> bytes \<Rightarrow> 'e \<Rightarrow> esp_err \<times> 32 word"
  api_set_str :: "32 word \<Rightarrow> bytes \<Rightarrow> bytes \<Rightarrow> 'e \<Rightarrow> esp_err \<times> 'e"
  api_get_str :: "32 word \<Rightarrow> bytes \<Rightarrow> bytes option \<Rightarrow> nat \<Rightarrow> 'e \<Rightarrow> esp_err \<times> bytes option \<times> nat"
  api_set_blob :: "32 word \<Rightarrow> bytes \<Rightarrow> bytes \<Rightarrow> 'e \<Rightarrow> esp_err \<times> 'e"
  api_get_blob :: "32 word \<Rightarrow> bytes \<Rightarrow> bytes option \<Rightarrow> nat \<Rightarrow> 'e \<Rightarrow> esp_err \<times> bytes option \<times> nat"
  api_commit :: "32 word \<Rightarrow> 'e \<Rightarrow> esp_err \<times> 'e"

section \<open>The wrapper\<close>

record nvs_store =
  nvs_handle :: "32 word"

text \<open>
  The default state, \<open>operator bool\<close>, and the keys: a string literal of more than 15 characters does not
  compile (\<^const>\<open>None\<close>).
\<close>

definition store_new :: nvs_store where
  "store_new = \<lparr>nvs_handle = 0\<rparr>"

definition store_bool :: "nvs_store \<Rightarrow> bool" where
  "store_bool s \<longleftrightarrow> nvs_handle s \<noteq> 0"

definition nvs_key :: "bytes \<Rightarrow> bytes option" where
  "nvs_key key = (if length key + 1 \<le> 16 then Some key else None)"

text \<open>\<open>EspResult<void>\<close> is its error code.\<close>

definition init_flash :: "'e nvs_api \<Rightarrow> 'e \<Rightarrow> esp_err \<times> 'e" where
  "init_flash api e =
     (let (err, e) = flash_init api e in
      if err = ESP_ERR_NVS_NO_FREE_PAGES \<or> err = ESP_ERR_NVS_NEW_VERSION_FOUND then
        (let (erase_err, e) = flash_erase api e in
         if erase_err \<noteq> ESP_OK then (erase_err, e) else flash_init api e)
      else (err, e))"

definition store_open :: "'e nvs_api \<Rightarrow> bytes \<Rightarrow> nvs_open_mode \<Rightarrow> 'e \<Rightarrow> nvs_store esp_result \<times> 'e" where
  "store_open api namespace_name mode e =
     (let (err, h, e) = api_open api namespace_name mode e in
      (if err \<noteq> ESP_OK then result_fail err else result_ok \<lparr>nvs_handle = h\<rparr>, e))"

definition store_close :: "'e nvs_api \<Rightarrow> nvs_store \<Rightarrow> 'e \<Rightarrow> nvs_store \<times> 'e" where
  "store_close api s e =
     (if nvs_handle s \<noteq> 0 then (s\<lparr>nvs_handle := 0\<rparr>, api_close api (nvs_handle s) e) else (s, e))"

definition store_move_construct :: "nvs_store \<Rightarrow> nvs_store \<times> nvs_store" where
  "store_move_construct other = (\<lparr>nvs_handle = nvs_handle other\<rparr>, other\<lparr>nvs_handle := 0\<rparr>)"

definition store_move_assign :: "'e nvs_api \<Rightarrow> nvs_store \<Rightarrow> nvs_store \<Rightarrow> 'e \<Rightarrow> nvs_store \<times> nvs_store \<times> 'e" where
  "store_move_assign api s other e =
     (let (s, e) = store_close api s e in (s\<lparr>nvs_handle := nvs_handle other\<rparr>, other\<lparr>nvs_handle := 0\<rparr>, e))"

definition set_i32 :: "'e nvs_api \<Rightarrow> nvs_store \<Rightarrow> bytes \<Rightarrow> 32 word \<Rightarrow> 'e \<Rightarrow> esp_err \<times> 'e" where
  "set_i32 api s key v e =
     (if nvs_handle s = 0 then (ESP_ERR_INVALID_STATE, e) else api_set_i32 api (nvs_handle s) key v e)"

definition get_i32 :: "'e nvs_api \<Rightarrow> nvs_store \<Rightarrow> bytes \<Rightarrow> 'e \<Rightarrow> 32 word esp_result" where
  "get_i32 api s key e =
     (if nvs_handle s = 0 then result_fail ESP_ERR_INVALID_STATE
      else let (err, v) = api_get_i32 api (nvs_handle s) key e in
           if err \<noteq> ESP_OK then result_fail err else result_ok v)"

definition set_u32 :: "'e nvs_api \<Rightarrow> nvs_store \<Rightarrow> bytes \<Rightarrow> 32 word \<Rightarrow> 'e \<Rightarrow> esp_err \<times> 'e" where
  "set_u32 api s key v e =
     (if nvs_handle s = 0 then (ESP_ERR_INVALID_STATE, e) else api_set_u32 api (nvs_handle s) key v e)"

definition get_u32 :: "'e nvs_api \<Rightarrow> nvs_store \<Rightarrow> bytes \<Rightarrow> 'e \<Rightarrow> 32 word esp_result" where
  "get_u32 api s key e =
     (if nvs_handle s = 0 then result_fail ESP_ERR_INVALID_STATE
      else let (err, v) = api_get_u32 api (nvs_handle s) key e in
           if err \<noteq> ESP_OK then result_fail err else result_ok v)"

definition set_string :: "'e nvs_api \<Rightarrow> nvs_store \<Rightarrow> bytes \<Rightarrow> bytes \<Rightarrow> 'e \<Rightarrow> esp_err \<times> 'e" where
  "set_string api s key v e =
     (if nvs_handle s = 0 then (ESP_ERR_INVALID_STATE, e) else api_set_str api (nvs_handle s) key v e)"

definition get_string_length :: "'e nvs_api \<Rightarrow> nvs_store \<Rightarrow> bytes \<Rightarrow> 'e \<Rightarrow> nat esp_result" where
  "get_string_length api s key e =
     (if nvs_handle s = 0 then result_fail ESP_ERR_INVALID_STATE
      else let (err, _, len) = api_get_str api (nvs_handle s) key None 0 e in
           if err \<noteq> ESP_OK then result_fail err else result_ok len)"

definition get_string :: "'e nvs_api \<Rightarrow> nvs_store \<Rightarrow> bytes \<Rightarrow> bytes \<Rightarrow> nat \<Rightarrow> 'e \<Rightarrow> esp_err \<times> bytes" where
  "get_string api s key buffer max_len e =
     (if nvs_handle s = 0 then (ESP_ERR_INVALID_STATE, buffer)
      else let (err, out, _) = api_get_str api (nvs_handle s) key (Some buffer) max_len e in (err, the out))"

definition set_raw_blob :: "'e nvs_api \<Rightarrow> nvs_store \<Rightarrow> bytes \<Rightarrow> bytes \<Rightarrow> 'e \<Rightarrow> esp_err \<times> 'e" where
  "set_raw_blob api s key data e =
     (if nvs_handle s = 0 then (ESP_ERR_INVALID_STATE, e) else api_set_blob api (nvs_handle s) key data e)"

definition get_raw_blob :: "'e nvs_api \<Rightarrow> nvs_store \<Rightarrow> bytes \<Rightarrow> bytes \<Rightarrow> nat \<Rightarrow> 'e \<Rightarrow> esp_err \<times> bytes" where
  "get_raw_blob api s key data len e =
     (if nvs_handle s = 0 then (ESP_ERR_INVALID_STATE, data)
      else let (err, _, required_size) = api_get_blob api (nvs_handle s) key None 0 e in
        if err \<noteq> ESP_OK then (err, data)
        else if required_size \<noteq> len then (ESP_ERR_INVALID_SIZE, data)
        else let (err, out, _) = api_get_blob api (nvs_handle s) key (Some data) required_size e in (err, the out))"

text \<open>\<open>set_blob\<close> and \<open>get_blob\<close> of a trivially copyable type: its bytes, \<open>n = sizeof(T)\<close>.\<close>

definition get_blob :: "'e nvs_api \<Rightarrow> nvs_store \<Rightarrow> bytes \<Rightarrow> nat \<Rightarrow> 'e \<Rightarrow> bytes esp_result" where
  "get_blob api s key n e =
     (let (err, out) = get_raw_blob api s key (replicate n CHR 0x00) n e in
      if err = ESP_OK then result_ok out else result_fail err)"

definition set_blob :: "'e nvs_api \<Rightarrow> nvs_store \<Rightarrow> bytes \<Rightarrow> bytes \<Rightarrow> 'e \<Rightarrow> esp_err \<times> 'e" where
  "set_blob api s key value_bytes e = set_raw_blob api s key value_bytes e"

definition commit_store :: "'e nvs_api \<Rightarrow> nvs_store \<Rightarrow> 'e \<Rightarrow> esp_err \<times> 'e" where
  "commit_store api s e =
     (if nvs_handle s = 0 then (ESP_ERR_INVALID_STATE, e) else api_commit api (nvs_handle s) e)"

section \<open>Schema migration\<close>

text \<open>
  The migration function receives the store by reference and the current version; it may change both
  the store and what is in it. The last component of the result is the list of versions it was
  called with.
\<close>

definition schema_key :: bytes where
  "schema_key = ''_schema_ver''"

definition migrate_schema :: "'e nvs_api \<Rightarrow> 32 word \<Rightarrow> (32 word \<Rightarrow> nvs_store \<times> 'e \<Rightarrow> nvs_store \<times> 'e) \<Rightarrow>
    nvs_store \<Rightarrow> 'e \<Rightarrow> esp_err \<times> nvs_store \<times> 'e \<times> 32 word list" where
  "migrate_schema api target migration_func s e =
     (if nvs_handle s = 0 then (ESP_ERR_INVALID_STATE, s, e, [])
      else let version_res = get_u32 api s schema_key e in
        if \<not> result_bool version_res \<and> res_err version_res \<noteq> ESP_ERR_NVS_NOT_FOUND
        then (res_err version_res, s, e, [])
        else let current = (if result_bool version_res then the (deref version_res) else 0) in
          if current < target then
            let (s, e) = migration_func current (s, e);
                (err, e) = set_u32 api s schema_key target e
            in if err \<noteq> ESP_OK then (err, s, e, [current])
               else let (err, e) = commit_store api s e in
                 (if err \<noteq> ESP_OK then err else ESP_OK, s, e, [current])
          else (ESP_OK, s, e, []))"

section \<open>What the storage promises\<close>

datatype nvs_entry = EI32 "32 word" | EU32 "32 word" | EStr bytes | EBlob bytes

text \<open>
  \<open>view e h\<close> is what handle \<open>h\<close> sees. Reading an entry with its own type succeeds, a missing key is
  reported as such; a write may fail (flash wears out), and a successful
  one is seen by the next read; committing changes nothing that is seen. A buffer that is too short
  for a blob is an error, one that is long enough receives the blob.
\<close>

definition nvs_laws :: "'e nvs_api \<Rightarrow> ('e \<Rightarrow> 32 word \<Rightarrow> bytes \<Rightarrow> nvs_entry option) \<Rightarrow> bool" where
  "nvs_laws api view \<longleftrightarrow>
     (\<forall>h k e v. view e h k = Some (EU32 v) \<longrightarrow> api_get_u32 api h k e = (ESP_OK, v)) \<and>
     (\<forall>h k e. view e h k = None \<longrightarrow> fst (api_get_u32 api h k e) = ESP_ERR_NVS_NOT_FOUND) \<and>
     (\<forall>h k v e e'. api_set_u32 api h k v e = (ESP_OK, e') \<longrightarrow> view e' h = (view e h)(k \<mapsto> EU32 v)) \<and>
     (\<forall>h e. view (snd (api_commit api h e)) h = view e h) \<and>
     (\<forall>h k d e e'. api_set_blob api h k d e = (ESP_OK, e') \<longrightarrow> view e' h = (view e h)(k \<mapsto> EBlob d)) \<and>
     (\<forall>h k d e len. view e h k = Some (EBlob d) \<longrightarrow> api_get_blob api h k None len e = (ESP_OK, None, length d)) \<and>
     (\<forall>h k d e b len. view e h k = Some (EBlob d) \<longrightarrow> length d \<le> len \<longrightarrow>
        api_get_blob api h k (Some b) len e = (ESP_OK, Some (d @ drop (length d) b), length d))"

lemma nvs_lawsD:
  assumes "nvs_laws api view"
  shows "view e h k = Some (EU32 v) \<Longrightarrow> api_get_u32 api h k e = (ESP_OK, v)"
    and "view e h k = None \<Longrightarrow> fst (api_get_u32 api h k e) = ESP_ERR_NVS_NOT_FOUND"
    and "api_set_u32 api h k v e = (ESP_OK, e') \<Longrightarrow> view e' h = (view e h)(k \<mapsto> EU32 v)"
    and "view (snd (api_commit api h e)) h = view e h"
    and "api_set_blob api h k d e = (ESP_OK, e') \<Longrightarrow> view e' h = (view e h)(k \<mapsto> EBlob d)"
    and "view e h k = Some (EBlob d) \<Longrightarrow> api_get_blob api h k None len e = (ESP_OK, None, length d)"
    and "view e h k = Some (EBlob d) \<Longrightarrow> length d \<le> len \<Longrightarrow>
      api_get_blob api h k (Some b) len e = (ESP_OK, Some (d @ drop (length d) b), length d)"
  using assms unfolding nvs_laws_def by auto

text \<open>The version a store has, 0 when none is stored.\<close>

definition schema_version :: "('e \<Rightarrow> 32 word \<Rightarrow> bytes \<Rightarrow> nvs_entry option) \<Rightarrow> nvs_store \<Rightarrow> 'e \<Rightarrow> 32 word" where
  "schema_version view s e = (case view e (nvs_handle s) schema_key of Some (EU32 v) \<Rightarrow> v | _ \<Rightarrow> 0)"

lemma get_version:
  assumes "nvs_laws api view" "nvs_handle s \<noteq> 0"
    and "view e (nvs_handle s) schema_key \<in> insert None (range (Some \<circ> EU32))"
  obtains (stored) "get_u32 api s schema_key e = result_ok (schema_version view s e)"
  | (missing) "get_u32 api s schema_key e = result_fail ESP_ERR_NVS_NOT_FOUND" "schema_version view s e = 0"
proof (cases "view e (nvs_handle s) schema_key")
  case None
  with nvs_lawsD(2)[OF assms(1) None] assms(2) have
    "get_u32 api s schema_key e = result_fail ESP_ERR_NVS_NOT_FOUND" "schema_version view s e = 0"
    by (auto simp: get_u32_def schema_version_def split: prod.splits)
  then show ?thesis by (rule missing)
next
  case (Some x)
  with assms(3) obtain v where v: "view e (nvs_handle s) schema_key = Some (EU32 v)" by auto
  show ?thesis
    by (rule stored) (simp add: get_u32_def schema_version_def v assms(2) nvs_lawsD(1)[OF assms(1) v])
qed

lemma migrate_cases:
  assumes "nvs_laws api view" "nvs_handle s \<noteq> 0"
    and "view e (nvs_handle s) schema_key \<in> insert None (range (Some \<circ> EU32))"
  shows "migrate_schema api target mig s e =
    (let v = schema_version view s e in
     if v < target then
       let (s, e) = mig v (s, e); (err, e) = set_u32 api s schema_key target e
       in if err \<noteq> ESP_OK then (err, s, e, [v])
          else let (err, e) = commit_store api s e in (err, s, e, [v])
     else (ESP_OK, s, e, []))"
  using assms
  by (cases rule: get_version[OF assms])
    (simp_all add: migrate_schema_def result_defs Let_def if_distrib cong: if_cong split: prod.splits)

lemma closed_refuses:
  assumes "nvs_handle s = 0"
  shows "set_i32 api s k v e = (ESP_ERR_INVALID_STATE, e) \<and> get_i32 api s k e = result_fail ESP_ERR_INVALID_STATE \<and>
      set_u32 api s k v e = (ESP_ERR_INVALID_STATE, e) \<and> get_u32 api s k e = result_fail ESP_ERR_INVALID_STATE \<and>
      set_string api s k str e = (ESP_ERR_INVALID_STATE, e) \<and>
      get_string_length api s k e = result_fail ESP_ERR_INVALID_STATE \<and>
      get_string api s k buf m e = (ESP_ERR_INVALID_STATE, buf) \<and>
      set_blob api s k str e = (ESP_ERR_INVALID_STATE, e) \<and> get_blob api s k m e = result_fail ESP_ERR_INVALID_STATE \<and>
      commit_store api s e = (ESP_ERR_INVALID_STATE, e) \<and>
      migrate_schema api target mig s e = (ESP_ERR_INVALID_STATE, s, e, []) \<and>
      store_close api s e = (s, e) \<and> \<not> store_bool s"
  using assms
  by (simp add: set_i32_def get_i32_def set_u32_def get_u32_def set_string_def get_string_length_def get_string_def
      set_blob_def set_raw_blob_def get_blob_def get_raw_blob_def commit_store_def migrate_schema_def store_close_def
      store_bool_def)

lemma set_version:
  assumes "nvs_laws api view" "set_u32 api s schema_key v e = (ESP_OK, e')"
  shows "nvs_handle s \<noteq> 0" "view e' (nvs_handle s) schema_key = Some (EU32 v)"
  using assms nvs_lawsD(3)[OF assms(1), of "nvs_handle s" schema_key v e e']
  by (auto simp: set_u32_def split: if_splits)

lemma commit_view:
  assumes "nvs_laws api view" "commit_store api s e = (err, e')"
  shows "view e' (nvs_handle s) = view e (nvs_handle s)"
  using assms nvs_lawsD(4)[OF assms(1), of "nvs_handle s" e] by (auto simp: commit_store_def split: if_splits)

section \<open>A storage\<close>

text \<open>One namespace in memory: the laws can hold.\<close>

definition mem_api :: "(bytes \<Rightarrow> nvs_entry option) nvs_api" where
  "mem_api =
     \<lparr>flash_init = (\<lambda>e. (ESP_OK, e)), flash_erase = (\<lambda>e. (ESP_OK, \<lambda>k. None)),
      api_open = (\<lambda>n m e. (ESP_OK, 1, e)), api_close = (\<lambda>h e. e),
      api_set_i32 = (\<lambda>h k v e. (ESP_OK, e(k \<mapsto> EI32 v))),
      api_get_i32 = (\<lambda>h k e. case e k of Some (EI32 v) \<Rightarrow> (ESP_OK, v) | _ \<Rightarrow> (ESP_ERR_NVS_NOT_FOUND, 0)),
      api_set_u32 = (\<lambda>h k v e. (ESP_OK, e(k \<mapsto> EU32 v))),
      api_get_u32 = (\<lambda>h k e. case e k of Some (EU32 v) \<Rightarrow> (ESP_OK, v) | _ \<Rightarrow> (ESP_ERR_NVS_NOT_FOUND, 0)),
      api_set_str = (\<lambda>h k v e. (ESP_OK, e(k \<mapsto> EStr v))),
      api_get_str = (\<lambda>h k b n e. case e k of Some (EStr v) \<Rightarrow> (ESP_OK, b, length v + 1) | _ \<Rightarrow> (ESP_ERR_NVS_NOT_FOUND, b, n)),
      api_set_blob = (\<lambda>h k v e. (ESP_OK, e(k \<mapsto> EBlob v))),
      api_get_blob = (\<lambda>h k b n e. case e k of
          Some (EBlob v) \<Rightarrow> (case b of None \<Rightarrow> (ESP_OK, None, length v)
            | Some b \<Rightarrow> if length v \<le> n then (ESP_OK, Some (v @ drop (length v) b), length v)
                      else (ESP_ERR_NVS_INVALID_LENGTH, Some b, length v))
        | _ \<Rightarrow> (ESP_ERR_NVS_NOT_FOUND, b, n)),
      api_commit = (\<lambda>h e. (ESP_OK, e))\<rparr>"

lemma mem_api_laws: "nvs_laws mem_api (\<lambda>e h. e)"
  by (auto simp: nvs_laws_def mem_api_def split: option.splits nvs_entry.splits)

section \<open>Properties\<close>

text \<open>C35: A schema migration runs exactly once: on an open store whose version is missing (0) or a number,
  the migration function is called exactly when the version is below the target, and with that version;
  otherwise nothing changes. When \<open>migrate_schema\<close> succeeds after a migration the target version is
  stored, and a second call does nothing.\<close>

theorem migrate_once:
  assumes "nvs_laws api view" "nvs_handle s \<noteq> 0"
    and "view e (nvs_handle s) schema_key \<in> insert None (range (Some \<circ> EU32))"
  shows "case migrate_schema api target mig s e of (err, s', e', calls) \<Rightarrow>
    (if schema_version view s e < target
     then calls = [schema_version view s e] \<and>
       (err = ESP_OK \<longrightarrow> view e' (nvs_handle s') schema_key = Some (EU32 target))
     else (err, s', e', calls) = (ESP_OK, s, e, [])) \<and>
    (err = ESP_OK \<longrightarrow> migrate_schema api target mig2 s' e' = (ESP_OK, s', e', []))"
proof (cases "schema_version view s e < target")
  case False
  then show ?thesis by (simp add: migrate_cases[OF assms] Let_def)
next
  case True
  obtain s1 e1 where m: "mig (schema_version view s e) (s, e) = (s1, e1)" by fastforce
  obtain err2 e2 where w: "set_u32 api s1 schema_key target e1 = (err2, e2)" by fastforce
  obtain err3 e3 where c: "commit_store api s1 e2 = (err3, e3)" by fastforce
  have again: "migrate_schema api target mig2 s1 e3 = (ESP_OK, s1, e3, [])" and
    stored: "view e3 (nvs_handle s1) schema_key = Some (EU32 target)" if "err2 = ESP_OK"
  proof -
    from set_version[OF assms(1), of s1 target e1 e2] w that
    have "nvs_handle s1 \<noteq> 0" "view e2 (nvs_handle s1) schema_key = Some (EU32 target)" by simp_all
    then show stored: "view e3 (nvs_handle s1) schema_key = Some (EU32 target)"
      using commit_view[OF assms(1) c] by simp
    then show "migrate_schema api target mig2 s1 e3 = (ESP_OK, s1, e3, [])"
      using \<open>nvs_handle s1 \<noteq> 0\<close> migrate_cases[OF assms(1), of s1 e3]
      by (simp add: schema_version_def Let_def)
  qed
  with True show ?thesis by (auto simp: migrate_cases[OF assms] m w c Let_def)
qed

theorem migrate_once_witness:
  "migrate_schema mem_api 2 (\<lambda>v (s, e). (s, e)) \<lparr>nvs_handle = 1\<rparr> [schema_key \<mapsto> EU32 2] =
     (ESP_OK, \<lparr>nvs_handle = 1\<rparr>, [schema_key \<mapsto> EU32 2], [])"
  using migrate_once[OF mem_api_laws, where s = "\<lparr>nvs_handle = 1\<rparr>" and e = "[schema_key \<mapsto> EU32 2]"
      and target = 2 and mig = "\<lambda>v (s, e). (s, e)"]
  by (auto simp: schema_version_def split: prod.splits prod.split_asm)

text \<open>C37: A blob that was stored is read back as it was exactly with a type of its size; with a type of
  another size \<open>get_blob\<close> fails with \<open>ESP_ERR_INVALID_SIZE\<close> and never hands out a partly filled
  value. A closed store refuses every operation, the getters and setters of all types, \<open>commit\<close> and
  \<open>migrate_schema\<close>, with \<open>ESP_ERR_INVALID_STATE\<close>: nothing is written, the caller's buffer stays as it was, and the
  migration function is not called; closing it again does nothing.\<close>

theorem blob_round_trip:
  assumes "nvs_laws api view" "set_blob api s key d e = (ESP_OK, e')"
  shows "get_blob api s key n e' =
      (if n = length d then result_ok d else result_fail ESP_ERR_INVALID_SIZE) \<and>
    (case store_close api s e' of (s', e1) \<Rightarrow>
      set_i32 api s' k v e2 = (ESP_ERR_INVALID_STATE, e2) \<and> get_i32 api s' k e2 = result_fail ESP_ERR_INVALID_STATE \<and>
      set_u32 api s' k v e2 = (ESP_ERR_INVALID_STATE, e2) \<and> get_u32 api s' k e2 = result_fail ESP_ERR_INVALID_STATE \<and>
      set_string api s' k str e2 = (ESP_ERR_INVALID_STATE, e2) \<and>
      get_string_length api s' k e2 = result_fail ESP_ERR_INVALID_STATE \<and>
      get_string api s' k buf m e2 = (ESP_ERR_INVALID_STATE, buf) \<and>
      set_blob api s' k str e2 = (ESP_ERR_INVALID_STATE, e2) \<and> get_blob api s' k m e2 = result_fail ESP_ERR_INVALID_STATE \<and>
      commit_store api s' e2 = (ESP_ERR_INVALID_STATE, e2) \<and>
      migrate_schema api target mig s' e2 = (ESP_ERR_INVALID_STATE, s', e2, []) \<and>
      store_close api s' e2 = (s', e2) \<and> \<not> store_bool s')"
proof -
  have h: "nvs_handle s \<noteq> 0" and set: "api_set_blob api (nvs_handle s) key d e = (ESP_OK, e')"
    using assms(2) by (auto simp: set_blob_def set_raw_blob_def split: if_splits)
  have v: "view e' (nvs_handle s) key = Some (EBlob d)"
    using nvs_lawsD(5)[OF assms(1) set] by simp
  have "get_blob api s key n e' = (if n = length d then result_ok d else result_fail ESP_ERR_INVALID_SIZE)"
    using h by (auto simp: get_blob_def get_raw_blob_def nvs_lawsD(6)[OF assms(1) v] nvs_lawsD(7)[OF assms(1) v])
  moreover obtain s' e1 where c: "store_close api s e' = (s', e1)" by fastforce
  moreover have "nvs_handle s' = 0" using c by (auto simp: store_close_def split: if_splits)
  ultimately show ?thesis by (simp only: closed_refuses prod.case simp_thms)
qed

theorem blob_round_trip_witness:
  "get_blob mem_api \<lparr>nvs_handle = 1\<rparr> ''cfg'' 2 [''cfg'' \<mapsto> EBlob ''ab''] = result_ok ''ab''"
  using blob_round_trip[OF mem_api_laws, where s = "\<lparr>nvs_handle = 1\<rparr>" and key = "''cfg''" and d = "''ab''"
      and e = "\<lambda>k. None" and e' = "[''cfg'' \<mapsto> EBlob ''ab'']" and n = 2]
  by (simp add: set_blob_def set_raw_blob_def mem_api_def)

end
