(* ===== verification/Nvs_Emulated.thy ===== *)
theory Nvs_Emulated
  imports Nvs Numbers
begin

text \<open>
  The replacement of \<open>nvs_store.cpp\<close> that host builds link (\<open>src/emulated/espbase/nvs_store.cpp\<close>): a map
  of strings per partition. \<^const>\<open>None\<close> is an access without a defined result (a \<open>std::string\<close> from a null
  pointer, a read of an uninitialised variable, a write behind a buffer) or an exception of \<open>stol\<close>.
\<close>

abbreviation ESP_ERR_NOT_SUPPORTED :: esp_err where "ESP_ERR_NOT_SUPPORTED \<equiv> 0x106"

record fake_state =
  last_partition_name :: "bytes option"
  fake_store :: "bytes \<Rightarrow> (bytes \<Rightarrow> bytes option) option"

definition fake_init :: fake_state where
  "fake_init = \<lparr>last_partition_name = None, fake_store = (\<lambda>p. None)\<rparr>"

text \<open>\<open>fake_store[last_partition_name]\<close> inserts an empty map when there is none.\<close>

definition fake_partition :: "fake_state \<Rightarrow> (bytes \<times> (bytes \<Rightarrow> bytes option) \<times> fake_state) option" where
  "fake_partition f = do {
     p \<leftarrow> last_partition_name f;
     Some (case fake_store f p of
         Some m \<Rightarrow> (p, m, f)
       | None \<Rightarrow> (p, \<lambda>k. None, f\<lparr>fake_store := (fake_store f)(p \<mapsto> (\<lambda>k. None))\<rparr>)) }"

definition fake_put :: "bytes \<Rightarrow> bytes \<Rightarrow> fake_state \<Rightarrow> fake_state option" where
  "fake_put key s f = do {
     (p, m, f) \<leftarrow> fake_partition f;
     Some (f\<lparr>fake_store := (fake_store f)(p \<mapsto> m(key \<mapsto> s))\<rparr>) }"

text \<open>\<open>std::to_string\<close>, and \<open>std::stol\<close> (\<open>std::stoul\<close>): white space, a sign and the digits up to the first
  other character; no digits or a value outside of 64 bits is an exception.\<close>

definition set_num :: "bytes \<Rightarrow> int \<Rightarrow> fake_state \<Rightarrow> (esp_err \<times> fake_state) option" where
  "set_num key v f = do { f \<leftarrow> fake_put key (int_string v) f; Some (ESP_OK, f) }"

definition is_space :: "char \<Rightarrow> bool" where
  "is_space c \<longleftrightarrow> c = CHR '' '' \<or> 9 \<le> byte_of c \<and> byte_of c \<le> 13"

definition stol :: "bool \<Rightarrow> bytes \<Rightarrow> int option" where
  "stol uns s =
     (let s = dropWhile is_space s;
          neg = (s \<noteq> [] \<and> hd s = CHR ''-'');
          s = (if s \<noteq> [] \<and> (hd s = CHR ''-'' \<or> hd s = CHR ''+'') then tl s else s);
          ds = takeWhile is_digit s;
          n = int (dec_value ds);
          v = (if neg then - n else n)
      in if ds = [] then None
         else if uns then (if n < 2 ^ 64 then Some v else None)
         else if - (2 ^ 63) \<le> v \<and> v < 2 ^ 63 then Some v else None)"

text \<open>\<open>get_num\<close> for an integral type; the second component is what it stored to \<open>out_value\<close>.\<close>

definition get_num :: "bool \<Rightarrow> bytes \<Rightarrow> fake_state \<Rightarrow> (esp_err \<times> 32 word option \<times> fake_state) option" where
  "get_num uns key f = do {
     (p, m, f) \<leftarrow> fake_partition f;
     case m key of
       None \<Rightarrow> Some (ESP_ERR_NVS_NOT_FOUND, None, f)
     | Some s \<Rightarrow> do { v \<leftarrow> stol uns s; Some (ESP_OK, Some (word_of_int v), f) } }"

text \<open>\<open>get_str\<close>: the buffer is \<^const>\<open>None\<close> for a null pointer; \<open>strncpy\<close> fills all of \<open>*length\<close>.\<close>

definition get_str :: "bytes \<Rightarrow> bytes option \<Rightarrow> nat \<Rightarrow> fake_state \<Rightarrow> (esp_err \<times> bytes option \<times> nat \<times> fake_state) option" where
  "get_str key out_value len f = do {
     (p, m, f) \<leftarrow> fake_partition f;
     case m key of
       None \<Rightarrow> Some (ESP_ERR_NVS_NOT_FOUND, out_value, len, f)
     | Some stored_value \<Rightarrow>
         (case out_value of
            None \<Rightarrow> Some (ESP_OK, None, length stored_value + 1, f)
          | Some buf \<Rightarrow>
              if len < length stored_value + 1 then Some (ESP_ERR_NVS_INVALID_LENGTH, Some buf, len, f)
              else if length buf < len then None
              else let c = takeWhile (\<lambda>c. c \<noteq> ch_nul) stored_value in
                Some (ESP_OK, Some (c @ replicate (len - length c) ch_nul @ drop len buf), len, f)) }"

section \<open>The members\<close>

definition emu_open :: "nvs_store esp_result" where
  "emu_open = result_ok \<lparr>nvs_handle = 1\<rparr>"

definition emu_close :: "nvs_store \<Rightarrow> nvs_store" where
  "emu_close s = s"

definition emu_set_i32 :: "bytes \<Rightarrow> 32 word \<Rightarrow> fake_state \<Rightarrow> (esp_err \<times> fake_state) option" where
  "emu_set_i32 key v f = set_num key (sint v) f"

definition emu_get_i32 :: "bytes \<Rightarrow> fake_state \<Rightarrow> (32 word esp_result \<times> fake_state) option" where
  "emu_get_i32 key f = do {
     (err, val, f) \<leftarrow> get_num False key f;
     if err \<noteq> ESP_OK then do { v \<leftarrow> val; Some (result_ok v, f) }
     else Some (result_fail ESP_ERR_NVS_NOT_FOUND, f) }"

definition emu_set_u32 :: "bytes \<Rightarrow> 32 word \<Rightarrow> fake_state \<Rightarrow> (esp_err \<times> fake_state) option" where
  "emu_set_u32 key v f = set_num key (uint v) f"

definition emu_get_u32 :: "bytes \<Rightarrow> fake_state \<Rightarrow> (32 word esp_result \<times> fake_state) option" where
  "emu_get_u32 key f = do {
     (err, val, f) \<leftarrow> get_num True key f;
     if err \<noteq> ESP_OK then do { v \<leftarrow> val; Some (result_ok v, f) }
     else Some (result_fail ESP_ERR_NVS_NOT_FOUND, f) }"

definition emu_set_string :: "bytes \<Rightarrow> bytes \<Rightarrow> fake_state \<Rightarrow> (esp_err \<times> fake_state) option" where
  "emu_set_string key v f = do { f \<leftarrow> fake_put key v f; Some (ESP_OK, f) }"

definition emu_get_string_length :: "nvs_store \<Rightarrow> bytes \<Rightarrow> fake_state \<Rightarrow> (nat esp_result \<times> fake_state) option" where
  "emu_get_string_length s key f =
     (if nvs_handle s = 0 then Some (result_fail ESP_ERR_INVALID_STATE, f)
      else do {
        (err, _, len, f) \<leftarrow> get_str key None 0 f;
        Some (if err \<noteq> ESP_OK then result_fail err else result_ok len, f) })"

definition emu_get_string :: "bytes \<Rightarrow> bytes \<Rightarrow> nat \<Rightarrow> fake_state \<Rightarrow> (esp_err \<times> bytes \<times> fake_state) option" where
  "emu_get_string key dst max_len f = do {
     (err, out, _, f) \<leftarrow> get_str key (Some dst) max_len f;
     Some (err, the out, f) }"

definition emu_raw_blob :: esp_err where
  "emu_raw_blob = ESP_ERR_NOT_SUPPORTED"

definition emu_commit :: esp_err where
  "emu_commit = ESP_OK"

section \<open>Strings and numbers of the store\<close>

lemma fake_put_partition:
  assumes "fake_put key s f = Some f'"
  obtains p m where "fake_partition f' = Some (p, m, f')" "m key = Some s"
  using assms
  by (auto simp: fake_put_def fake_partition_def split: Option.bind_splits prod.splits option.splits)

lemma stol_int_string:
  assumes "- (2 ^ 63) \<le> v" "v < 2 ^ 63"
  shows "stol uns (int_string v) = Some v"
proof -
  have d: "takeWhile is_digit (dec_string n) = dec_string n" for n
    using is_digit_dec_string by (simp add: takeWhile_eq_all_conv)
  have hd: "is_digit (hd (dec_string n))" for n
    using is_digit_dec_string[of n] by (meson dec_string_nonempty list.set_sel(1))
  have not_space: "\<not> is_space (hd (dec_string n))" "hd (dec_string n) \<noteq> CHR ''-''"
    "hd (dec_string n) \<noteq> CHR ''+''" for n
    using hd[of n] by (auto simp: is_digit_def is_space_def)
  have w: "dropWhile is_space (dec_string n) = dec_string n" for n
    using not_space(1)[of n] dec_string_nonempty[of n] by (cases "dec_string n") auto
  have m: "\<not> is_space CHR ''-''" by (simp add: is_space_def)
  show ?thesis
    using assms by (auto simp: stol_def int_string_def Let_def d w m not_space)
qed

section \<open>Numbers are lost, strings are kept\<close>

lemma fake_put_Some: "last_partition_name f = Some p \<Longrightarrow> \<exists>f'. fake_put key s f = Some f'"
  by (auto simp: fake_put_def fake_partition_def split: option.splits)

lemma emu_set_i32_get:
  assumes "fake_put key (int_string (sint v)) f = Some f'"
  shows "emu_set_i32 key v f = Some (ESP_OK, f')"
    "emu_get_i32 key f' = Some (result_fail ESP_ERR_NVS_NOT_FOUND, f')"
proof -
  have "- (2 ^ 63) \<le> sint v" "sint v < 2 ^ 63"
    using sint_ge[of v] sint_less[of v] by simp_all
  then have s: "stol False (int_string (sint v)) = Some (sint v)" by (rule stol_int_string)
  from fake_put_partition[OF assms] obtain p m where
    "fake_partition f' = Some (p, m, f')" "m key = Some (int_string (sint v))" .
  then show "emu_get_i32 key f' = Some (result_fail ESP_ERR_NVS_NOT_FOUND, f')"
    by (simp add: emu_get_i32_def get_num_def s)
  show "emu_set_i32 key v f = Some (ESP_OK, f')"
    using assms by (simp add: emu_set_i32_def set_num_def)
qed

lemma emu_set_u32_get:
  assumes "fake_put key (int_string (uint v)) f = Some f'"
  shows "emu_set_u32 key v f = Some (ESP_OK, f')"
    "emu_get_u32 key f' = Some (result_fail ESP_ERR_NVS_NOT_FOUND, f')"
proof -
  have "- (2 ^ 63) \<le> uint v" "uint v < 2 ^ 63"
    using uint_lt2p[of v] order_trans[OF _ uint_ge_0[of v], of "- (2 ^ 63)"] by simp_all
  then have s: "stol True (int_string (uint v)) = Some (uint v)" by (rule stol_int_string)
  from fake_put_partition[OF assms] obtain p m where
    "fake_partition f' = Some (p, m, f')" "m key = Some (int_string (uint v))" .
  then show "emu_get_u32 key f' = Some (result_fail ESP_ERR_NVS_NOT_FOUND, f')"
    by (simp add: emu_get_u32_def get_num_def s)
  show "emu_set_u32 key v f = Some (ESP_OK, f')"
    using assms by (simp add: emu_set_u32_def set_num_def)
qed

lemma emu_string_get:
  assumes "fake_put key s f = Some f'" "ch_nul \<notin> set s" "length s + 1 \<le> length buf"
  shows "emu_set_string key s f = Some (ESP_OK, f')"
    "emu_get_string key buf (length s + 1) f' = Some (ESP_OK, s @ ch_nul # drop (length s + 1) buf, f')"
proof -
  from fake_put_partition[OF assms(1)] obtain p m where
    "fake_partition f' = Some (p, m, f')" "m key = Some s" .
  moreover have "takeWhile (\<lambda>c. c \<noteq> ch_nul) s = s" using assms(2) by (auto simp: takeWhile_eq_all_conv)
  moreover have "replicate (Suc (length s) - length s) ch_nul = [ch_nul]" by (simp add: Suc_diff_le)
  ultimately show "emu_get_string key buf (length s + 1) f' = Some (ESP_OK, s @ ch_nul # drop (length s + 1) buf, f')"
    using assms(3) by (simp add: emu_get_string_def get_str_def Let_def Suc_diff_le del: takeWhile_eq_all_conv)
  show "emu_set_string key s f = Some (ESP_OK, f')"
    using assms(1) by (simp add: emu_set_string_def)
qed

section \<open>Properties\<close>

text \<open>The emulated store as it is written: \<open>last_partition_name\<close> is null initially (and nothing assigns
  it), and while it is null every access is undefined. Were it set, a string would be read back as it was
  stored, but a number never would: after a successful \<open>set_i32\<close> or \<open>set_u32\<close> the getter reports
  \<open>ESP_ERR_NVS_NOT_FOUND\<close>, because the test of the error code is inverted.\<close>

theorem emulated_numbers_lost:
  assumes "last_partition_name f = Some p" "last_partition_name g = last_partition_name fake_init"
    and "ch_nul \<notin> set s" "length s + 1 \<le> length buf"
  shows "(emu_set_i32 key v g = None \<and> emu_get_i32 key g = None \<and> emu_set_string key s g = None) \<and>
    (\<exists>f'. emu_set_i32 key v f = Some (ESP_OK, f') \<and>
       emu_get_i32 key f' = Some (result_fail ESP_ERR_NVS_NOT_FOUND, f')) \<and>
    (\<exists>f'. emu_set_u32 key v f = Some (ESP_OK, f') \<and>
       emu_get_u32 key f' = Some (result_fail ESP_ERR_NVS_NOT_FOUND, f')) \<and>
    (\<exists>f'. emu_set_string key s f = Some (ESP_OK, f') \<and>
       emu_get_string key buf (length s + 1) f' = Some (ESP_OK, s @ ch_nul # drop (length s + 1) buf, f'))"
  (is "?null \<and> ?i32 \<and> ?u32 \<and> ?str")
proof (intro conjI)
  show "emu_set_i32 key v g = None" "emu_get_i32 key g = None" "emu_set_string key s g = None"
    using assms(2) by (simp_all add: emu_set_i32_def set_num_def emu_get_i32_def get_num_def emu_set_string_def
        fake_put_def fake_partition_def fake_init_def)
  show ?i32 using fake_put_Some[OF assms(1)] emu_set_i32_get by blast
  show ?u32 using fake_put_Some[OF assms(1)] emu_set_u32_get by blast
  show ?str using fake_put_Some[OF assms(1)] emu_string_get[OF _ assms(3,4)] by blast
qed

theorem emulated_numbers_lost_witness:
  "\<exists>f'. emu_set_i32 ''n'' 5 (fake_init\<lparr>last_partition_name := Some ''nvs''\<rparr>) = Some (ESP_OK, f') \<and>
     emu_get_i32 ''n'' f' = Some (result_fail ESP_ERR_NVS_NOT_FOUND, f')"
  using emulated_numbers_lost[where f = "fake_init\<lparr>last_partition_name := Some ''nvs''\<rparr>" and p = "''nvs''"
      and g = fake_init and s = "''ab''" and buf = "''xyz''" and key = "''n''" and v = 5]
  by simp

end
