(* ===== verification/Nvs_Handles.thy ===== *)
theory Nvs_Handles
  imports Nvs
begin

text \<open>
  The ownership of storage handles (\<open>NvsStore\<close> of \<open>nvs_store.hpp\<close>, \<open>nvs_store.cpp\<close>): any number of store objects
  that are opened, moved, closed and destroyed. The locale \<open>nvs_handles\<close> states what the storage library
  does with handles; the development shows that every open handle has exactly one owner.
\<close>

section \<open>The interface\<close>

locale nvs_handles =
  fixes api :: "'e nvs_api" and opened :: "'e \<Rightarrow> 32 word set"
  assumes open_law: "api_open api ns mode e = (err, h, e') \<Longrightarrow>
      if err = ESP_OK then h \<noteq> 0 \<and> h \<notin> opened e \<and> opened e' = insert h (opened e) else opened e' = opened e"
    and close_law: "opened (api_close api h e) = opened e - {h}"
    and access_laws: "opened (snd (api_set_u32 api h k v e)) = opened e"
      "opened (snd (api_set_blob api h k d e)) = opened e" "opened (snd (api_commit api h e)) = opened e"

section \<open>Programs over stores\<close>

text \<open>
  The live objects by their addresses. An operation on an object that is not live, or the construction of
  one that is, has no result. A move assignment to the object itself is guarded in the code.
\<close>

type_synonym 'e pool = "(nat \<Rightarrow> nvs_store option) \<times> 'e"

datatype store_op =
    Construct nat
  | OpenInto nat bytes nvs_open_mode
  | MoveConstruct nat nat
  | MoveAssign nat nat
  | Close nat
  | Destroy nat
  | SetU32 nat bytes "32 word"
  | SetBlob nat bytes bytes
  | Commit nat

definition fresh :: "nat \<Rightarrow> 'e pool \<Rightarrow> nvs_store \<times> 'e \<Rightarrow> 'e pool option" where
  "fresh i p s = (if fst p i = None then Some ((fst p)(i \<mapsto> fst s), snd s) else None)"

definition on_store :: "nat \<Rightarrow> 'e pool \<Rightarrow> (nvs_store \<Rightarrow> 'e \<Rightarrow> nvs_store option \<times> 'e) \<Rightarrow> 'e pool option" where
  "on_store i p f = do { s \<leftarrow> fst p i; let (s, e) = f s (snd p) in Some ((fst p)(i := s), e) }"

fun store_run :: "'e nvs_api \<Rightarrow> store_op \<Rightarrow> 'e pool \<Rightarrow> 'e pool option" where
  "store_run api (Construct i) p = fresh i p (store_new, snd p)"
| "store_run api (OpenInto i ns mode) p =
     (let (r, e) = store_open api ns mode (snd p)
      in case res_value r of None \<Rightarrow> Some (fst p, e) | Some s \<Rightarrow> fresh i p (s, e))"
| "store_run api (MoveConstruct i j) p =
     do { other \<leftarrow> fst p j;
          let (s, other) = store_move_construct other in fresh i ((fst p)(j \<mapsto> other), snd p) (s, snd p) }"
| "store_run api (MoveAssign i j) p =
     do { s \<leftarrow> fst p i; other \<leftarrow> fst p j;
          if i = j then Some p
          else let (s, other, e) = store_move_assign api s other (snd p) in Some ((fst p)(i \<mapsto> s, j \<mapsto> other), e) }"
| "store_run api (Close i) p = on_store i p (\<lambda>s e. let (s, e) = store_close api s e in (Some s, e))"
| "store_run api (Destroy i) p = on_store i p (\<lambda>s e. (None, snd (store_close api s e)))"
| "store_run api (SetU32 i k v) p = on_store i p (\<lambda>s e. (Some s, snd (set_u32 api s k v e)))"
| "store_run api (SetBlob i k d) p = on_store i p (\<lambda>s e. (Some s, snd (set_blob api s k d e)))"
| "store_run api (Commit i) p = on_store i p (\<lambda>s e. (Some s, snd (commit_store api s e)))"

fun store_runs :: "'e nvs_api \<Rightarrow> store_op list \<Rightarrow> 'e pool \<Rightarrow> 'e pool option" where
  "store_runs api [] p = Some p"
| "store_runs api (c # cs) p = do { p \<leftarrow> store_run api c p; store_runs api cs p }"

section \<open>Owners\<close>

definition owns :: "(nat \<Rightarrow> nvs_store option) \<Rightarrow> nat \<Rightarrow> 32 word \<Rightarrow> bool" where
  "owns ss i h \<longleftrightarrow> (\<exists>s. ss i = Some s \<and> nvs_handle s = h \<and> h \<noteq> 0)"

definition owned :: "(nat \<Rightarrow> nvs_store option) \<Rightarrow> 32 word set" where
  "owned ss = {h. \<exists>i. owns ss i h}"

text \<open>\<open>base\<close> are the handles that others have open.\<close>

definition owners_ok :: "('e \<Rightarrow> 32 word set) \<Rightarrow> 32 word set \<Rightarrow> 'e pool \<Rightarrow> bool" where
  "owners_ok opened base p \<longleftrightarrow>
     (\<forall>h. h \<in> opened (snd p) \<longleftrightarrow> h \<in> base \<or> (\<exists>i. owns (fst p) i h)) \<and> (\<forall>i h. owns (fst p) i h \<longrightarrow> h \<notin> base) \<and>
     (\<forall>i j h. owns (fst p) i h \<longrightarrow> owns (fst p) j h \<longrightarrow> i = j)"

text \<open>A store that gives its handle up, a store that gets a new one, and a handle that changes its owner.\<close>

lemma owned_drop:
  assumes "owners_ok opened base (ss, e)" "\<And>h. h \<in> opened e' \<longleftrightarrow> h \<in> opened e \<and> \<not> owns ss i h"
    and "s' = None \<or> (\<exists>x. s' = Some x \<and> nvs_handle x = 0)"
  shows "owners_ok opened base (ss(i := s'), e')"
proof -
  have w: "owns (ss(i := s')) j h \<longleftrightarrow> j \<noteq> i \<and> owns ss j h" for j h using assms(3) by (auto simp: owns_def)
  have "(\<exists>k. k \<noteq> i \<and> owns ss k h) \<longleftrightarrow> (\<exists>k. owns ss k h) \<and> \<not> owns ss i h" for h
    using assms(1) unfolding owners_ok_def fst_conv by metis
  then show ?thesis using assms(1) by (auto simp: owners_ok_def w assms(2))
qed

lemma owned_add:
  assumes "owners_ok opened base (ss, e)" "ss i = None" "nvs_handle s \<noteq> 0 \<Longrightarrow> nvs_handle s \<notin> opened e"
    and "\<And>h. h \<in> opened e' \<longleftrightarrow> h \<in> opened e \<or> h \<noteq> 0 \<and> h = nvs_handle s"
  shows "owners_ok opened base (ss(i \<mapsto> s), e')"
proof -
  have w: "owns (ss(i \<mapsto> s)) j h \<longleftrightarrow> (if j = i then h \<noteq> 0 \<and> h = nvs_handle s else owns ss j h)" for j h by (auto simp: owns_def)
  have n: "\<not> owns ss i h" for h using assms(2) by (simp add: owns_def)
  have ex: "(\<exists>k. if k = i then h \<noteq> 0 \<and> h = nvs_handle s else owns ss k h) \<longleftrightarrow> h \<noteq> 0 \<and> h = nvs_handle s \<or> (\<exists>k. owns ss k h)" for h
    using n by metis
  show ?thesis using assms(1,3) unfolding owners_ok_def w ex fst_conv snd_conv assms(4)
    by (auto split: if_splits)
qed

lemma owned_move:
  assumes "owners_ok opened base (ss, e)" "\<And>h. \<not> owns ss i h" "ss j = Some s" "i \<noteq> j" "nvs_handle t = nvs_handle s"
  shows "owners_ok opened base (ss(j \<mapsto> s\<lparr>nvs_handle := 0\<rparr>, i \<mapsto> t), e)"
proof -
  have w: "owns (ss(j \<mapsto> s\<lparr>nvs_handle := 0\<rparr>, i \<mapsto> t)) k h \<longleftrightarrow> (if k = i then owns ss j h else k \<noteq> j \<and> owns ss k h)" for k h
    using assms(3-5) by (auto simp: owns_def)
  have ex: "(\<exists>k. if k = i then owns ss j h else k \<noteq> j \<and> owns ss k h) \<longleftrightarrow> (\<exists>k. owns ss k h)" for h
    using assms(2,4) by metis
  show ?thesis using assms(1) unfolding owners_ok_def w ex fst_conv snd_conv
    by (auto split: if_splits)
qed

section \<open>Every operation keeps one owner per handle\<close>

context nvs_handles
begin

lemma close_owner:
  assumes "owners_ok opened base (ss, e)" "ss i = Some s" "store_close api s e = (s', e')"
    and "x = None \<or> x = Some s'"
  shows "nvs_handle s' = 0" "owners_ok opened base (ss(i := x), e')"
proof -
  show h: "nvs_handle s' = 0" using assms(3) by (auto simp: store_close_def split: if_splits)
  have "h \<in> opened e' \<longleftrightarrow> h \<in> opened e \<and> \<not> owns ss i h" for h
    using assms(2,3) close_law by (auto simp: store_close_def owns_def split: if_splits)
  from owned_drop[OF assms(1) this] assms(4) h show "owners_ok opened base (ss(i := x), e')" by blast
qed

lemma keep_owner:
  assumes "owners_ok opened base (ss, e)" "ss i = Some s" "opened e' = opened e"
  shows "owners_ok opened base (ss(i \<mapsto> s), e')"
  using assms by (simp add: owners_ok_def fun_upd_idem)

lemma access_owner:
  assumes "owners_ok opened base (ss, e)" "\<And>s. opened (snd (g s)) = opened e"
    and "on_store i (ss, e) (\<lambda>s e. (Some s, snd (g s))) = Some p'"
  shows "owners_ok opened base p'"
  using assms keep_owner[OF assms(1)] by (auto simp: on_store_def split: Option.bind_splits)

lemma open_owner:
  assumes "owners_ok opened base (ss, e)" "store_run api (OpenInto i ns mode) (ss, e) = Some p'"
  shows "owners_ok opened base p'"
proof -
  obtain err h e' where o: "api_open api ns mode e = (err, h, e')" by (cases rule: prod_cases3)
  show ?thesis
  proof (cases "err = ESP_OK")
    case True
    with assms(2) o have "ss i = None" "p' = (ss(i \<mapsto> \<lparr>nvs_handle = h\<rparr>), e')"
      by (auto simp: fresh_def store_open_def result_ok_def split: if_splits)
    then show ?thesis using owned_add[OF assms(1), of i "\<lparr>nvs_handle = h\<rparr>" e'] open_law[OF o] True by auto
  next
    case False
    with assms(2) o have "p' = (ss, e')" by (simp add: store_open_def result_fail_def)
    with assms(1) open_law[OF o] False show ?thesis by (simp add: owners_ok_def)
  qed
qed

lemma assign_owner:
  assumes ok: "owners_ok opened base (ss, e)" and run: "store_run api (MoveAssign i j) (ss, e) = Some p'"
  shows "owners_ok opened base p'"
proof -
  from run obtain s t where st: "ss i = Some s" "ss j = Some t" by (auto split: Option.bind_splits)
  show ?thesis
  proof (cases "i = j")
    case True
    with run st ok show ?thesis by simp
  next
    case False
    obtain s' e' where c: "store_close api s e = (s', e')" by fastforce
    note closed = close_owner[OF ok st(1) c, of "Some s'"]
    have "p' = (ss(i \<mapsto> s'\<lparr>nvs_handle := nvs_handle t\<rparr>, j \<mapsto> t\<lparr>nvs_handle := 0\<rparr>), e')"
      using run st False c by (simp add: store_move_assign_def)
    moreover have "owners_ok opened base ((ss(i \<mapsto> s'))(j \<mapsto> t\<lparr>nvs_handle := 0\<rparr>, i \<mapsto> s'\<lparr>nvs_handle := nvs_handle t\<rparr>), e')"
      by (rule owned_move[OF closed(2)]) (use closed(1) st False in \<open>auto simp: owns_def\<close>)
    ultimately show ?thesis using False by (simp add: fun_upd_twist)
  qed
qed

lemma run_owner:
  assumes "owners_ok opened base p" "store_run api c p = Some p'"
  shows "owners_ok opened base p'"
proof -
  obtain ss e where p: "p = (ss, e)" by fastforce
  note ok = assms(1)[unfolded p] and run = assms(2)[unfolded p]
  show ?thesis
  proof (cases c)
    case (Construct i)
    with run have "ss i = None" "p' = (ss(i \<mapsto> \<lparr>nvs_handle = 0\<rparr>), e)" by (auto simp: fresh_def store_new_def split: if_splits)
    then show ?thesis using owned_add[OF ok, of i "\<lparr>nvs_handle = 0\<rparr>" e] by auto
  next
    case (MoveConstruct i j)
    with run obtain s where s: "ss j = Some s" "ss i = None" "i \<noteq> j"
      "p' = (ss(j \<mapsto> s\<lparr>nvs_handle := 0\<rparr>, i \<mapsto> \<lparr>nvs_handle = nvs_handle s\<rparr>), e)"
      by (auto simp: fresh_def store_move_construct_def split: Option.bind_splits if_splits)
    then show ?thesis using owned_move[OF ok, of i j s] by (simp add: owns_def)
  next
    case (Close i)
    with run obtain s s' e' where "ss i = Some s" "store_close api s e = (s', e')" "p' = (ss(i \<mapsto> s'), e')"
      by (auto simp: on_store_def split: Option.bind_splits prod.splits)
    with close_owner(2)[OF ok] show ?thesis by blast
  next
    case (Destroy i)
    with run obtain s where "ss i = Some s" "p' = (ss(i := None), snd (store_close api s e))"
      by (auto simp: on_store_def split: Option.bind_splits)
    with close_owner(2)[OF ok _ prod.collapse[symmetric]] show ?thesis by simp
  next
    case (SetU32 i k v)
    with run access_owner[OF ok, of "\<lambda>s. set_u32 api s k v e" i p'] access_laws(1) show ?thesis
      by (simp add: set_u32_def on_store_def)
  next
    case (SetBlob i k d)
    with run access_owner[OF ok, of "\<lambda>s. set_blob api s k d e" i p'] access_laws(2) show ?thesis
      by (simp add: set_blob_def set_raw_blob_def on_store_def)
  next
    case (Commit i)
    with run access_owner[OF ok, of "\<lambda>s. commit_store api s e" i p'] access_laws(3) show ?thesis
      by (simp add: commit_store_def on_store_def)
  qed (use run open_owner[OF ok] assign_owner[OF ok] in auto)
qed

lemma runs_owner: "owners_ok opened base p \<Longrightarrow> store_runs api cs p = Some p' \<Longrightarrow> owners_ok opened base p'"
  by (induction cs arbitrary: p) (auto split: Option.bind_splits dest: run_owner)

end

section \<open>An instance\<close>

text \<open>The storage in memory with a list of open handles: a new handle is the first number that is not in use.\<close>

definition handle_api :: "(32 word list \<times> (bytes \<Rightarrow> nvs_entry option)) nvs_api" where
  "handle_api =
     \<lparr>flash_init = (\<lambda>e. (ESP_OK, e)), flash_erase = (\<lambda>(hs, m). (ESP_OK, hs, snd (flash_erase mem_api m))),
      api_open = (\<lambda>ns mode (hs, m). case find (\<lambda>h. h \<notin> set hs) [1, 2, 3, 4] of
          Some h \<Rightarrow> (ESP_OK, h, h # hs, m) | None \<Rightarrow> (ESP_ERR_NO_MEM, 0, hs, m)),
      api_close = (\<lambda>h (hs, m). (removeAll h hs, m)),
      api_set_i32 = (\<lambda>h k v (hs, m). case api_set_i32 mem_api h k v m of (err, m) \<Rightarrow> (err, hs, m)),
      api_get_i32 = (\<lambda>h k (hs, m). api_get_i32 mem_api h k m),
      api_set_u32 = (\<lambda>h k v (hs, m). case api_set_u32 mem_api h k v m of (err, m) \<Rightarrow> (err, hs, m)),
      api_get_u32 = (\<lambda>h k (hs, m). api_get_u32 mem_api h k m),
      api_set_str = (\<lambda>h k v (hs, m). case api_set_str mem_api h k v m of (err, m) \<Rightarrow> (err, hs, m)),
      api_get_str = (\<lambda>h k b n (hs, m). api_get_str mem_api h k b n m),
      api_set_blob = (\<lambda>h k v (hs, m). case api_set_blob mem_api h k v m of (err, m) \<Rightarrow> (err, hs, m)),
      api_get_blob = (\<lambda>h k b n (hs, m). api_get_blob mem_api h k b n m),
      api_commit = (\<lambda>h (hs, m). (ESP_OK, hs, m))\<rparr>"

lemma find_fresh: "find (\<lambda>h. h \<notin> A) [1, 2, 3, 4 :: 32 word] = Some h \<Longrightarrow> h \<noteq> 0 \<and> h \<notin> A"
  by (auto split: if_splits)

interpretation mem_handles: nvs_handles handle_api "set \<circ> fst"
  by unfold_locales
    (auto simp: handle_api_def split: option.splits prod.splits simp del: find.simps dest: find_fresh)

section \<open>Properties\<close>

text \<open>C36: Every open handle has exactly one owner: after any program over any number of stores, which opens, moves,
  closes and destroys them and whose opens may fail, the library has open, beside those that others
  opened, exactly the handles of the live stores, each held by one store; so that when all
  stores are gone, nothing is left open.\<close>

theorem handles_have_one_owner:
  assumes "nvs_handles api opened" "store_runs api cs (Map.empty, e) = Some (ss, e')"
  shows "opened e' = opened e \<union> owned ss \<and> opened e \<inter> owned ss = {} \<and>
    (\<forall>i j h. owns ss i h \<longrightarrow> owns ss j h \<longrightarrow> i = j) \<and> (ss = Map.empty \<longrightarrow> opened e' = opened e)"
proof -
  have "owners_ok opened (opened e) (Map.empty, e)" by (simp add: owners_ok_def owned_def owns_def)
  from nvs_handles.runs_owner[OF assms(1) this assms(2)] show ?thesis
    by (auto simp: owners_ok_def) (auto simp: owned_def owns_def)
qed

theorem handles_have_one_owner_witness:
  "\<exists>ss e'. store_runs handle_api [Construct 0, OpenInto 1 ''a'' NVS_READWRITE, OpenInto 2 ''b'' NVS_READONLY, MoveAssign 0 1,
      MoveAssign 0 2, Destroy 1, Destroy 2] (Map.empty, ([], Map.empty)) = Some (ss, e') \<and> (set \<circ> fst) e' = owned ss \<and>
    owns ss 0 2"
proof -
  let ?cs = "[Construct 0, OpenInto 1 ''a'' NVS_READWRITE, OpenInto 2 ''b'' NVS_READONLY, MoveAssign 0 1,
      MoveAssign 0 2, Destroy 1, Destroy 2]"
  obtain ss e' where r: "store_runs handle_api ?cs (Map.empty, ([], Map.empty)) = Some (ss, e')" "owns ss 0 2"
    by (simp add: fresh_def store_new_def on_store_def store_open_def store_close_def store_move_assign_def handle_api_def
        result_ok_def owns_def)
  from handles_have_one_owner[OF mem_handles.nvs_handles_axioms r(1)] r show ?thesis by auto
qed

end
