(* ===== verification/Ota_Watchdog.thy ===== *)
theory Ota_Watchdog
  imports Result
begin

text \<open>
  The rollback watchdog of an update (\<open>boot/ota_rollback_watchdog.cpp\<close>): unconfirmed firmware is marked
  valid when the configured number of startup gates has been passed, and the device restarts when a
  timer expires before that. The state of the running image belongs to ESP-IDF: it is read and marked
  through the parameter \<open>api\<close> over a state of any type \<open>'e\<close>. The calls into ESP-IDF that change
  something are recorded in a trace; \<open>Abort\<close> is the end of \<open>ESP_ERROR_CHECK\<close> on an error.
\<close>

datatype ota_img_state = ESP_OTA_IMG_NEW | ESP_OTA_IMG_PENDING_VERIFY | ESP_OTA_IMG_VALID
  | ESP_OTA_IMG_INVALID | ESP_OTA_IMG_ABORTED | ESP_OTA_IMG_UNDEFINED

record 'e ota_api =
  get_state_partition :: "'e \<Rightarrow> esp_err \<times> ota_img_state"
  mark_app_valid :: "'e \<Rightarrow> 'e"
  timer_create_err :: esp_err
  timer_start_err :: esp_err

datatype ota_call = TimerCreate | TimerStartOnce "64 word" | Abort | Restart | MarkValid | TimerStop | TimerDelete

text \<open>\<open>s_watchdog_timer\<close> (whether it is not null), \<open>startup_checks\<close> (an \<open>int\<close>) and ESP-IDF's state.\<close>

record 'e watchdog =
  timer_set :: bool
  startup_checks :: "32 word"
  ota_env :: 'e

definition pending :: "'e ota_api \<Rightarrow> 'e \<Rightarrow> bool" where
  "pending api e \<longleftrightarrow> get_state_partition api e = (ESP_OK, ESP_OTA_IMG_PENDING_VERIFY)"

definition watchdog_timer_callback :: "'e ota_api \<Rightarrow> 'e watchdog \<Rightarrow> ota_call list" where
  "watchdog_timer_callback api w = (if pending api (ota_env w) then [Restart] else [])"

definition start_ota_rollback_watchdog :: "'e ota_api \<Rightarrow> 32 word \<Rightarrow> 32 word \<Rightarrow> 'e watchdog \<Rightarrow> 'e watchdog \<times> ota_call list" where
  "start_ota_rollback_watchdog api checks timeout_ms w =
     (let w = w\<lparr>startup_checks := checks\<rparr> in
      if \<not> pending api (ota_env w) then (w, [])
      else if timer_create_err api \<noteq> ESP_OK then (w, [TimerCreate, Abort])
      else let w = w\<lparr>timer_set := True\<rparr> in
        (w, [TimerCreate, TimerStartOnce (ucast timeout_ms * 1000)] @
            (if timer_start_err api \<noteq> ESP_OK then [Abort] else [])))"

definition mark_ota_valid :: "'e ota_api \<Rightarrow> 'e watchdog \<Rightarrow> 'e watchdog \<times> ota_call list" where
  "mark_ota_valid api w =
     (if pending api (ota_env w) then
        let w = w\<lparr>ota_env := mark_app_valid api (ota_env w)\<rparr> in
        if timer_set w then (w\<lparr>timer_set := False\<rparr>, [MarkValid, TimerStop, TimerDelete])
        else (w, [MarkValid])
      else (w, []))"

definition startup_gate_passed :: "'e ota_api \<Rightarrow> 'e watchdog \<Rightarrow> 'e watchdog \<times> ota_call list" where
  "startup_gate_passed api w =
     (let w = w\<lparr>startup_checks := startup_checks w - 1\<rparr> in
      if startup_checks w = 0 then mark_ota_valid api w else (w, []))"

section \<open>Runs\<close>

text \<open>What happens after the start: gates are passed and the timer expires, in any order; \<open>esp_restart\<close>
  does not return.\<close>

datatype ota_event = Gate | Expire

fun ota_run :: "'e ota_api \<Rightarrow> ota_event list \<Rightarrow> 'e watchdog \<Rightarrow> ota_call list" where
  "ota_run api [] w = []"
| "ota_run api (Gate # evs) w = (let (w, calls) = startup_gate_passed api w in calls @ ota_run api evs w)"
| "ota_run api (Expire # evs) w =
     (let calls = watchdog_timer_callback api w in if Restart \<in> set calls then calls else calls @ ota_run api evs w)"

text \<open>The contract, with \<open>k\<close> gates to go.\<close>

fun gates_to_go :: "nat \<Rightarrow> ota_event list \<Rightarrow> ota_call list" where
  "gates_to_go k [] = []"
| "gates_to_go k (Gate # evs) =
     (if k = 1 then [MarkValid, TimerStop, TimerDelete] else []) @ gates_to_go (k - 1) evs"
| "gates_to_go k (Expire # evs) = (if 0 < k then [Restart] else gates_to_go k evs)"

definition gates :: "ota_event list \<Rightarrow> nat" where
  "gates evs = length (filter ((=) Gate) evs)"

lemma gates_simps [simp]: "gates [] = 0" "gates (Gate # evs) = Suc (gates evs)" "gates (Expire # evs) = gates evs"
  by (simp_all add: gates_def)

lemma run_not_pending: "\<not> pending api (ota_env w) \<Longrightarrow> ota_run api evs w = []"
proof (induction evs arbitrary: w)
  case (Cons ev evs)
  then show ?case
    by (cases ev) (auto simp: watchdog_timer_callback_def startup_gate_passed_def mark_ota_valid_def Let_def)
qed simp

section \<open>The counter and the contract\<close>

lemma gates_to_go_0: "gates_to_go 0 evs = []"
proof (induction evs)
  case (Cons ev evs)
  then show ?case by (cases ev) simp_all
qed simp

lemma run_gates_to_go:
  assumes law: "\<And>e. \<not> pending api (mark_app_valid api e)"
  shows "pending api (ota_env w) \<Longrightarrow> timer_set w \<Longrightarrow> startup_checks w \<noteq> 0 \<Longrightarrow>
    ota_run api evs w = gates_to_go (unat (startup_checks w)) evs"
proof (induction evs arbitrary: w)
  case (Cons ev evs)
  show ?case
  proof (cases ev)
    case Expire
    with Cons.prems show ?thesis by (auto simp: watchdog_timer_callback_def unat_gt_0)
  next
    case Gate
    show ?thesis
    proof (cases "startup_checks w = 1")
      case True
      with Gate Cons.prems show ?thesis
        by (simp add: startup_gate_passed_def mark_ota_valid_def Let_def run_not_pending law gates_to_go_0)
    next
      case False
      have "unat (startup_checks w) \<noteq> 1" unfolding unat_eq_1_iff by (rule False)
      moreover have "startup_checks w - 1 \<noteq> 0" using False by simp
      moreover have "unat (startup_checks w - 1) = unat (startup_checks w) - 1"
        by (rule unat_minus_one[OF Cons.prems(3)])
      ultimately show ?thesis
        using Gate Cons.prems False Cons.IH[of "w\<lparr>startup_checks := startup_checks w - 1\<rparr>"]
        by (simp add: startup_gate_passed_def Let_def)
    qed
  qed
qed simp

section \<open>Properties\<close>

text \<open>C38: When the timer can be created and started, there is a gate, and marking the image valid takes effect (the code
  ignores its result), then whatever the order of gates and of expiries of the timer: on an unconfirmed image the firmware is
  marked valid, and the timer stopped and deleted, exactly at the last of the \<open>checks\<close> gates; a timer
  that expires before that restarts the device; and neither ever happens afterwards, nor on an image
  that is already confirmed.\<close>

theorem watchdog_contract:
  assumes "\<And>e. \<not> pending api (mark_app_valid api e)"
    and "timer_create_err api = ESP_OK" "timer_start_err api = ESP_OK" "checks \<noteq> 0"
  shows "case start_ota_rollback_watchdog api checks timeout_ms w of (w', calls) \<Rightarrow>
    calls @ ota_run api evs w' =
      (if pending api (ota_env w)
       then [TimerCreate, TimerStartOnce (ucast timeout_ms * 1000)] @ gates_to_go (unat checks) evs else [])"
  using assms(2-4)
  by (simp add: start_ota_rollback_watchdog_def Let_def run_gates_to_go[OF assms(1)] run_not_pending)

theorem watchdog_contract_witness:
  "(let api = \<lparr>get_state_partition = (\<lambda>e. (ESP_OK, e)), mark_app_valid = (\<lambda>e. ESP_OTA_IMG_VALID),
              timer_create_err = ESP_OK, timer_start_err = ESP_OK\<rparr>;
        w = \<lparr>timer_set = False, startup_checks = 0, ota_env = ESP_OTA_IMG_PENDING_VERIFY\<rparr>
    in case start_ota_rollback_watchdog api 2 30 w of (w', calls) \<Rightarrow>
      calls @ ota_run api [Gate, Gate, Expire] w' =
        [TimerCreate, TimerStartOnce 30000, MarkValid, TimerStop, TimerDelete])"
  using watchdog_contract[where api = "\<lparr>get_state_partition = (\<lambda>e. (ESP_OK, e)), mark_app_valid = (\<lambda>e. ESP_OTA_IMG_VALID),
        timer_create_err = ESP_OK, timer_start_err = ESP_OK\<rparr>" and checks = 2 and timeout_ms = 30
      and w = "\<lparr>timer_set = False, startup_checks = 0, ota_env = ESP_OTA_IMG_PENDING_VERIFY\<rparr>"
      and evs = "[Gate, Gate, Expire]"]
  by (simp add: pending_def)

end
