(* ===== verification/Delayed_Pm.thy ===== *)
theory Delayed_Pm
  imports Prelude
begin

text \<open>
  \<open>delayed_pm_enable\<close> (\<open>boot/delayed_pm_enable.cpp\<close>): power management is switched on when a boot window
  closes, unless the boot button was pressed; with \<open>allow_override_after_boot_window\<close> a later press keeps
  the device awake by a lock. The button's interrupt and the timer's callback share \<open>s_state\<close> without
  a lock, and on a chip with two cores they run at the same time: both are cut at each of their reads and
  writes of it, and the steps interleave in any order. (The two reads of the callback's test are one step:
  what is written between them has the effect of a write before them.)
\<close>

datatype pm_state = BOOT_WINDOW_NO_OVERRIDE | BOOT_WINDOW_ALLOW_OVERRIDE | PM_ACTIVE_ALLOW_OVERRIDE
  | PM_ACTIVE_NO_OVERRIDE | PM_OVERRIDDEN

text \<open>Where \<open>delayed_pm_callback\<close> is: not called yet, past its test, past \<open>esp_pm_configure\<close>, with the new
  state computed but not stored, before the deferred deletion of its timer, and returned. \<open>NotArmed\<close>:
  the timer does not exist.\<close>

datatype cb_phase = NotArmed | Waiting | Passed | Configured | Computed pm_state | Deleting | Returned

record pm_boot_config =
  keep_usb_alive :: bool
  disable_sleep_on_gpio0_press :: bool
  allow_override_after_boot_window :: bool

text \<open>Where \<open>boot_button_isr\<close> is: not called, past its read of \<open>s_state\<close> (the value is \<open>was_active\<close>), past its write,
  and returned.\<close>

datatype isr_phase = IsrIdle | IsrRead pm_state | IsrWritten pm_state | IsrDone

text \<open>\<open>configured\<close>: light sleep has been enabled; \<open>pended\<close>: \<open>xTimerPendFunctionCallFromISR\<close> has been called for
  \<open>apply_pm_override\<close> (its result is ignored: a full queue drops the call); \<open>locked\<close>: that function has run.
  \<open>read_at\<close> and \<open>written_at\<close> record where the callback was when the interrupt read \<open>s_state\<close> and when it wrote it.\<close>

record pm_boot =
  s_state :: pm_state
  cb :: cb_phase
  isr_enabled :: bool
  isr :: isr_phase
  configured :: bool
  pended :: bool
  locked :: bool
  read_at :: "cb_phase option"
  written_at :: "cb_phase option"

definition delayed_pm_enable :: "bool \<Rightarrow> bool \<Rightarrow> pm_boot_config \<Rightarrow> pm_boot" where
  "delayed_pm_enable config_pm_enable config_tickless_idle config =
     (let b = \<lparr>s_state = BOOT_WINDOW_NO_OVERRIDE, cb = NotArmed, isr_enabled = False, isr = IsrIdle,
               configured = False, pended = False, locked = False, read_at = None, written_at = None\<rparr>
      in if \<not> config_pm_enable \<or> \<not> config_tickless_idle then b
         else let b = (if disable_sleep_on_gpio0_press config then
                         (if allow_override_after_boot_window config then b\<lparr>s_state := BOOT_WINDOW_ALLOW_OVERRIDE\<rparr> else b)
                           \<lparr>isr_enabled := True\<rparr>
                       else b)
              in b\<lparr>cb := Waiting\<rparr>)"

text \<open>The interrupt, one step per access; \<^const>\<open>None\<close> when it is not running. It disables itself, so it comes
  once.\<close>

definition boot_button_isr :: "pm_boot \<Rightarrow> pm_boot option" where
  "boot_button_isr b =
     (case isr b of
        IsrIdle \<Rightarrow> if isr_enabled b then Some (b\<lparr>isr := IsrRead (s_state b), read_at := Some (cb b)\<rparr>) else None
      | IsrRead was_active \<Rightarrow>
          Some (b\<lparr>s_state := PM_OVERRIDDEN, isr := IsrWritten was_active, written_at := Some (cb b)\<rparr>)
      | IsrWritten was_active \<Rightarrow>
          (let b = b\<lparr>isr_enabled := False, isr := IsrDone\<rparr>
           in Some (if was_active = PM_ACTIVE_ALLOW_OVERRIDE then b\<lparr>pended := True\<rparr> else b))
      | IsrDone \<Rightarrow> None)"

definition apply_pm_override :: "pm_boot \<Rightarrow> pm_boot" where
  "apply_pm_override b = b\<lparr>locked := True\<rparr>"

text \<open>The callback, one step per phase; \<^const>\<open>None\<close> when it is not running.\<close>

definition delayed_pm_callback :: "pm_boot \<Rightarrow> pm_boot option" where
  "delayed_pm_callback b =
     (case cb b of
        Waiting \<Rightarrow> Some (if s_state b = BOOT_WINDOW_NO_OVERRIDE \<or> s_state b = BOOT_WINDOW_ALLOW_OVERRIDE
                       then b\<lparr>cb := Passed\<rparr> else b\<lparr>cb := Deleting\<rparr>)
      | Passed \<Rightarrow> Some (b\<lparr>configured := True, cb := Configured\<rparr>)
      | Configured \<Rightarrow> Some (b\<lparr>cb := Computed (if s_state b = BOOT_WINDOW_NO_OVERRIDE
                                              then PM_ACTIVE_NO_OVERRIDE else PM_ACTIVE_ALLOW_OVERRIDE)\<rparr>)
      | Computed st \<Rightarrow> Some (b\<lparr>s_state := st, cb := Deleting\<rparr>)
      | Deleting \<Rightarrow> Some (b\<lparr>cb := Returned\<rparr>)
      | _ \<Rightarrow> None)"

section \<open>Interleavings\<close>

inductive pm_boot_step :: "pm_boot \<Rightarrow> pm_boot \<Rightarrow> bool" where
  timer: "delayed_pm_callback b = Some b' \<Longrightarrow> pm_boot_step b b'"
| button: "boot_button_isr b = Some b' \<Longrightarrow> pm_boot_step b b'"
| pended_call: "pended b \<Longrightarrow> \<not> locked b \<Longrightarrow> pm_boot_step b (apply_pm_override b)"

inductive_cases pm_boot_stepE: "pm_boot_step b b'"

inductive pm_boot_reachable :: "pm_boot \<Rightarrow> pm_boot \<Rightarrow> bool" for b0 where
  refl: "pm_boot_reachable b0 b0"
| step: "pm_boot_reachable b0 b \<Longrightarrow> pm_boot_step b b' \<Longrightarrow> pm_boot_reachable b0 b'"

definition window_state :: "bool \<Rightarrow> pm_state" where
  "window_state allow = (if allow then BOOT_WINDOW_ALLOW_OVERRIDE else BOOT_WINDOW_NO_OVERRIDE)"

definition active_state :: "bool \<Rightarrow> pm_state" where
  "active_state allow = (if allow then PM_ACTIVE_ALLOW_OVERRIDE else PM_ACTIVE_NO_OVERRIDE)"

text \<open>Before the interrupt has written \<open>s_state\<close>, and after it has, with the callback at \<open>w\<close>.\<close>

definition unpressed_inv :: "bool \<Rightarrow> pm_boot \<Rightarrow> bool" where
  "unpressed_inv allow b \<longleftrightarrow>
     (case cb b of
        NotArmed \<Rightarrow> s_state b = BOOT_WINDOW_NO_OVERRIDE \<and> \<not> configured b \<and> \<not> isr_enabled b
      | Waiting \<Rightarrow> s_state b = window_state allow \<and> \<not> configured b
      | Passed \<Rightarrow> s_state b = window_state allow \<and> \<not> configured b
      | Configured \<Rightarrow> s_state b = window_state allow \<and> configured b
      | Computed st \<Rightarrow> s_state b = window_state allow \<and> st = active_state allow \<and> configured b
      | _ \<Rightarrow> s_state b = active_state allow \<and> configured b)"

definition pressed_inv :: "cb_phase \<Rightarrow> pm_boot \<Rightarrow> bool" where
  "pressed_inv w b \<longleftrightarrow>
     (if w = Waiting then \<not> configured b \<and> s_state b = PM_OVERRIDDEN \<and> cb b \<in> {Waiting, Deleting, Returned}
      else cb b \<notin> {NotArmed, Waiting} \<and> (configured b \<longleftrightarrow> cb b \<noteq> Passed))"

definition may_override :: "bool \<Rightarrow> pm_boot \<Rightarrow> bool" where
  "may_override allow b \<longleftrightarrow> allow \<and> read_at b \<in> {Some Deleting, Some Returned}"

definition pm_boot_inv :: "bool \<Rightarrow> pm_boot \<Rightarrow> bool" where
  "pm_boot_inv allow b \<longleftrightarrow> (locked b \<longrightarrow> pended b) \<and> (pended b \<longleftrightarrow> isr b = IsrDone \<and> may_override allow b) \<and>
     (case isr b of
        IsrIdle \<Rightarrow> written_at b = None \<and> unpressed_inv allow b
      | IsrRead st \<Rightarrow> written_at b = None \<and> unpressed_inv allow b \<and> cb b \<noteq> NotArmed \<and>
          (st = PM_ACTIVE_ALLOW_OVERRIDE \<longleftrightarrow> may_override allow b)
      | IsrWritten st \<Rightarrow> (\<exists>w. written_at b = Some w \<and> pressed_inv w b) \<and>
          (st = PM_ACTIVE_ALLOW_OVERRIDE \<longleftrightarrow> may_override allow b)
      | IsrDone \<Rightarrow> (\<exists>w. written_at b = Some w \<and> pressed_inv w b) \<and> \<not> isr_enabled b)"

lemmas pm_boot_inv_defs = pm_boot_inv_def unpressed_inv_def pressed_inv_def window_state_def active_state_def
  may_override_def

lemma callback_inv:
  assumes "delayed_pm_callback b = Some b'" "pm_boot_inv allow b"
  shows "pm_boot_inv allow b'"
  using assms
  by (cases "cb b"; cases "isr b") (auto simp: delayed_pm_callback_def pm_boot_inv_defs split: if_splits)

lemma button_inv:
  assumes "boot_button_isr b = Some b'" "pm_boot_inv allow b"
  shows "pm_boot_inv allow b'"
  using assms
  by (cases "isr b"; cases "cb b") (auto simp: boot_button_isr_def pm_boot_inv_defs Let_def split: if_splits)

lemma override_inv:
  assumes "pended b" "pm_boot_inv allow b"
  shows "pm_boot_inv allow (apply_pm_override b)"
proof -
  have "isr b = IsrDone" using assms by (simp add: pm_boot_inv_def)
  moreover have "pressed_inv w (apply_pm_override b) = pressed_inv w b" for w
    by (simp add: pressed_inv_def apply_pm_override_def)
  moreover have "may_override allow (apply_pm_override b) = may_override allow b"
    by (simp add: may_override_def apply_pm_override_def)
  ultimately show ?thesis using assms by (simp add: pm_boot_inv_def) (simp add: apply_pm_override_def)
qed

lemma pm_boot_step_inv:
  assumes "pm_boot_step b b'" "pm_boot_inv allow b"
  shows "pm_boot_inv allow b'"
  using assms(1) by (cases rule: pm_boot_stepE) (use assms(2) in \<open>auto intro: callback_inv button_inv override_inv\<close>)

lemma pm_boot_reachable_inv:
  "pm_boot_reachable (delayed_pm_enable c1 c2 config) b \<Longrightarrow>
    pm_boot_inv (allow_override_after_boot_window config \<and> disable_sleep_on_gpio0_press config) b"
proof (induction rule: pm_boot_reachable.induct)
  case refl
  show ?case by (auto simp: delayed_pm_enable_def Let_def pm_boot_inv_defs)
next
  case (step b b')
  then show ?case by (blast intro: pm_boot_step_inv)
qed

text \<open>A press whose read of \<open>s_state\<close> came too early for the override and whose write came too late for the callback's test:
  once both have returned, nothing schedules the override any more.\<close>

definition override_lost :: "pm_boot \<Rightarrow> bool" where
  "override_lost b \<longleftrightarrow> isr b = IsrDone \<and> cb b = Returned \<and> configured b \<and> \<not> pended b \<and> \<not> locked b"

lemma override_lost_forever: "pm_boot_reachable b b' \<Longrightarrow> override_lost b \<Longrightarrow> override_lost b'"
proof (induction rule: pm_boot_reachable.induct)
  case (step b' b'')
  from step.hyps(2) step.IH[OF step.prems] show ?case
    by (cases rule: pm_boot_stepE) (auto simp: override_lost_def delayed_pm_callback_def boot_button_isr_def)
qed

section \<open>Properties\<close>

text \<open>C39: In every interleaving of the accesses of the interrupt and the callback: a press whose write comes before the
  callback's test means that light sleep is never enabled, and when the callback has returned light sleep is enabled
  unless there was such a press. The override is scheduled exactly when the configuration allows it and the
  interrupt, which has returned, read the state after the callback had stored it; the lock is only taken by a
  scheduled call. So a press that reads before that store and writes after that test is lost.\<close>

theorem boot_button_respected:
  assumes "pm_boot_reachable (delayed_pm_enable c1 c2 config) b"
  shows "(written_at b = Some Waiting \<longrightarrow> \<not> configured b) \<and>
    (cb b = Returned \<longrightarrow> configured b = (written_at b \<noteq> Some Waiting)) \<and>
    pended b = (allow_override_after_boot_window config \<and> disable_sleep_on_gpio0_press config \<and>
      isr b = IsrDone \<and> read_at b \<in> {Some Deleting, Some Returned}) \<and>
    (locked b \<longrightarrow> pended b)"
  using pm_boot_reachable_inv[OF assms] by (cases "isr b") (auto simp: pm_boot_inv_defs split: if_splits)

theorem boot_button_respected_witness:
  "\<exists>b. pm_boot_reachable (delayed_pm_enable True True
        \<lparr>keep_usb_alive = False, disable_sleep_on_gpio0_press = True, allow_override_after_boot_window = False\<rparr>) b \<and>
     written_at b = Some Waiting \<and> \<not> configured b"
proof -
  let ?c = "\<lparr>keep_usb_alive = False, disable_sleep_on_gpio0_press = True, allow_override_after_boot_window = False\<rparr>"
  let ?b = "delayed_pm_enable True True ?c"
  let ?b1 = "?b\<lparr>isr := IsrRead (s_state ?b), read_at := Some (cb ?b)\<rparr>"
  let ?b2 = "?b1\<lparr>s_state := PM_OVERRIDDEN, isr := IsrWritten (s_state ?b), written_at := Some (cb ?b)\<rparr>"
  have "pm_boot_step ?b ?b1" "pm_boot_step ?b1 ?b2"
    by (rule pm_boot_step.button; simp add: boot_button_isr_def delayed_pm_enable_def Let_def)+
  then have r: "pm_boot_reachable ?b ?b2" by (blast intro: pm_boot_reachable.intros)
  have w: "written_at ?b2 = Some Waiting" by (simp add: delayed_pm_enable_def Let_def)
  from boot_button_respected[OF r] w have "\<not> configured ?b2" by blast
  with r w show ?thesis by blast
qed

text \<open>Such a press exists even where overriding is allowed: the callback's assignment overwrites \<open>PM_OVERRIDDEN\<close>, the
  interrupt is disabled and from then on light sleep stays enabled without an override in every state that can
  follow.\<close>

theorem boot_button_race:
  "\<exists>b. pm_boot_reachable (delayed_pm_enable True True
        \<lparr>keep_usb_alive = False, disable_sleep_on_gpio0_press = True, allow_override_after_boot_window = True\<rparr>) b \<and>
     isr b = IsrDone \<and> cb b = Returned \<and> s_state b = PM_ACTIVE_ALLOW_OVERRIDE \<and>
     Collect (pm_boot_reachable b) \<subseteq> {b'. configured b' \<and> \<not> pended b' \<and> \<not> locked b'}"
proof -
  let ?c = "\<lparr>keep_usb_alive = False, disable_sleep_on_gpio0_press = True, allow_override_after_boot_window = True\<rparr>"
  define b0 where "b0 = delayed_pm_enable True True ?c"
  define b2 where "b2 = b0\<lparr>configured := True, cb := Configured\<rparr>"
  define b3 where "b3 = b2\<lparr>isr := IsrRead (s_state b0), read_at := Some Configured\<rparr>"
  define b4 where "b4 = b3\<lparr>s_state := PM_OVERRIDDEN, isr := IsrWritten (s_state b0), written_at := Some Configured\<rparr>"
  define b5 where "b5 = b4\<lparr>isr_enabled := False, isr := IsrDone\<rparr>"
  define b6 where "b6 = b5\<lparr>cb := Computed PM_ACTIVE_ALLOW_OVERRIDE\<rparr>"
  define b7 where "b7 = b6\<lparr>s_state := PM_ACTIVE_ALLOW_OVERRIDE, cb := Deleting\<rparr>"
  define b where "b = b7\<lparr>cb := Returned\<rparr>"
  note defs = b_def b7_def b6_def b5_def b4_def b3_def b2_def b0_def delayed_pm_enable_def boot_button_isr_def
    delayed_pm_callback_def
  have "pm_boot_step b0 (b0\<lparr>cb := Passed\<rparr>)" "pm_boot_step (b0\<lparr>cb := Passed\<rparr>) b2"
    and "pm_boot_step b5 b6" "pm_boot_step b6 b7" "pm_boot_step b7 b"
    by (rule pm_boot_step.timer; simp add: defs Let_def)+
  moreover have "pm_boot_step b2 b3" "pm_boot_step b3 b4" "pm_boot_step b4 b5"
    by (rule pm_boot_step.button; simp add: defs Let_def)+
  ultimately have r: "pm_boot_reachable b0 b" by (meson pm_boot_reachable.intros)
  have l: "override_lost b" by (simp add: override_lost_def defs Let_def)
  have "isr b = IsrDone" "cb b = Returned" "s_state b = PM_ACTIVE_ALLOW_OVERRIDE" by (simp_all add: defs Let_def)
  moreover have "configured b' \<and> \<not> pended b' \<and> \<not> locked b'" if "pm_boot_reachable b b'" for b'
    using override_lost_forever[OF that l] by (simp add: override_lost_def)
  ultimately show ?thesis using r unfolding b0_def by blast
qed

end
