(* ===== verification/Crash_Loop.thy ===== *)
theory Crash_Loop
  imports Prelude
begin

text \<open>
  \<open>check_crash_loop\<close> (\<open>boot/check_crash_loop.cpp\<close>): a counter of consecutive crashes in RTC memory,
  which survives a reset, with a wipe of the flash storage at the third crash and a terminal halt from
  the fifth. A boot is one call; its reset reason is what \<open>esp_reset_reason()\<close> returns, and the calls
  into ESP-IDF it makes are the result.
\<close>

datatype reset_reason = ESP_RST_POWERON | ESP_RST_SW | ESP_RST_PANIC | ESP_RST_INT_WDT
  | ESP_RST_TASK_WDT | ESP_RST_DEEPSLEEP | ESP_RST_OTHER

record rtc_state =
  magic_word :: "32 word"
  consecutive_crashes :: "32 word"

datatype crash_call = NvsFlashErase | OnThresholdReached | DeepSleepStart

definition magic :: "32 word" where
  "magic = 0xAABBCCDD"

definition is_crash :: "reset_reason \<Rightarrow> bool" where
  "is_crash reason \<longleftrightarrow> reason = ESP_RST_PANIC \<or> reason = ESP_RST_INT_WDT \<or> reason = ESP_RST_TASK_WDT"

text \<open>\<open>callback\<close> says whether \<open>on_threshold_reached\<close> is not null.\<close>

definition check_crash_loop :: "bool \<Rightarrow> reset_reason \<Rightarrow> rtc_state \<Rightarrow> rtc_state \<times> crash_call list" where
  "check_crash_loop callback reason s =
     (let s = (if magic_word s \<noteq> magic then \<lparr>magic_word = magic, consecutive_crashes = 0\<rparr> else s);
          s = (if is_crash reason then s\<lparr>consecutive_crashes := consecutive_crashes s + 1\<rparr>
               else s\<lparr>consecutive_crashes := 0\<rparr>);
          erase = (if consecutive_crashes s = 3 then [NvsFlashErase] else []);
          halt = (if consecutive_crashes s \<ge> 5 then
                    (if callback \<and> consecutive_crashes s = 5 then [OnThresholdReached] else []) @ [DeepSleepStart]
                  else [])
      in (s, erase @ halt))"

text \<open>A sequence of boots, and the calls of each.\<close>

fun boots :: "bool \<Rightarrow> reset_reason list \<Rightarrow> rtc_state \<Rightarrow> rtc_state \<times> crash_call list list" where
  "boots callback [] s = (s, [])"
| "boots callback (r # rs) s =
     (let (s, calls) = check_crash_loop callback r s; (s, rest) = boots callback rs s in (s, calls # rest))"

section \<open>Reference\<close>

text \<open>What the \<open>n\<close>-th crash in a row calls.\<close>

definition crash_calls :: "bool \<Rightarrow> nat \<Rightarrow> crash_call list" where
  "crash_calls callback n =
     (if n = 3 then [NvsFlashErase] else []) @
     (if 5 \<le> n then (if callback \<and> n = 5 then [OnThresholdReached] else []) @ [DeepSleepStart] else [])"

lemma of_nat_32:
  assumes "n < 2 ^ 32"
  shows "of_nat n = (k :: 32 word) \<longleftrightarrow> n = unat k" "(k :: 32 word) \<le> of_nat n \<longleftrightarrow> unat k \<le> n"
proof -
  have "unat (of_nat n :: 32 word) = n" using assms by (rule unat_of_nat_32)
  then show "of_nat n = k \<longleftrightarrow> n = unat k" "k \<le> of_nat n \<longleftrightarrow> unat k \<le> n"
    by (auto simp: word_le_nat_alt)
qed

lemma check_crash:
  assumes "magic_word s = magic" "consecutive_crashes s = of_nat n" "is_crash r" "n + 1 < 2 ^ 32"
  shows "check_crash_loop callback r s = (s\<lparr>consecutive_crashes := of_nat (n + 1)\<rparr>, crash_calls callback (n + 1))"
proof -
  define m :: "32 word" where "m = of_nat (n + 1)"
  have m: "consecutive_crashes s + 1 = m" "m = k \<longleftrightarrow> n + 1 = unat k" "k \<le> m \<longleftrightarrow> unat k \<le> n + 1" for k
    using of_nat_32[OF assms(4), of k] assms(2) by (simp_all add: m_def add.commute)
  have k: "unat (3 :: 32 word) = 3" "unat (5 :: 32 word) = 5" by simp_all
  have "consecutive_crashes s = 2 \<longleftrightarrow> n = 2"
    using of_nat_32(1)[of n 2] assms(2,4) by simp
  then show ?thesis
    unfolding m_def[symmetric] using assms(1,3) m(1)
    by (simp add: check_crash_loop_def crash_calls_def Let_def m(2,3) k)
qed

lemma check_normal:
  assumes "\<not> is_crash r"
  shows "check_crash_loop callback r s = (\<lparr>magic_word = magic, consecutive_crashes = 0\<rparr>, [])"
  using assms by (cases s) (auto simp: check_crash_loop_def Let_def)

lemma crash_boots:
  "magic_word s = magic \<Longrightarrow> consecutive_crashes s = of_nat n \<Longrightarrow> list_all is_crash rs \<Longrightarrow>
    n + length rs < 2 ^ 32 \<Longrightarrow>
    snd (boots callback rs s) = map (crash_calls callback) [n + 1..<n + length rs + 1]"
proof (induction rs arbitrary: s n)
  case (Cons r rs)
  have c: "check_crash_loop callback r s =
      (s\<lparr>consecutive_crashes := of_nat (n + 1)\<rparr>, crash_calls callback (n + 1))"
    by (rule check_crash) (use Cons.prems in simp_all)
  have "snd (boots callback rs (s\<lparr>consecutive_crashes := of_nat (n + 1)\<rparr>)) =
      map (crash_calls callback) [n + 1 + 1..<n + 1 + length rs + 1]"
    by (rule Cons.IH) (use Cons.prems in simp_all)
  then show ?case
    using c by (simp add: split_beta upt_conv_Cons del: of_nat_add of_nat_Suc upt_Suc)
qed simp

section \<open>Properties\<close>

text \<open>C40: From any contents of the RTC memory: after a boot that is not a crash, the \<open>k\<close>-th crash in a row
  erases the storage exactly when \<open>k = 3\<close>, runs the callback exactly when \<open>k = 5\<close> and halts exactly
  when \<open>k \<ge> 5\<close>, and a boot that is not a crash does none of this.\<close>

theorem crash_thresholds:
  assumes "\<not> is_crash r" "list_all is_crash rs" "length rs < 2 ^ 32"
  shows "snd (boots callback (r # rs) s) = [] # map (crash_calls callback) [1..<length rs + 1]"
  using crash_boots[of "\<lparr>magic_word = magic, consecutive_crashes = 0\<rparr>" 0 rs callback] assms
  by (simp add: check_normal split_beta)

theorem crash_thresholds_witness:
  "snd (boots True [ESP_RST_POWERON, ESP_RST_PANIC, ESP_RST_TASK_WDT, ESP_RST_PANIC, ESP_RST_PANIC, ESP_RST_PANIC]
      \<lparr>magic_word = 7, consecutive_crashes = 9\<rparr>) =
   [[], [], [], [NvsFlashErase], [], [OnThresholdReached, DeepSleepStart]]"
  using crash_thresholds[of ESP_RST_POWERON "[ESP_RST_PANIC, ESP_RST_TASK_WDT, ESP_RST_PANIC, ESP_RST_PANIC, ESP_RST_PANIC]"
      True "\<lparr>magic_word = 7, consecutive_crashes = 9\<rparr>"]
  by (simp add: is_crash_def crash_calls_def upt_rec)

end
