(* ===== verification/Shutdown.thy ===== *)
theory Shutdown
  imports Prelude
begin

text \<open>
  \<open>ShutdownRegistry\<close> (\<open>shutdown_registry.cpp\<close>): a fixed array of callbacks, registered once each and
  called in reverse order. Both fns run under the registry's mutex, so each is one step. A
  callback is a number; a null pointer is \<^const>\<open>None\<close>. The callbacks must not use the registry
  (its mutex is not recursive), so that a call is recorded by its number.
\<close>

definition max_functions :: nat where
  "max_functions = 32"

record registry =
  fns :: "nat option list"
  rcount :: nat

definition registry_new :: registry where
  "registry_new = \<lparr>fns = replicate max_functions None, rcount = 0\<rparr>"

definition register_fn :: "nat option \<Rightarrow> registry \<Rightarrow> registry" where
  "register_fn fn r =
     (if fn = None then r
      else if list_ex (\<lambda>i. fns r ! i = fn) [0..<rcount r] then r
      else if rcount r < max_functions
      then r\<lparr>fns := (fns r)[rcount r := fn], rcount := rcount r + 1\<rparr>
      else r)"

text \<open>The loop of \<open>shutdown_all\<close> from \<open>i = n - 1\<close> down to 0: the calls it makes.\<close>

fun call_down :: "nat option list \<Rightarrow> nat \<Rightarrow> nat list" where
  "call_down fs 0 = []"
| "call_down fs (Suc i) = (case fs ! i of Some f \<Rightarrow> [f] | None \<Rightarrow> []) @ call_down fs i"

definition shutdown_all :: "registry \<Rightarrow> registry \<times> nat list" where
  "shutdown_all r = (r\<lparr>rcount := 0\<rparr>, call_down (fns r) (rcount r))"

section \<open>Contents\<close>

text \<open>The registered callbacks, oldest first.\<close>

definition registered :: "registry \<Rightarrow> nat option list" where
  "registered r = take (rcount r) (fns r)"

definition registry_ok :: "registry \<Rightarrow> bool" where
  "registry_ok r \<longleftrightarrow> length (fns r) = max_functions \<and> rcount r \<le> max_functions
     \<and> None \<notin> set (registered r) \<and> distinct (registered r)"

lemma registry_new_ok [simp]: "registry_ok registry_new" "registered registry_new = []"
  by (simp_all add: registry_ok_def registered_def registry_new_def)

lemma in_registered:
  "registry_ok r \<Longrightarrow> list_ex (\<lambda>i. fns r ! i = fn) [0..<rcount r] \<longleftrightarrow> fn \<in> set (registered r)"
  by (auto simp: registry_ok_def registered_def list_ex_iff in_set_conv_nth)

lemma register_fn_registered:
  assumes "registry_ok r"
  shows "registered (register_fn fn r) =
    (if fn = None \<or> fn \<in> set (registered r) \<or> length (registered r) = max_functions
     then registered r else registered r @ [fn])"
  using assms
  by (auto simp: register_fn_def in_registered) (auto simp: registry_ok_def registered_def take_Suc_conv_app_nth)

lemma register_fn_ok: "registry_ok r \<Longrightarrow> registry_ok (register_fn fn r)"
proof -
  assume r: "registry_ok r"
  have "length (fns (register_fn fn r)) = max_functions" "rcount (register_fn fn r) \<le> max_functions"
    using r by (auto simp: register_fn_def registry_ok_def)
  then show "registry_ok (register_fn fn r)"
    using r by (auto simp: registry_ok_def register_fn_registered[OF r])
qed

lemma call_down_take:
  "i \<le> length fs \<Longrightarrow> None \<notin> set (take i fs) \<Longrightarrow> call_down fs i = rev (map the (take i fs))"
proof (induction i)
  case (Suc i)
  then have "fs ! i \<in> set (take (Suc i) fs)" by (simp add: take_Suc_conv_app_nth)
  with Suc.prems(2) have "fs ! i \<noteq> None" by metis
  with Suc show ?case by (auto simp: take_Suc_conv_app_nth)
qed simp

text \<open>What a sequence of registrations leaves, as a list: the first occurrences, up to the limit.\<close>

fun add_once :: "nat list \<Rightarrow> nat list \<Rightarrow> nat list" where
  "add_once fs [] = fs"
| "add_once fs (g # gs) = add_once (if g \<in> set fs \<or> length fs = max_functions then fs else fs @ [g]) gs"

lemma registered_fold:
  "registry_ok r \<Longrightarrow> registered r = map Some fs \<Longrightarrow>
    registry_ok (fold (\<lambda>g. register_fn (Some g)) gs r) \<and>
    registered (fold (\<lambda>g. register_fn (Some g)) gs r) = map Some (add_once fs gs)"
proof (induction gs arbitrary: r fs)
  case (Cons g gs)
  have "registered (register_fn (Some g) r) =
      map Some (if g \<in> set fs \<or> length fs = max_functions then fs else fs @ [g])"
    using Cons.prems by (auto simp: register_fn_registered)
  from Cons.IH[OF register_fn_ok[OF Cons.prems(1)] this] show ?case by simp
qed simp

section \<open>Properties\<close>

text \<open>After any sequence of registrations, \<open>shutdown_all\<close> calls every registered callback exactly
  once, in the reverse order of their first registration, at most 32 of them, and a second
  \<open>shutdown_all\<close> calls nothing.\<close>

theorem shutdown_order:
  "snd (shutdown_all (fold (\<lambda>g. register_fn (Some g)) gs registry_new)) = rev (add_once [] gs) \<and>
   snd (shutdown_all (fst (shutdown_all (fold (\<lambda>g. register_fn (Some g)) gs registry_new)))) = [] \<and>
   distinct (add_once [] gs) \<and> length (add_once [] gs) \<le> max_functions"
proof -
  let ?r = "fold (\<lambda>g. register_fn (Some g)) gs registry_new"
  have r: "registry_ok ?r" "registered ?r = map Some (add_once [] gs)"
    using registered_fold[of registry_new "[]" gs] by simp_all
  have "call_down (fns ?r) (rcount ?r) = rev (map the (registered ?r))"
    using r(1) unfolding registered_def by (intro call_down_take) (auto simp: registry_ok_def registered_def)
  moreover have "distinct (map Some (add_once [] gs))" "length (map Some (add_once [] gs)) \<le> max_functions"
    using r by (auto simp: registry_ok_def registered_def simp flip: r(2))
  ultimately show ?thesis
    by (simp add: shutdown_all_def r(2) comp_def distinct_map)
qed

end
