(* ===== verification/Mac_Address.thy ===== *)
theory Mac_Address
  imports Prelude
begin

text \<open>
  \<open>MacAddress\<close> (\<open>mac_address.hpp\<close>, \<open>mac_address.cpp\<close>): six bytes, their textual forms and their hash.
  \<open>mine()\<close> asks the hardware, or, on the host, takes the number of the process.
\<close>

type_synonym mac = "8 word list"

text \<open>\<open>%02X\<close>.\<close>

definition upper_hex :: "nat \<Rightarrow> char" where
  "upper_hex d = (if d < 10 then char_of (48 + d) else char_of (55 + d))"

definition hex2 :: "8 word \<Rightarrow> bytes" where
  "hex2 b = [upper_hex (unat b div 16), upper_hex (unat b mod 16)]"

definition mac_of_buffer :: "8 word list \<Rightarrow> mac" where
  "mac_of_buffer buffer = take 6 buffer"

definition mac_of_bytes :: "8 word \<Rightarrow> 8 word \<Rightarrow> 8 word \<Rightarrow> 8 word \<Rightarrow> 8 word \<Rightarrow> 8 word \<Rightarrow> mac" where
  "mac_of_bytes b0 b1 b2 b3 b4 b5 = [b0, b1, b2, b3, b4, b5]"

definition mac_index :: "mac \<Rightarrow> nat \<Rightarrow> 8 word option" where
  "mac_index m i = (if i < 6 then Some (m ! i) else None)"

text \<open>\<open>snprintf\<close> cuts the text to the buffer's size less one; it returns the full length.\<close>

definition mac_text :: "mac \<Rightarrow> bytes" where
  "mac_text m = hex2 (m ! 0) @ '':'' @ hex2 (m ! 1) @ '':'' @ hex2 (m ! 2) @ '':'' @ hex2 (m ! 3) @ '':''
     @ hex2 (m ! 4) @ '':'' @ hex2 (m ! 5)"

definition mac_to_string :: "mac \<Rightarrow> bytes \<times> nat" where
  "mac_to_string m = (take 17 (mac_text m), length (mac_text m))"

definition mac_to_id :: "mac \<Rightarrow> bytes \<times> nat" where
  "mac_to_id m = (take 4 (hex2 (m ! 4) @ hex2 (m ! 5)), length (hex2 (m ! 4) @ hex2 (m ! 5)))"

definition mac_zero :: mac where
  "mac_zero = replicate 6 0"

definition mac_broadcast :: mac where
  "mac_broadcast = replicate 6 0xFF"

definition mac_is_zero :: "mac \<Rightarrow> bool" where
  "mac_is_zero m \<longleftrightarrow> m = mac_zero"

definition mac_is_broadcast :: "mac \<Rightarrow> bool" where
  "mac_is_broadcast m \<longleftrightarrow> m = mac_broadcast"

text \<open>\<open>std::hash<MacAddress>\<close>; \<open>h\<close> is the library's \<open>hash<uint32_t>\<close>.\<close>

unbundle bit_operations_syntax

definition mac_hash :: "(32 word \<Rightarrow> 'h::len word) \<Rightarrow> mac \<Rightarrow> 'h word" where
  "mac_hash h m =
     (let a = push_bit 24 (ucast (m ! 0)) OR push_bit 16 (ucast (m ! 1)) OR push_bit 8 (ucast (m ! 2)) OR ucast (m ! 3);
          b = push_bit 8 (ucast (m ! 4)) OR ucast (m ! 5)
      in h a XOR h b)"

text \<open>
  \<open>mine()\<close>: the first call fills the static object. On the device \<open>read_mac\<close> is \<open>esp_read_mac\<close>, which writes into the
  buffer (and may fail without writing); on the host \<open>pid\<close> is \<open>GetCurrentProcessId()\<close>.
\<close>

definition mac_mine :: "(8 word list \<Rightarrow> 8 word list) + 32 word \<Rightarrow> mac option \<Rightarrow> mac \<times> mac option" where
  "mac_mine source my_mac =
     (case my_mac of
        Some m \<Rightarrow> (m, my_mac)
      | None \<Rightarrow>
          let mac = replicate 6 0;
              mac = (case source of
                       Inl read_mac \<Rightarrow> read_mac mac
                     | Inr pid \<Rightarrow> mac[4 := ucast (drop_bit 8 pid AND 0xFF), 5 := ucast (pid AND 0xFF)]);
              m = mac_of_buffer mac
          in (m, Some m))"

lemma mac_mine_once: "mac_mine source' (snd (mac_mine source c)) = (fst (mac_mine source c), snd (mac_mine source c))"
  by (simp add: mac_mine_def Let_def split: option.splits)

section \<open>The text determines the address\<close>

lemma upper_hex_inject:
  assumes "a < 16" "b < 16" "upper_hex a = upper_hex b"
  shows "a = b"
proof -
  have "of_char (upper_hex n) = (if n < 10 then 48 + n else 55 + n)" if "n < 16" for n
    using that by (simp add: upper_hex_def)
  with assms have "(if a < 10 then 48 + a else 55 + a) = (if b < 10 then 48 + b else 55 + b)" by metis
  with assms(1,2) show ?thesis by (auto split: if_splits)
qed

lemma hex2_inject: "hex2 a = hex2 b \<Longrightarrow> a = b"
proof -
  assume "hex2 a = hex2 b"
  moreover have "unat x div 16 < 16" "unat x mod 16 < 16" for x :: "8 word"
    using unat_less_pow[where n = 8, of x] by (simp_all add: less_mult_imp_div_less)
  ultimately have "unat a div 16 = unat b div 16" "unat a mod 16 = unat b mod 16"
    by (auto simp: hex2_def dest!: upper_hex_inject[rotated 2])
  then have "unat a = unat b" by (metis div_mult_mod_eq)
  then show "a = b" by (rule unsigned_word_eqI)
qed

section \<open>Properties\<close>

text \<open>\<open>to_string\<close> fills its buffer of 18 exactly, with the terminator, and two addresses have the same
  text only if they are equal.\<close>

theorem mac_text_faithful:
  assumes "length m = 6" "length m' = 6"
  shows "mac_to_string m = (mac_text m, 17) \<and> (mac_to_string m = mac_to_string m' \<longleftrightarrow> m = m')"
proof -
  have l: "length (mac_text m) = 17" for m by (simp add: mac_text_def hex2_def)
  have "m = m'" if "mac_text m = mac_text m'"
  proof (rule nth_equalityI)
    fix i assume "i < length m"
    then have "i \<in> {0, 1, 2, 3, 4, 5}" using assms(1) by auto
    moreover have "hex2 (m ! 0) = hex2 (m' ! 0)" "hex2 (m ! 1) = hex2 (m' ! 1)" "hex2 (m ! 2) = hex2 (m' ! 2)"
      "hex2 (m ! 3) = hex2 (m' ! 3)" "hex2 (m ! 4) = hex2 (m' ! 4)" "hex2 (m ! 5) = hex2 (m' ! 5)"
      using that by (simp_all add: mac_text_def hex2_def)
    ultimately show "m ! i = m' ! i" by (auto dest: hex2_inject)
  qed (use assms in simp)
  then show ?thesis by (auto simp: mac_to_string_def l)
qed

theorem mac_text_faithful_witness:
  "mac_to_string mac_broadcast \<noteq> mac_to_string mac_zero"
proof -
  have "length mac_broadcast = 6" "length mac_zero = 6" "mac_broadcast \<noteq> mac_zero"
    by (simp_all add: mac_broadcast_def mac_zero_def)
  with mac_text_faithful show ?thesis by blast
qed

end
