(* ===== verification/Favicon.thy ===== *)
theory Favicon
  imports Result
begin

text \<open>
  The generated \<open>/favicon.ico\<close> (\<open>boot/favicon_route.cpp\<close>): the headers, the pixels and the empty mask of an
  icon in one buffer. The colour of a pixel is computed in floating point and is the parameter
  \<open>shade\<close>; where it is stored is modelled. A memory write outside of the buffer has no result.
\<close>

section \<open>Little-endian stores\<close>

definition store_bytes :: "nat \<Rightarrow> 8 word list \<Rightarrow> 8 word list \<Rightarrow> 8 word list option" where
  "store_bytes off bs buf = (if off + length bs \<le> length buf then Some (blit buf off bs) else None)"

definition le32 :: "32 word \<Rightarrow> 8 word list" where
  "le32 x = [ucast x, ucast (drop_bit 8 x), ucast (drop_bit 16 x), ucast (drop_bit 24 x)]"

text \<open>The number four bytes stand for.\<close>

definition of_le32 :: "8 word list \<Rightarrow> nat" where
  "of_le32 bs = unat (bs ! 0) + 2 ^ 8 * unat (bs ! 1) + 2 ^ 16 * unat (bs ! 2) + 2 ^ 24 * unat (bs ! 3)"

section \<open>The handler\<close>

definition write_ico_and_dib_headers :: "int \<Rightarrow> int \<Rightarrow> int \<Rightarrow> 8 word list \<Rightarrow> 8 word list option" where
  "write_ico_and_dib_headers w h pixel_size buf = do {
     buf \<leftarrow> store_bytes 0 [0, 0, 1, 0, 1, 0] buf;
     buf \<leftarrow> store_bytes 6 [word_of_int w, word_of_int h, 0, 0, 1, 0, 32, 0] buf;
     buf \<leftarrow> store_bytes 14 (le32 (word_of_int (40 + pixel_size + (w * h) div 8))) buf;
     buf \<leftarrow> store_bytes 18 (le32 22) buf;
     buf \<leftarrow> store_bytes 22 [40, 0, 0, 0] buf;
     buf \<leftarrow> store_bytes 26 (le32 (word_of_int w)) buf;
     buf \<leftarrow> store_bytes 30 (le32 (word_of_int (h * 2))) buf;
     buf \<leftarrow> store_bytes 34 [1, 0, 32, 0] buf;
     buf \<leftarrow> store_bytes 38 [0, 0, 0, 0] buf;
     store_bytes 42 (le32 (word_of_int pixel_size)) buf }"

text \<open>The rows and columns of \<open>draw_procedural_puck\<close>; \<open>base\<close> is the offset of \<open>pixels\<close> in the buffer, and
  \<open>shade x y\<close> the four bytes of a pixel in the order blue, green, red, alpha.\<close>

fun draw_row :: "(nat \<Rightarrow> nat \<Rightarrow> 8 word list) \<Rightarrow> nat \<Rightarrow> nat \<Rightarrow> nat \<Rightarrow> nat \<Rightarrow> 8 word list \<Rightarrow> 8 word list option" where
  "draw_row shade base w y 0 buf = Some buf"
| "draw_row shade base w y (Suc n) buf = do {
     buf \<leftarrow> draw_row shade base w y n buf;
     store_bytes (base + (y * w + n) * 4) (shade n y) buf }"

fun draw_rows :: "(nat \<Rightarrow> nat \<Rightarrow> 8 word list) \<Rightarrow> nat \<Rightarrow> nat \<Rightarrow> nat \<Rightarrow> 8 word list \<Rightarrow> 8 word list option" where
  "draw_rows shade base w 0 buf = Some buf"
| "draw_rows shade base w (Suc h) buf = do { buf \<leftarrow> draw_rows shade base w h buf; draw_row shade base w h w buf }"

text \<open>\<open>alloc\<close> says whether the first or the second allocation succeeds; the result is the status and what is
  sent: a 500 response (\<^const>\<open>None\<close>) or the buffer. \<open>send_err\<close> is the status of sending.\<close>

definition get_handler :: "(nat \<Rightarrow> nat \<Rightarrow> 8 word list) \<Rightarrow> bool \<Rightarrow> bool \<Rightarrow> esp_err \<Rightarrow> (esp_err \<times> 8 word list option) option" where
  "get_handler shade alloc_psram alloc_internal send_err =
     (if \<not> alloc_psram \<and> \<not> alloc_internal then Some (ESP_FAIL, None)
      else do {
        buf \<leftarrow> write_ico_and_dib_headers 32 32 4096 (replicate (62 + 4096 + 128) 0);
        buf \<leftarrow> draw_rows shade 62 32 32 buf;
        Some (send_err, Some buf) })"

section \<open>Layout\<close>

lemma store_bytes_Some:
  "off + length bs \<le> length buf \<Longrightarrow> store_bytes off bs buf = Some (blit buf off bs)"
  by (simp add: store_bytes_def)

lemma draw_row_shape:
  assumes "\<And>x y. length (shade x y) = 4"
  shows "base + (y * w + n) * 4 \<le> length buf \<Longrightarrow> base + y * w * 4 \<le> length buf \<Longrightarrow>
    draw_row shade base w y n buf =
      Some (take (base + y * w * 4) buf @ concat (map (\<lambda>x. shade x y) [0..<n]) @ drop (base + (y * w + n) * 4) buf)"
proof (induction n)
  case (Suc n)
  have l: "length (concat (map (\<lambda>x. shade x y) [0..<n])) = n * 4" by (induction n) (simp_all add: assms)
  from Suc show ?case
    by (simp add: store_bytes_def blit_def l assms algebra_simps add_mult_distrib2)
qed simp

section \<open>The icon\<close>

lemma draw_rows_shape:
  assumes "\<And>x y. length (shade x y) = 4"
  shows "base + h * w * 4 \<le> length buf \<Longrightarrow>
    draw_rows shade base w h buf = Some (take base buf @
      concat (map (\<lambda>y. concat (map (\<lambda>x. shade x y) [0..<w])) [0..<h]) @ drop (base + h * w * 4) buf)"
proof (induction h)
  case (Suc h)
  have row: "length (concat (map (\<lambda>x. shade x y) [0..<n])) = n * 4" for y n by (induction n) (simp_all add: assms)
  have rows: "length (concat (map (\<lambda>y. concat (map (\<lambda>x. shade x y) [0..<w])) [0..<h])) = h * w * 4"
    by (induction h) (simp_all add: row algebra_simps)
  let ?buf = "take base buf @ concat (map (\<lambda>y. concat (map (\<lambda>x. shade x y) [0..<w])) [0..<h]) @ drop (base + h * w * 4) buf"
  have l: "length ?buf = length buf" using Suc.prems rows by simp
  have "draw_row shade base w h w ?buf = Some (take (base + h * w * 4) ?buf @
      concat (map (\<lambda>x. shade x h) [0..<w]) @ drop (base + (h * w + w) * 4) ?buf)"
    by (rule draw_row_shape[OF assms]) (use Suc.prems l in \<open>simp_all add: algebra_simps\<close>)
  moreover have "take (base + h * w * 4) ?buf =
      take base buf @ concat (map (\<lambda>y. concat (map (\<lambda>x. shade x y) [0..<w])) [0..<h])"
    using Suc.prems rows by simp
  moreover have "drop (base + (h * w + w) * 4) ?buf = drop (base + Suc h * w * 4) buf"
    using Suc.prems rows by (simp add: algebra_simps)
  ultimately show ?case using Suc by simp
qed simp

definition icon_header :: "8 word list" where
  "icon_header = [0, 0, 1, 0, 1, 0, 32, 32, 0, 0, 1, 0, 32, 0] @ le32 4264 @ le32 22 @ [40, 0, 0, 0] @ le32 32 @ le32 64 @
     [1, 0, 32, 0, 0, 0, 0, 0] @ le32 4096 @ replicate 16 0"

lemma length_le32 [simp]: "length (le32 x) = 4"
  by (simp add: le32_def)

lemma blit_at: "length pre = off \<Longrightarrow> length mid = length bs \<Longrightarrow> blit (pre @ mid @ post) off bs = pre @ bs @ post"
  by (simp add: blit_def)

lemma headers_written:
  "write_ico_and_dib_headers 32 32 4096 (replicate (62 + 4096 + 128) 0) = Some (icon_header @ replicate (4096 + 128) 0)"
proof -
  have split: "replicate (62 + 4096 + 128) (0 :: 8 word) = replicate 62 0 @ replicate (4096 + 128) 0"
    by (simp flip: replicate_add)
  define rest :: "8 word list" where "rest = replicate (4096 + 128) 0"
  show ?thesis
    unfolding split rest_def[symmetric]
    by (simp add: write_ico_and_dib_headers_def store_bytes_def blit_def icon_header_def le32_def eval_nat_numeral)
qed

lemma handler_shape:
  assumes "\<And>x y. length (shade x y) = 4" "alloc_psram \<or> alloc_internal"
  shows "get_handler shade alloc_psram alloc_internal send_err = Some (send_err, Some (icon_header @
    concat (map (\<lambda>y. concat (map (\<lambda>x. shade x y) [0..<32])) [0..<32]) @ replicate 128 0))"
proof -
  have h: "length icon_header = 62" by (simp add: icon_header_def)
  have "draw_rows shade 62 32 32 (icon_header @ replicate (4096 + 128) 0) = Some (take 62 (icon_header @ replicate (4096 + 128) 0) @
      concat (map (\<lambda>y. concat (map (\<lambda>x. shade x y) [0..<32])) [0..<32]) @
      drop (62 + 32 * 32 * 4) (icon_header @ replicate (4096 + 128) 0))"
    by (rule draw_rows_shape[OF assms(1)]) (simp add: h)
  then show ?thesis using assms(2) by (simp add: get_handler_def headers_written[simplified] h)
qed

section \<open>Properties\<close>

text \<open>Whichever allocation succeeds and whatever the colours are, no store leaves the buffer, and the
  response is a well-formed icon: its size and data offset fields agree with its length, the height of its bitmap is
  twice that of the image, the pixels are in row order, and the mask that follows them is empty.\<close>

theorem favicon_well_formed:
  assumes "\<And>x y. length (shade x y) = 4" "alloc_psram \<or> alloc_internal"
  shows "case get_handler shade alloc_psram alloc_internal send_err of
    Some (err, Some b) \<Rightarrow> err = send_err \<and> length b = 62 + 4096 + 128 \<and>
      of_le32 (substr b 14 4) + of_le32 (substr b 18 4) = length b \<and> of_le32 (substr b 18 4) = 22 \<and>
      of_le32 (substr b 30 4) = 2 * unat (b ! 7) \<and>
      substr b 62 4096 = concat (map (\<lambda>y. concat (map (\<lambda>x. shade x y) [0..<32])) [0..<32]) \<and>
      drop 4158 b = replicate 128 0
  | _ \<Rightarrow> False"
proof -
  define pixels where "pixels = concat (map (\<lambda>y. concat (map (\<lambda>x. shade x y) [0..<32])) [0..<32])"
  have row: "length (concat (map (\<lambda>x. shade x y) [0..<n])) = n * 4" for y n by (induction n) (simp_all add: assms)
  have "length (concat (map (\<lambda>y. concat (map (\<lambda>x. shade x y) [0..<32])) [0..<h])) = h * 128" for h
    by (induction h) (simp_all add: row)
  from this[of 32] have l: "length pixels = 4096" by (simp add: pixels_def)
  have h: "length icon_header = 62" by (simp add: icon_header_def)
  have f: "take 4 (drop 14 icon_header) = le32 4264" "take 4 (drop 18 icon_header) = le32 22"
    "take 4 (drop 30 icon_header) = le32 64" "(icon_header @ rest) ! 7 = 32" for rest
    by (simp_all add: icon_header_def le32_def eval_nat_numeral)
  have v: "of_le32 (le32 4264) = 4264" "of_le32 (le32 22) = 22" "of_le32 (le32 64) = 64"
    by (simp_all add: of_le32_def le32_def)
  show ?thesis
    unfolding handler_shape[OF assms] pixels_def[symmetric]
    by (simp add: f v l h substr_def)
qed

theorem favicon_well_formed_witness:
  "case get_handler (\<lambda>x y. [of_nat x, of_nat y, 0, 255]) False True ESP_OK of
     Some (err, Some b) \<Rightarrow> err = ESP_OK \<and> of_le32 (substr b 14 4) + of_le32 (substr b 18 4) = length b
   | _ \<Rightarrow> False"
  using favicon_well_formed[of "\<lambda>x y. [of_nat x, of_nat y, 0, 255]" False True ESP_OK]
  by (auto split: option.splits)

end
