(* ===== verification/Psram_Allocator.thy ===== *)
theory Psram_Allocator
  imports Result
begin

text \<open>
  \<open>PSRAMAllocator\<close> (\<open>psram_allocator.h\<close>) and the allocation hooks that the deprecated JSON wrapper installs
  (\<open>src/deprecated/espbase/json.cpp\<close>). The heap of ESP-IDF is a parameter: \<open>malloc\<close> gives a block or a null
  pointer (\<^const>\<open>None\<close>). \<open>std::size_t\<close> is a word of any width.
\<close>

text \<open>\<^const>\<open>Inl\<close>: \<open>ESP_ERROR_CHECK\<close> panics with this code. \<open>sz\<close> is \<open>sizeof(T)\<close>.\<close>

definition allocate :: "('a::len word \<Rightarrow> 'e \<Rightarrow> 'p option \<times> 'e) \<Rightarrow> 'a word \<Rightarrow> 'a word \<Rightarrow> 'e \<Rightarrow> (esp_err + 'p) \<times> 'e" where
  "allocate malloc sz n e =
     (if n > (- 1) div sz then (Inl ESP_ERR_INVALID_SIZE, e)
      else case malloc (n * sz) e of
             (Some p, e) \<Rightarrow> (Inr p, e)
           | (None, e) \<Rightarrow> (Inl ESP_ERR_NO_MEM, e))"

definition deallocate :: "('p \<Rightarrow> 'e \<Rightarrow> 'e) \<Rightarrow> 'p \<Rightarrow> 'a::len word \<Rightarrow> 'e \<Rightarrow> 'e" where
  "deallocate free p n e = free p e"

text \<open>The hooks; \<open>capabilities\<close> of the memory are those that the flags ask for.\<close>

datatype heap_cap = MALLOC_CAP_SPIRAM | MALLOC_CAP_8BIT

definition cjson_psram_malloc :: "(nat \<Rightarrow> heap_cap list \<Rightarrow> 'e \<Rightarrow> 'p option \<times> 'e) \<Rightarrow> nat \<Rightarrow> 'e \<Rightarrow> 'p option \<times> 'e" where
  "cjson_psram_malloc caps_malloc n e = caps_malloc n [MALLOC_CAP_SPIRAM, MALLOC_CAP_8BIT] e"

definition cjson_psram_free :: "('p \<Rightarrow> 'e \<Rightarrow> 'e) \<Rightarrow> 'p \<Rightarrow> 'e \<Rightarrow> 'e" where
  "cjson_psram_free caps_free p e = caps_free p e"

definition init_json_to_use_psram ::
  "(nat \<Rightarrow> heap_cap list \<Rightarrow> 'e \<Rightarrow> 'p option \<times> 'e) \<Rightarrow> ('p \<Rightarrow> 'e \<Rightarrow> 'e) \<Rightarrow>
   ((nat \<Rightarrow> 'e \<Rightarrow> 'p option \<times> 'e) \<Rightarrow> ('p \<Rightarrow> 'e \<Rightarrow> 'e) \<Rightarrow> 'c \<Rightarrow> 'c) \<Rightarrow> 'c \<Rightarrow> 'c"
where
  "init_json_to_use_psram caps_malloc caps_free init_hooks c =
     init_hooks (cjson_psram_malloc caps_malloc) (cjson_psram_free caps_free) c"

section \<open>The size that is asked for\<close>

text \<open>The test before the multiplication excludes a wrap-around: a block that is handed out was asked for with
  its true size, and a size that does not fit is refused before the heap is asked.\<close>

theorem allocate_true_size:
  fixes sz n :: "'a::len word"
  assumes "sz \<noteq> 0"
  shows "allocate malloc sz n e =
    (if unat n * unat sz < 2 ^ LENGTH('a)
     then case malloc (of_nat (unat n * unat sz)) e of (Some p, e) \<Rightarrow> (Inr p, e) | (None, e) \<Rightarrow> (Inl ESP_ERR_NO_MEM, e)
     else (Inl ESP_ERR_INVALID_SIZE, e))"
proof -
  have z: "0 < unat sz" using assms by (simp add: unat_gt_0)
  have "unat (- 1 :: 'a word) = 2 ^ LENGTH('a) - 1" by (simp add: unsigned_minus_1_eq_mask mask_eq_exp_minus_1)
  then have "n \<le> (- 1) div sz \<longleftrightarrow> unat n \<le> (2 ^ LENGTH('a) - 1) div unat sz"
    by (simp add: word_le_nat_alt unat_div_distrib)
  also have "\<dots> \<longleftrightarrow> unat n * unat sz \<le> 2 ^ LENGTH('a) - 1" using z by (simp add: less_eq_div_iff_mult_less_eq)
  also have "\<dots> \<longleftrightarrow> unat n * unat sz < 2 ^ LENGTH('a)" by (metis Suc_pred' less_Suc_eq_le pos2 zero_less_power)
  finally show ?thesis by (auto simp: allocate_def not_less[symmetric])
qed

end
