(* ===== verification/Type_Name.thy ===== *)
theory Type_Name
  imports Prelude
begin

text \<open>
  The name of a type as a string constant (\<open>type_name_str.hpp\<close>), cut out of what the compiler makes of
  \<open>__PRETTY_FUNCTION__\<close>, and the function pointer that \<open>trampoline.hpp\<close> makes of a member function.
\<close>

section \<open>The search\<close>

text \<open>\<open>string_view::find\<close> and \<open>find_first_of\<close>; \<^const>\<open>None\<close> is \<open>npos\<close>.\<close>

fun find_sub :: "bytes \<Rightarrow> bytes \<Rightarrow> nat option" where
  "find_sub pat [] = (if pat = [] then Some 0 else None)"
| "find_sub pat (c # s) = (if take (length pat) (c # s) = pat then Some 0 else map_option Suc (find_sub pat s))"

fun find_first_of :: "bytes \<Rightarrow> bytes \<Rightarrow> nat option" where
  "find_first_of cs [] = None"
| "find_first_of cs (c # s) = (if c \<in> set cs then Some 0 else map_option Suc (find_first_of cs s))"

text \<open>
  \<open>npos\<close> is the largest \<open>size_t\<close>, so that \<open>npos + 4\<close> is 3, and a \<open>substr\<close> up to \<open>npos\<close> takes the rest. A \<open>substr\<close> that
  starts behind the end does not compile (\<^const>\<open>None\<close>).
\<close>

definition type_name_view :: "bytes \<Rightarrow> bytes option" where
  "type_name_view name =
     (let start = (case find_sub ''T = '' name of Some i \<Rightarrow> i + 4 | None \<Rightarrow> 3)
      in if start > length name then None
         else Some (case find_first_of ''];'' (drop start name) of Some n \<Rightarrow> take n (drop start name) | None \<Rightarrow> drop start name))"

definition type_name_array :: "bytes \<Rightarrow> bytes option" where
  "type_name_array name = map_option (\<lambda>sv. sv @ [ch_nul]) (type_name_view name)"

text \<open>The lambda of \<open>trampoline<MemFn>()\<close>: \<open>cast\<close> is the conversion of the \<open>void*\<close> to the class of the member.\<close>

definition member_trampoline :: "('p \<Rightarrow> 'c) \<Rightarrow> ('c \<Rightarrow> 'a \<Rightarrow> 'r) \<Rightarrow> 'p \<Rightarrow> 'a \<Rightarrow> 'r" where
  "member_trampoline cast mem_fn ptr args = mem_fn (cast ptr) args"

section \<open>What is cut out\<close>

lemma find_first_of_append:
  "set s \<inter> set cs = {} \<Longrightarrow> c \<in> set cs \<Longrightarrow> find_first_of cs (s @ c # r) = Some (length s)"
  by (induction s) auto

text \<open>For a name without a bracket or a semicolon the string is the name, terminated; the name of an array type
  loses its closing bracket.\<close>

theorem type_name_cut:
  assumes "find_sub ''T = '' (pre @ ''T = '' @ ty @ c # post) = Some (length pre)" "c \<in> {CHR '']'', CHR '';''}"
    and "CHR '']'' \<notin> set ty" "CHR '';'' \<notin> set ty"
  shows "type_name_array (pre @ ''T = '' @ ty @ c # post) = Some (ty @ [ch_nul])"
proof -
  have "find_first_of ''];'' (ty @ c # post) = Some (length ty)"
    using assms(2-4) by (intro find_first_of_append) auto
  then show ?thesis using assms(1) by (simp add: type_name_array_def type_name_view_def)
qed

theorem type_name_cut_witness:
  "type_name_array ''f() [T = Led]'' = Some (''Led'' @ [ch_nul])"
  using type_name_cut[of "''f() [''" "''Led''" "CHR '']''" "[]"] by simp

lemma array_type_name: "type_name_view ''f() [T = int [3]]'' = Some ''int [3''"
  by code_simp

end
