(* ===== verification/Json_Deprecated.thy ===== *)
theory Json_Deprecated
  imports Prelude
begin

text \<open>
  The deprecated wrapper of cJSON (\<open>src/deprecated/espbase/json.hpp\<close>). The library is not part of the
  repository: its functions are the fields of the parameter \<open>api\<close> over a state of any type \<open>'e\<close>, with nodes of any
  type \<open>'h\<close> and floating-point numbers of any type \<open>'d\<close>, and what the builders rely on is \<open>cjson_laws\<close>, stated
  over the entries of an object in their order.
\<close>

section \<open>The library\<close>

datatype 'd cj_value = CNull | CString bytes | CBool bool | CNumber 'd | CRaw bytes | COther

record ('h, 'd, 'e) cjson_api =
  cj_find :: "'h \<Rightarrow> bytes \<Rightarrow> 'e \<Rightarrow> 'h option"
  cj_get :: "'h \<Rightarrow> bytes \<Rightarrow> 'e \<Rightarrow> 'h option"
  cj_is_object :: "'h \<Rightarrow> 'e \<Rightarrow> bool"
  cj_kind :: "'h \<Rightarrow> 'e \<Rightarrow> 'd cj_value"
  cj_valueint :: "'h \<Rightarrow> 'e \<Rightarrow> 32 word"
  cj_add :: "'h \<Rightarrow> bytes \<Rightarrow> 'd cj_value \<Rightarrow> 'e \<Rightarrow> 'e"
  cj_add_copy :: "'h \<Rightarrow> bytes \<Rightarrow> 'h \<Rightarrow> 'e \<Rightarrow> 'e"
  cj_add_object :: "'h \<Rightarrow> bytes \<Rightarrow> 'e \<Rightarrow> 'h \<times> 'e"
  cj_add_array :: "'h \<Rightarrow> bytes \<Rightarrow> 'e \<Rightarrow> 'h \<times> 'e"
  cj_push :: "'h \<Rightarrow> 'd cj_value \<Rightarrow> 'e \<Rightarrow> 'e"
  cj_push_object :: "'h \<Rightarrow> 'e \<Rightarrow> 'h \<times> 'e"
  cj_push_array :: "'h \<Rightarrow> 'e \<Rightarrow> 'h \<times> 'e"
  cj_delete :: "'h \<Rightarrow> 'h \<Rightarrow> 'e \<Rightarrow> 'e"
  cj_set_string :: "'h \<Rightarrow> bytes \<Rightarrow> 'e \<Rightarrow> 'e"
  cj_set_bool :: "'h \<Rightarrow> bool \<Rightarrow> 'e \<Rightarrow> 'e"
  cj_set_number :: "'h \<Rightarrow> 'd \<Rightarrow> 'e \<Rightarrow> 'e"
  cj_next :: "'h \<Rightarrow> 'e \<Rightarrow> 'h option"
  cj_print :: "bool \<Rightarrow> 'h \<Rightarrow> 'e \<Rightarrow> bytes option"

section \<open>Views\<close>

text \<open>\<open>JsonNodeView\<close>: a node or null.\<close>

definition node_index :: "('h, 'd, 'e) cjson_api \<Rightarrow> 'h option \<Rightarrow> bytes \<Rightarrow> 'e \<Rightarrow> 'h option" where
  "node_index api node key e =
     (case node of None \<Rightarrow> None | Some n \<Rightarrow> if \<not> cj_is_object api n e then None else cj_get api n key e)"

definition as_string :: "('h, 'd, 'e) cjson_api \<Rightarrow> 'h option \<Rightarrow> 'e \<Rightarrow> bytes option" where
  "as_string api node e =
     (case node of None \<Rightarrow> None | Some n \<Rightarrow> (case cj_kind api n e of CString s \<Rightarrow> Some s | _ \<Rightarrow> None))"

definition as_int :: "('h, 'd, 'e) cjson_api \<Rightarrow> 'h option \<Rightarrow> 'e \<Rightarrow> 32 word option" where
  "as_int api node e =
     (case node of None \<Rightarrow> None | Some n \<Rightarrow> (case cj_kind api n e of CNumber d \<Rightarrow> Some (cj_valueint api n e) | _ \<Rightarrow> None))"

definition as_double :: "('h, 'd, 'e) cjson_api \<Rightarrow> 'h option \<Rightarrow> 'e \<Rightarrow> 'd option" where
  "as_double api node e =
     (case node of None \<Rightarrow> None | Some n \<Rightarrow> (case cj_kind api n e of CNumber d \<Rightarrow> Some d | _ \<Rightarrow> None))"

definition as_bool :: "('h, 'd, 'e) cjson_api \<Rightarrow> 'h option \<Rightarrow> 'e \<Rightarrow> bool option" where
  "as_bool api node e =
     (case node of None \<Rightarrow> None | Some n \<Rightarrow> (case cj_kind api n e of CBool b \<Rightarrow> Some b | _ \<Rightarrow> None))"

text \<open>The overloads of \<open>change\<close> differ in the extractor and in how its result becomes the new value: \<open>mapper\<close> is
  the identity, the cast from \<open>double\<close> or the caller's function.\<close>

definition change_to :: "'a option \<Rightarrow> ('a \<Rightarrow> 'v) \<Rightarrow> 'v \<Rightarrow> 'v \<times> bool" where
  "change_to state mapper old =
     (case state of None \<Rightarrow> (old, False)
      | Some s \<Rightarrow> let new = mapper s in if new \<noteq> old then (new, True) else (old, False))"

definition change_string :: "('h, 'd, 'e) cjson_api \<Rightarrow> 'h option \<Rightarrow> bytes \<Rightarrow> 'e \<Rightarrow> bytes \<Rightarrow> bytes \<times> bool" where
  "change_string api node key e old = change_to (as_string api (node_index api node key e) e) id old"

definition change_bool :: "('h, 'd, 'e) cjson_api \<Rightarrow> 'h option \<Rightarrow> bytes \<Rightarrow> 'e \<Rightarrow> bool \<Rightarrow> bool \<times> bool" where
  "change_bool api node key e old = change_to (as_bool api (node_index api node key e) e) id old"

definition change_number :: "('h, 'd, 'e) cjson_api \<Rightarrow> ('d \<Rightarrow> 'v) \<Rightarrow> 'h option \<Rightarrow> bytes \<Rightarrow> 'e \<Rightarrow> 'v \<Rightarrow> 'v \<times> bool" where
  "change_number api cast node key e old = change_to (as_double api (node_index api node key e) e) cast old"

definition change_mapped :: "('h, 'd, 'e) cjson_api \<Rightarrow> (bytes \<Rightarrow> 'v) \<Rightarrow> 'h option \<Rightarrow> bytes \<Rightarrow> 'e \<Rightarrow> 'v \<Rightarrow> 'v \<times> bool" where
  "change_mapped api mapper node key e old = change_to (as_string api (node_index api node key e) e) mapper old"

text \<open>The tests and the accessors of \<open>JsonNodeView\<close> and \<open>JsonIterator\<close>; the postfix increment gives the old iterator too.\<close>

definition view_bool :: "'h option \<Rightarrow> bool" where
  "view_bool node \<longleftrightarrow> node \<noteq> None"

definition iterator_deref :: "'h option \<Rightarrow> 'h option" where
  "iterator_deref current = current"

definition iterator_eq :: "'h option \<Rightarrow> 'h option \<Rightarrow> bool" where
  "iterator_eq a b \<longleftrightarrow> a = b"

definition iterator_next :: "('h, 'd, 'e) cjson_api \<Rightarrow> 'h option \<Rightarrow> 'e \<Rightarrow> 'h option" where
  "iterator_next api current e = (case current of None \<Rightarrow> None | Some n \<Rightarrow> cj_next api n e)"

definition iterator_postfix :: "('h, 'd, 'e) cjson_api \<Rightarrow> 'h option \<Rightarrow> 'e \<Rightarrow> 'h option \<times> 'h option" where
  "iterator_postfix api current e = (current, iterator_next api current e)"

definition document_to_string :: "('h, 'd, 'e) cjson_api \<Rightarrow> bool \<Rightarrow> 'h \<Rightarrow> 'e \<Rightarrow> bytes" where
  "document_to_string api formatted rt e = (case cj_print api formatted rt e of Some s \<Rightarrow> s | None \<Rightarrow> [])"

section \<open>Builders\<close>

text \<open>The overload set of \<open>JsonSupported\<close>, numbers after their conversion to \<open>double\<close>.\<close>

datatype 'd json_arg = ANull | AStr bytes | ABool bool | ANum 'd

fun arg_value :: "'d json_arg \<Rightarrow> 'd cj_value" where
  "arg_value ANull = CNull"
| "arg_value (AStr s) = CString s"
| "arg_value (ABool b) = CBool b"
| "arg_value (ANum d) = CNumber d"

definition array_push :: "('h, 'd, 'e) cjson_api \<Rightarrow> 'h \<Rightarrow> 'd json_arg \<Rightarrow> 'e \<Rightarrow> 'e" where
  "array_push api target val e = cj_push api target (arg_value val) e"

definition array_push_object :: "('h, 'd, 'e) cjson_api \<Rightarrow> 'h \<Rightarrow> ('h \<Rightarrow> 'e \<Rightarrow> 'e) \<Rightarrow> 'e \<Rightarrow> 'e" where
  "array_push_object api target callback e = (let (child, e) = cj_push_object api target e in callback child e)"

definition array_push_array :: "('h, 'd, 'e) cjson_api \<Rightarrow> 'h \<Rightarrow> ('h \<Rightarrow> 'e \<Rightarrow> 'e) \<Rightarrow> 'e \<Rightarrow> 'e" where
  "array_push_array api target callback e = (let (child, e) = cj_push_array api target e in callback child e)"

definition key_exists :: "('h, 'd, 'e) cjson_api \<Rightarrow> 'h \<Rightarrow> bytes \<Rightarrow> 'e \<Rightarrow> bool" where
  "key_exists api target key e \<longleftrightarrow> cj_find api target key e \<noteq> None"

definition object_add :: "('h, 'd, 'e) cjson_api \<Rightarrow> 'h \<Rightarrow> bytes \<Rightarrow> 'd json_arg \<Rightarrow> 'e \<Rightarrow> 'e" where
  "object_add api target key val e = cj_add api target key (arg_value val) e"

definition object_add_raw :: "('h, 'd, 'e) cjson_api \<Rightarrow> 'h \<Rightarrow> bytes \<Rightarrow> bytes \<Rightarrow> 'e \<Rightarrow> 'e" where
  "object_add_raw api target key raw e = cj_add api target key (CRaw raw) e"

definition object_add_graft :: "('h, 'd, 'e) cjson_api \<Rightarrow> 'h \<Rightarrow> bytes \<Rightarrow> 'h \<Rightarrow> 'e \<Rightarrow> 'e" where
  "object_add_graft api target key node e = cj_add_copy api target key node e"

definition delete_existing :: "('h, 'd, 'e) cjson_api \<Rightarrow> 'h \<Rightarrow> 'h option \<Rightarrow> 'e \<Rightarrow> 'e" where
  "delete_existing api target existing e = (case existing of None \<Rightarrow> e | Some h \<Rightarrow> cj_delete api target h e)"

definition object_set :: "('h, 'd, 'e) cjson_api \<Rightarrow> 'h \<Rightarrow> bytes \<Rightarrow> 'd json_arg \<Rightarrow> 'e \<Rightarrow> 'e" where
  "object_set api target key val e =
     (case cj_find api target key e of
        None \<Rightarrow> object_add api target key val e
      | Some existing \<Rightarrow>
          if cj_kind api existing e = CNull then
            (case val of ANull \<Rightarrow> e
             | _ \<Rightarrow> object_add api target key val (delete_existing api target (Some existing) e))
          else
            (case val of
               ANull \<Rightarrow> object_add api target key ANull (delete_existing api target (Some existing) e)
             | AStr s \<Rightarrow> cj_set_string api existing s e
             | ABool b \<Rightarrow> cj_set_bool api existing b e
             | ANum d \<Rightarrow> cj_set_number api existing d e))"

text \<open>The overloads for \<open>std::string\<close> pass its C string, which ends at the first NUL.\<close>

definition c_string :: "bytes \<Rightarrow> bytes" where
  "c_string s = takeWhile (\<lambda>c. c \<noteq> ch_nul) s"

definition object_add_string :: "('h, 'd, 'e) cjson_api \<Rightarrow> 'h \<Rightarrow> bytes \<Rightarrow> bytes \<Rightarrow> 'e \<Rightarrow> 'e" where
  "object_add_string api target key val e = object_add api target key (AStr (c_string val)) e"

definition object_set_string :: "('h, 'd, 'e) cjson_api \<Rightarrow> 'h \<Rightarrow> bytes \<Rightarrow> bytes \<Rightarrow> 'e \<Rightarrow> 'e" where
  "object_set_string api target key val e = object_set api target key (AStr (c_string val)) e"

text \<open>The overload for \<open>std::string_view\<close>: a C string is made on the stack or on the heap (it ends at the first
  NUL), and added.\<close>

definition object_set_view :: "('h, 'd, 'e) cjson_api \<Rightarrow> 'h \<Rightarrow> bytes \<Rightarrow> bytes \<Rightarrow> 'e \<Rightarrow> 'e" where
  "object_set_view api target key s e = cj_add api target key (CString (c_string s)) e"

definition object_set_raw :: "('h, 'd, 'e) cjson_api \<Rightarrow> 'h \<Rightarrow> bytes \<Rightarrow> bytes \<Rightarrow> 'e \<Rightarrow> 'e" where
  "object_set_raw api target key raw e =
     object_add_raw api target key raw (delete_existing api target (cj_find api target key e) e)"

definition with_object :: "('h, 'd, 'e) cjson_api \<Rightarrow> 'h \<Rightarrow> bytes \<Rightarrow> ('h \<Rightarrow> 'e \<Rightarrow> 'e) \<Rightarrow> 'e \<Rightarrow> 'e" where
  "with_object api target key callback e = (let (child, e) = cj_add_object api target key e in callback child e)"

definition with_array :: "('h, 'd, 'e) cjson_api \<Rightarrow> 'h \<Rightarrow> bytes \<Rightarrow> ('h \<Rightarrow> 'e \<Rightarrow> 'e) \<Rightarrow> 'e \<Rightarrow> 'e" where
  "with_array api target key callback e = (let (child, e) = cj_add_array api target key e in callback child e)"

section \<open>What the library promises\<close>

text \<open>
  \<open>entries e t\<close> are the members of object \<open>t\<close>, \<open>pos e h\<close> is the index of node \<open>h\<close> among those of \<open>t\<close>. A search
  finds the first member with the key; adding appends without looking at the keys; the setters replace
  a value of their own type and leave any other alone.
\<close>

definition same_kind :: "'d cj_value \<Rightarrow> 'd cj_value \<Rightarrow> bool" where
  "same_kind v w \<longleftrightarrow> (case (v, w) of (CString _, CString _) \<Rightarrow> True | (CBool _, CBool _) \<Rightarrow> True
     | (CNumber _, CNumber _) \<Rightarrow> True | (CNull, CNull) \<Rightarrow> True | _ \<Rightarrow> False)"

definition cjson_laws :: "('h, 'd, 'e) cjson_api \<Rightarrow> ('e \<Rightarrow> 'h \<Rightarrow> (bytes \<times> 'd cj_value) list) \<Rightarrow> bool" where
  "cjson_laws api entries \<longleftrightarrow>
     (\<forall>t k e. cj_find api t k e = None \<longrightarrow> k \<notin> fst ` set (entries e t)) \<and>
     (\<forall>t k e h. cj_find api t k e = Some h \<longrightarrow>
        (\<exists>pre v post. entries e t = pre @ (k, v) # post \<and> k \<notin> fst ` set pre \<and> cj_kind api h e = v \<and>
           entries (cj_delete api t h e) t = pre @ post \<and>
           (\<forall>s. entries (cj_set_string api h s e) t = pre @ (k, if same_kind v (CString s) then CString s else v) # post) \<and>
           (\<forall>b. entries (cj_set_bool api h b e) t = pre @ (k, if same_kind v (CBool b) then CBool b else v) # post) \<and>
           (\<forall>d. entries (cj_set_number api h d e) t = pre @ (k, if same_kind v (CNumber d) then CNumber d else v) # post))) \<and>
     (\<forall>t k v e. entries (cj_add api t k v e) t = entries e t @ [(k, v)])"

lemma cjson_lawsD:
  assumes "cjson_laws api entries"
  shows "cj_find api t k e = None \<Longrightarrow> k \<notin> fst ` set (entries e t)"
    and "cj_find api t k e = Some h \<Longrightarrow>
      \<exists>pre v post. entries e t = pre @ (k, v) # post \<and> k \<notin> fst ` set pre \<and> cj_kind api h e = v \<and>
           entries (cj_delete api t h e) t = pre @ post \<and>
           (\<forall>s. entries (cj_set_string api h s e) t = pre @ (k, if same_kind v (CString s) then CString s else v) # post) \<and>
           (\<forall>b. entries (cj_set_bool api h b e) t = pre @ (k, if same_kind v (CBool b) then CBool b else v) # post) \<and>
           (\<forall>d. entries (cj_set_number api h d e) t = pre @ (k, if same_kind v (CNumber d) then CNumber d else v) # post)"
    and "entries (cj_add api t k v e) t = entries e t @ [(k, v)]"
proof -
  note laws = assms[unfolded cjson_laws_def]
  show "cj_find api t k e = None \<Longrightarrow> k \<notin> fst ` set (entries e t)"
    by (rule laws[THEN conjunct1, rule_format])
  show "entries (cj_add api t k v e) t = entries e t @ [(k, v)]"
    by (rule laws[THEN conjunct2, THEN conjunct2, rule_format])
  show "\<exists>pre v post. entries e t = pre @ (k, v) # post \<and> k \<notin> fst ` set pre \<and> cj_kind api h e = v \<and>
           entries (cj_delete api t h e) t = pre @ post \<and>
           (\<forall>s. entries (cj_set_string api h s e) t = pre @ (k, if same_kind v (CString s) then CString s else v) # post) \<and>
           (\<forall>b. entries (cj_set_bool api h b e) t = pre @ (k, if same_kind v (CBool b) then CBool b else v) # post) \<and>
           (\<forall>d. entries (cj_set_number api h d e) t = pre @ (k, if same_kind v (CNumber d) then CNumber d else v) # post)"
    if "cj_find api t k e = Some h"
    using laws[THEN conjunct2, THEN conjunct1] that by blast
qed

text \<open>The value that \<open>set\<close> leaves under its key: types are only changed from and to null.\<close>

definition set_value :: "'d cj_value option \<Rightarrow> 'd json_arg \<Rightarrow> 'd cj_value" where
  "set_value old val =
     (case old of None \<Rightarrow> arg_value val
      | Some v \<Rightarrow> if v = CNull \<or> val = ANull \<or> same_kind v (arg_value val) then arg_value val else v)"

lemma map_of_snoc: "k \<notin> fst ` set xs \<Longrightarrow> map_of (xs @ [(k, v)]) = (map_of xs)(k \<mapsto> v)"
  by (induction xs) (auto simp: fun_upd_twist)

lemma map_of_snoc_old: "k \<in> fst ` set xs \<Longrightarrow> map_of (xs @ [(k, v)]) = map_of xs"
proof -
  assume "k \<in> fst ` set xs"
  then have "map_of xs k \<noteq> None" by (simp add: map_of_eq_None_iff)
  then have "([k \<mapsto> v] ++ map_of xs) x = map_of xs x" for x
    by (cases "map_of xs x"; cases "x = k") (simp_all add: map_add_def)
  then show ?thesis by auto
qed

lemma map_of_middle: "k \<notin> fst ` set pre \<Longrightarrow> map_of (pre @ (k, v) # post) = (map_of (pre @ post))(k \<mapsto> v)"
  by (induction pre) (auto simp: fun_upd_twist)

text \<open>On an object without duplicate keys \<open>set\<close> and \<open>set_raw\<close> are an update of the map it stands for, and
  keep the keys distinct; the overload of \<open>set\<close> for a \<open>string_view\<close> appends a second member when the key
  exists, and every reader still finds the first one.\<close>

theorem object_set_map:
  assumes laws: "cjson_laws api entries" and dist: "distinct (map fst (entries e t))"
  shows "distinct (map fst (entries (object_set api t key val e) t)) \<and>
    map_of (entries (object_set api t key val e) t) =
      (map_of (entries e t))(key \<mapsto> set_value (map_of (entries e t) key) val)"
proof (cases "cj_find api t key e")
  case None
  note new = cjson_lawsD(1)[OF laws None]
  then have "map_of (entries e t) key = None" by (simp add: map_of_eq_None_iff)
  with new dist map_of_snoc[OF new] show ?thesis
    by (simp add: object_set_def None object_add_def cjson_lawsD(3)[OF laws] set_value_def del: map_of_append)
next
  case (Some h)
  from cjson_lawsD(2)[OF laws Some] obtain pre v post where f:
    "entries e t = pre @ (key, v) # post" "key \<notin> fst ` set pre" "cj_kind api h e = v"
    "entries (cj_delete api t h e) t = pre @ post"
    "\<And>s. entries (cj_set_string api h s e) t = pre @ (key, if same_kind v (CString s) then CString s else v) # post"
    "\<And>b. entries (cj_set_bool api h b e) t = pre @ (key, if same_kind v (CBool b) then CBool b else v) # post"
    "\<And>d. entries (cj_set_number api h d e) t = pre @ (key, if same_kind v (CNumber d) then CNumber d else v) # post"
    by blast
  have k: "key \<notin> fst ` set (pre @ post)" using dist f(1,2) by auto
  have old: "map_of (entries e t) key = Some v" using map_of_middle[OF f(2)] f(1) by (simp del: map_of_append)
  have d: "distinct (map fst (pre @ (key, w) # post))" "distinct (map fst ((pre @ post) @ [(key, w)]))" for w
    using dist f(1) k by auto
  have m: "map_of ((pre @ post) @ [(key, w)]) = (map_of (entries e t))(key \<mapsto> w)"
    "map_of (pre @ (key, w) # post) = (map_of (entries e t))(key \<mapsto> w)" for w
    using map_of_snoc[OF k] map_of_middle[OF f(2)] f(1) by (simp_all del: map_of_append)
  have "entries (object_set api t key val e) t \<in>
      {pre @ (key, set_value (Some v) val) # post, (pre @ post) @ [(key, set_value (Some v) val)]}"
    using f(1,3) by (cases val) (auto simp: object_set_def Some object_add_def delete_existing_def
        cjson_lawsD(3)[OF laws] f(4-7) set_value_def)
  then show ?thesis unfolding old using d m by (metis insertE singletonD)
qed

lemma object_set_raw_map:
  assumes laws: "cjson_laws api entries" and dist: "distinct (map fst (entries e t))"
  shows "distinct (map fst (entries (object_set_raw api t key raw e) t)) \<and>
    map_of (entries (object_set_raw api t key raw e) t) = (map_of (entries e t))(key \<mapsto> CRaw raw)"
proof (cases "cj_find api t key e")
  case None
  note new = cjson_lawsD(1)[OF laws None]
  with dist map_of_snoc[OF new] show ?thesis
    by (simp add: object_set_raw_def object_add_raw_def delete_existing_def None cjson_lawsD(3)[OF laws] del: map_of_append)
next
  case (Some h)
  from cjson_lawsD(2)[OF laws Some] obtain pre v post where f:
    "entries e t = pre @ (key, v) # post" "key \<notin> fst ` set pre" "entries (cj_delete api t h e) t = pre @ post"
    by blast
  have k: "key \<notin> fst ` set (pre @ post)" using dist f(1,2) by auto
  have "entries (object_set_raw api t key raw e) t = (pre @ post) @ [(key, CRaw raw)]"
    by (simp add: object_set_raw_def object_add_raw_def delete_existing_def Some cjson_lawsD(3)[OF laws] f(3))
  moreover have "map_of ((pre @ post) @ [(key, CRaw raw)]) = (map_of (entries e t))(key \<mapsto> CRaw raw)"
    using map_of_snoc[OF k] map_of_middle[OF f(2)] f(1) by (simp del: map_of_append)
  ultimately show ?thesis using dist f(1) k by auto
qed

lemma object_set_view_duplicates:
  assumes laws: "cjson_laws api entries" and "key \<in> dom (map_of (entries e t))"
  shows "\<not> distinct (map fst (entries (object_set_view api t key s e) t)) \<and>
    map_of (entries (object_set_view api t key s e) t) = map_of (entries e t)"
proof -
  have k: "key \<in> fst ` set (entries e t)" using assms(2) by (simp add: dom_map_of_conv_image_fst)
  show ?thesis
    using map_of_snoc_old[OF k] k by (simp add: object_set_view_def cjson_lawsD(3)[OF laws] del: map_of_append)
qed

end
