(* ===== verification/Unit_Tests.thy ===== *)
theory Unit_Tests
  imports Iterate Catch_All Pretty
begin

text \<open>
  The repository's own unit tests of \<open>stack_json\<close> (\<open>src/tests/espbase/stack_json\<close>) evaluated on the
  model: the same inputs, the results that the tests expect. In the texts a back quote stands for a
  quotation mark, \<open>~\<close> for a line feed and \<open>^\<close> for a backslash.
\<close>

definition lit :: "string \<Rightarrow> bytes" where
  "lit s = map (\<lambda>c. if c = CHR ''`'' then ch_quote else if c = CHR ''~'' then ch_lf
     else if c = CHR ''^'' then ch_bslash else c) s"

text \<open>A node whose value is a string literal of C.\<close>

definition str_node :: "path \<Rightarrow> string \<Rightarrow> jnode" where
  "str_node p s = jnode_of p (CStr (Some (lit s)))"

section \<open>Emission\<close>

text \<open>What a \<open>StackBuffer<256>\<close> shows after the emission of a document.\<close>

definition emitted :: "jnode list \<Rightarrow> bytes option" where
  "emitted ns = map_option (sb_view \<circ> fst) (stack_json_emit stack_ops ns (stack_buffer_new 256))"

text \<open>\<open>DocumentTest.DeviceTree\<close>\<close>

lemma device_tree:
  "emitted [str_node [''name''] ''Temperatures'', str_node [''device'', ''identifier''] ''my_device_id'',
     str_node [''device'', ''prop'', ''units''] ''degrees'', jnode_of [''device'', ''prop'', ''value''] (SInt 22)] =
   Some (lit ''{`name`:`Temperatures`,`device`:{`identifier`:`my_device_id`,`prop`:{`units`:`degrees`,`value`:22}}}'')"
  by code_simp

text \<open>\<open>DocumentTest.ArrayOfObjects\<close>\<close>

lemma array_of_objects:
  "emitted [jnode_of [''users''] (Elements
     [Doc [jnode_of [''id''] (SInt 1), str_node [''name''] ''Alice''],
      Doc [jnode_of [''id''] (SInt 2), str_node [''name''] ''Bob'']])] =
   Some (lit ''{`users`:[{`id`:1,`name`:`Alice`},{`id`:2,`name`:`Bob`}]}'')"
  by code_simp

text \<open>\<open>DocumentTest.Escaping\<close>, \<open>DocumentTest.EscapedKeys\<close>\<close>

lemma escaping:
  "emitted [str_node [''text''] ''Line 1~Line 2'', str_node [''quote''] ''He said, `Hello`'',
     str_node [''path''] ''C:^temp^file.txt''] =
   Some (lit ''{`text`:`Line 1^nLine 2`,`quote`:`He said, ^`Hello^``,`path`:`C:^^temp^^file.txt`}'')"
  by code_simp

lemma escaped_keys:
  "emitted [str_node [lit ''weird`key~name''] ''value''] = Some (lit ''{`weird^`key^nname`:`value`}'')"
  by code_simp

text \<open>\<open>DocumentTest.MixedDeviceState\<close>\<close>

lemma mixed_device_state:
  "emitted [str_node [''device'', ''name''] ''espuck_node_01'', jnode_of [''device'', ''online''] (Bool True),
     jnode_of [''device'', ''signal_strength''] (Double (Some ''-55.5'')), jnode_of [''device'', ''last_error''] Null,
     jnode_of [''device'', ''features''] (Elements [CStr (Some ''touch''), CStr (Some ''ble'')])] =
   Some (lit ''{`device`:{`name`:`espuck_node_01`,`online`:true,`signal_strength`:-55.5,`last_error`:null,`features`:[`touch`,`ble`]}}'')"
  by code_simp

text \<open>\<open>DocumentTest.DoesNullCharEmitNull\<close>, \<open>DocumentTest.NullPathKeyEmitsErrorString\<close>\<close>

lemma null_string:
  "emitted [str_node [''name''] ''espuck'', jnode_of [''value''] (CStr None)] = Some (lit ''{`name`:`espuck`,`value`:null}'')"
  by code_simp

lemma null_path_key:
  "emitted [str_node (make_path [Some ''config'', None]) ''my_value''] =
   Some (lit ''{`config`:{`null_path_error`:`my_value`}}'')"
  by code_simp

text \<open>\<open>FormatTest.PrintfCallbackEscaping\<close>\<close>

lemma printf_callback_escaping:
  "emitted [jnode_of [''unique_id''] (Printed [Print (Some ''espuck_temp_01'')]),
     jnode_of [''chaotic_topic''] (Printed [Print (Some (lit ''home/state~`quoted`''))]),
     jnode_of [''print_twice''] (Printed [Print (Some ''repeat me''), Print (Some '' and again'')])] =
   Some (lit ''{`unique_id`:`espuck_temp_01`,`chaotic_topic`:`home/state^n^`quoted^``,`print_twice`:`repeat me and again`}'')"
  by code_simp

text \<open>\<open>NodeIfTest.RootKeyCondition\<close>, \<open>NodeIfTest.PointerNullCheck\<close>\<close>

lemma root_key_condition:
  "emitted [jnode_if True [''status''] (CStr (Some ''online'')), jnode_if False [''secret''] (CStr (Some ''dont_show''))] =
   Some (lit ''{`status`:`online`}'')"
  by code_simp

lemma pointer_null_check:
  "emitted [jnode_if_str [''device_class''] (Some ''sensor''), jnode_if_str [''missing_class''] None,
     jnode_if_str [''config'', ''valid_name''] (Some ''sensor''), jnode_if_str [''config'', ''missing_name''] None] =
   Some (lit ''{`device_class`:`sensor`,`config`:{`valid_name`:`sensor`}}'')"
  by code_simp

text \<open>\<open>StreamArrayTest.TopLevelArray\<close>, \<open>StreamArrayTest.EarlyTerminationOnBufferFull\<close>\<close>

definition streamed :: "nat \<Rightarrow> bool \<Rightarrow> jval list \<Rightarrow> (bytes \<times> bool) option" where
  "streamed cap stop vs =
     map_option (\<lambda>(b, _). (sb_view b, sb_bad b)) (stream_array_emit stack_ops stop vs (stack_buffer_new cap))"

lemma top_level_array: "streamed 64 False [SInt 10, SInt 20, SInt 30] = Some (''[10,20,30]'', False)"
  by code_simp

lemma early_termination_on_buffer_full:
  "streamed 25 True (replicate 50 (CStr (Some ''long_string_payload''))) = Some (lit ''[`long_string_payload`,`]'', True)"
  by code_simp

text \<open>\<open>BuilderTest.CapacityOverflowProtection\<close>, \<open>BuilderTest.MergedObjectPaths\<close>\<close>

definition built :: "builder \<Rightarrow> bytes option" where
  "built bl = map_option (sb_view \<circ> fst) (builder_emit stack_ops bl (stack_buffer_new 128))"

lemma capacity_overflow_protection:
  "built (builder_add (stack_builder_new 2)
     [(0, jnode_of [''first''] (SInt 1)), (1, jnode_of [''second''] (SInt 2)), (2, jnode_of [''third''] (SInt 3))]) =
   Some (lit ''{`first`:1,`second`:2}'')"
  by code_simp

lemma merged_object_paths:
  "built (builder_add (builder_add (stack_builder_new 16) [(0, jnode_of [''config'', ''retries''] (SInt 3))])
     [(1, jnode_of [''config'', ''timeout''] (SInt 1000))]) =
   Some (lit ''{`config`:{`retries`:3,`timeout`:1000}}'')"
  by code_simp

text \<open>\<open>DynamicBufferTest.GrowsAsNeeded\<close>, \<open>PrettyBufferTest.PrettyPrintDecorator\<close>\<close>

definition wifi_document :: "jnode list" where
  "wifi_document =
     [str_node [''system''] ''espuck'',
      jnode_of [''wifi''] (Doc [str_node [''ssid''] ''Home_Network'', jnode_of [''rssi''] (SInt (-65))]),
      jnode_of [''flags''] (Elements [SInt 1, SInt 2])]"

lemma grows_as_needed:
  "map_option (db_view \<circ> fst) (stack_json_emit dynamic_ops wifi_document (dynamic_buffer_new 8)) =
   Some (lit ''{`system`:`espuck`,`wifi`:{`ssid`:`Home_Network`,`rssi`:-65},`flags`:[1,2]}'')"
  by code_simp

lemma pretty_print_decorator:
  "map_option (sb_view \<circ> pb_dest \<circ> fst)
     (stack_json_emit (pretty_ops stack_ops) wifi_document (pretty_new (stack_buffer_new 256) 2)) =
   Some (lit ''{~  `system`: `espuck`,~  `wifi`: {~    `ssid`: `Home_Network`,~    `rssi`: -65~  },~  `flags`: [~    1,~    2~  ]~}'')"
  by code_simp

section \<open>Parsing\<close>

text \<open>What the bindings hold after a parse: whether they are set, whether they are null, the target.\<close>

definition bound :: "string \<Rightarrow> (path \<times> target) list \<Rightarrow> (bool \<times> bool \<times> node_class) list" where
  "bound s bs = map (\<lambda>n. (is_set n, is_null n, pn_class n)) (parser_parse (lit s) (map (\<lambda>(p, t). bind_node p t) bs))"

text \<open>\<open>ParserTest.LightSensorPayload\<close>, \<open>ParserTest.RawStringViewBinding\<close>, \<open>ParserTest.AutoDecodeSpanBinding\<close>\<close>

lemma light_sensor_payload:
  "bound ''{`state`: `ON`, `brightness`: `50`, `color`: {`r`: 100, `g`: 30}}''
     [([''state''], TView ''OFF''), ([''brightness''], TInt (Signed 32) 0),
      ([''color'', ''g''], TInt (Unsigned 8) 0), ([''color'', ''r''], TInt (Unsigned 8) 0)] =
   [(True, False, BindNode (TView ''ON'')), (True, False, BindNode (TInt (Signed 32) 50)),
    (True, False, BindNode (TInt (Unsigned 8) 30)), (True, False, BindNode (TInt (Unsigned 8) 100))]"
  by code_simp

lemma raw_string_view_binding:
  "bound ''{`text`: `Line1^nLine2`, `quote`: `^`Hello^``}'' [([''text''], TView []), ([''quote''], TView [])] =
   [(True, False, BindNode (TView (lit ''Line1^nLine2''))), (True, False, BindNode (TView (lit ''^`Hello^`'')))]"
  by code_simp

lemma auto_decode_span_binding:
  "bound ''{`text`: `Line1^nLine2`, `quote`: `^`Hello^``}''
     [([''text''], TSpan (replicate 32 CHR ''x'')), ([''quote''], TSpan (replicate 32 CHR ''x''))] =
   [(True, False, BindNode (TSpan (lit ''Line1~Line2''))), (True, False, BindNode (TSpan (lit ''`Hello`'')))]"
  by code_simp

text \<open>\<open>ParserTest.PrimitiveNullBehavior\<close>, \<open>ParserTest.ExplicitNullTracking\<close>\<close>

lemma primitive_null_behavior:
  "bound ''{`temperature`: null,~ `is_active`: null,~ `label`: null~}''
     [([''temperature''], TInt (Signed 32) 22), ([''is_active''], TBool True), ([''label''], TView ''Living Room'')] =
   [(True, True, BindNode (TInt (Signed 32) 0)), (True, True, BindNode (TBool False)),
    (True, True, BindNode (TView []))]"
  by code_simp

lemma explicit_null_tracking:
  "bound ''{`other`: `value`}'' [([''brightness''], TInt (Signed 32) 100)] =
   [(False, False, BindNode (TInt (Signed 32) 100))]"
  by code_simp

text \<open>\<open>ParserTest.UnicodeHexDecoding\<close>\<close>

lemma unicode_hex_decoding:
  "bound ''{`temp_unit`: `24^u00B0C`, `status`: `^u2713`}'' [([''temp_unit''], TString []), ([''status''], TString [])] =
   [(True, False, BindNode (TString [CHR ''2'', CHR ''4'', CHR 0xC2, CHR 0xB0, CHR ''C''])),
    (True, False, BindNode (TString [CHR 0xE2, CHR 0x9C, CHR 0x93]))]"
  by code_simp

text \<open>\<open>ParserTest.TrailingCommasAndArrays\<close>, \<open>ParserTest.CommentsAndJSONC\<close>\<close>

lemma trailing_commas_and_arrays:
  "bound ''{~ `temperature`: 22,~ `history`: [1, 2, 3,],~ `active`: true,~}''
     [([''temperature''], TInt (Signed 32) 0), ([''active''], TBool False)] =
   [(True, False, BindNode (TInt (Signed 32) 22)), (True, False, BindNode (TBool True))]"
  by code_simp

lemma comments_and_jsonc:
  "bound ''~ {~ // The main configuration~ `hostname`: `espuck_01`, /* Do not change */~ `port`: 8080 // Webserver~ }~''
     [([''hostname''], TView []), ([''port''], TInt (Signed 32) 0)] =
   [(True, False, BindNode (TView ''espuck_01'')), (True, False, BindNode (TInt (Signed 32) 8080))]"
  by code_simp

text \<open>\<open>ParserTest.DynamicNodeArrayIteration\<close>, \<open>ParserTest.DynamicNodeObjectArrayIteration\<close>\<close>

definition iterated :: "string \<Rightarrow> path \<Rightarrow> target \<Rightarrow> target list" where
  "iterated s p t =
     (case parser_parse (lit s) [bind_dynamic p] of
        n # _ \<Rightarrow> (case pn_class n of DynamicNode d \<Rightarrow> extract_all (is_set n) (is_null n) d t | _ \<Rightarrow> []))"

lemma dynamic_node_array_iteration:
  "iterated ''{`tags`: [`a`, `b`, `c`], `numbers`: [10, 20, 30]}'' [''tags''] (TString []) =
     [TString ''a'', TString ''b'', TString ''c'']"
  "iterated ''{`tags`: [`a`, `b`, `c`], `numbers`: [10, 20, 30]}'' [''numbers''] (TInt (Signed 32) 0) =
     [TInt (Signed 32) 10, TInt (Signed 32) 20, TInt (Signed 32) 30]"
  by code_simp+

lemma dynamic_node_object_array_iteration:
  "iterated ''{`sensors`: [~ {`id`: `temp`, `val`: 22.5},~ {`id`: `hum`, `val`: 55.0}~ ]}'' [''sensors''] (TView []) =
     [TView (lit ''{`id`: `temp`, `val`: 22.5}''), TView (lit ''{`id`: `hum`, `val`: 55.0}'')]"
  by code_simp

text \<open>The bits of \<open>22.5f\<close>.\<close>

lemma real_binding: "coerce_value ''22.5'' False (TReal Float32 0) = TReal Float32 0x41B40000"
proof -
  have "bin_exponent 225 10 = 4" by (simp add: bin_exponent_def)
  then have "encode_fraction Float32 225 10 = Some 0x41B40000"
    by (simp add: encode_fraction_def min_exponent_def infinity_bits_def round_half_even_def)
  then have "from_chars_unsigned Float32 ''22.5'' = Some 0x41B40000"
    by (simp add: from_chars_unsigned_def lower_def exponent_part_def is_digit_def dec_value_def)
  then show ?thesis by (simp add: coerce_real_def from_chars_real_def)
qed

text \<open>\<open>ParserTest.UnknownKeyIterationCallback\<close>\<close>

lemma unknown_key_callback:
  "map calls_of (parser_parse (lit ''{`known`: 42, `unknown_str`: `hello`, `unknown_arr`: [1, 2, 3]}'')
     (json_parser_unknown [bind_node [''known''] (TInt (Signed 32) 0)])) =
   [[([''unknown_str''], ''hello'', True, False), ([''unknown_arr''], ''[1, 2, 3]'', False, False)], []]"
  by code_simp

end
