(* ===== verification/Spec2Isabelle.thy ===== *)
theory Spec2Isabelle
  imports Json_Grammar Round_Trip Catch_All Iterate Pretty Net_Logger Host_Loop Task_Safety Yielding_Task Esp_Timer
    Pm_Lock_Owners Nvs_Emulated Nvs_Handles Ota_Watchdog Delayed_Pm Crash_Loop Shutdown Mac_Address Favicon Psram_Allocator
    Type_Name Json_Deprecated Unit_Tests
begin

text \<open>
  espbase: a library for programs on the ESP32. Its own logic has two halves. \<open>stack_json\<close>
  (\<open>src/espbase/stack_json\<close>) writes and reads JSON without allocating. The system half
  (\<open>src/espbase\<close>, \<open>src/espbase/boot\<close>) wraps tasks, the main loop, storage, power management and the
  boot of the device around ESP-IDF and FreeRTOS. Host builds replace two files of it
  (\<open>src/emulated/espbase\<close>).

  \<^bold>\<open>Conventions.\<close> A C++ \<open>char\<close> is a \<^typ>\<open>char\<close>, text a list of them; an integer whose overflow
  matters is a word of its width, sizes of objects in memory are natural numbers. A struct or class is a
  record, an enum a datatype. An option in the result of a definition has \<^const>\<open>None\<close> where the C++ has no
  defined result (an access out of bounds, a null pointer, a loop that does not end), so a theorem that
  gives \<^const>\<open>Some\<close> also shows that this does not happen. Code that is not in the repository (the kernel, the
  drivers, the storage library, \<open>vsnprintf\<close>, the rendering of floating-point numbers) is an argument;
  what is assumed of it is a named predicate (\<open>pm_laws\<close>, \<open>nvs_laws\<close>, \<open>task_laws\<close>, \<open>timer_laws\<close>) or a locale
  (\<open>kernel\<close>, \<open>platform\<close>, \<open>thread_kernel\<close>, \<open>http_server\<close>, \<open>nvs_handles\<close>), each with an instance for which it holds. The locales
  \<open>buffer\<close>, \<open>block_scanner\<close> and \<open>bounded_fifo\<close> state contracts that definitions of the model fulfil.

  \<^bold>\<open>Writing JSON.\<close>
  \<^item> \<open>Buffers\<close>: \<open>buffer.hpp\<close>, \<open>dynamic_buffer.hpp\<close>. \<open>buffer_ops\<close> is the virtual interface, the locale \<open>buffer\<close> its
    contract (a write appends or reports), interpreted on \<open>StackBuffer\<close> and \<open>DynamicBuffer\<close>; the
    writers below are verified once inside of it.
  \<^item> \<open>Escape\<close>: \<open>Buffer::write_escaped\<close> (\<open>buffer.cpp\<close>) with its fast and slow path against a reference
    literal. \<open>Numbers\<close>: the integer writers of \<open>document.cpp\<close> and \<open>coerce_int\<close> of \<open>parser.cpp\<close>, at every width.
    \<open>Floating\<close>: the decimal text of a number rounded to the bits of a \<open>float\<close> or \<open>double\<close>, as the reader needs it.
  \<^item> \<open>Printer\<close>: \<open>printer.cpp\<close>, the backward expansion of escapes inside the formatted span.
  \<^item> \<open>Document\<close>: paths, nodes and the two passes of \<open>emit_json_nodes\<close> (\<open>path.hpp\<close>, \<open>document.cpp\<close>);
    \<open>Doc_Tree\<close>: the tree that this grouping prints; \<open>Values\<close>: the overload set of \<open>value.hpp\<close>, documents,
    arrays, streams and builders, with the addresses of the nodes a document is given (the flag \<open>emitted_\<close> belongs to
    the node: one that is listed twice is printed once in a nested document), and that the printed tree holds every node
    where its path says; \<open>Json_Text\<close>: the text of an emission is that of a JSON term, whose scalars are tokens that the
    parser can delimit (\<open>prim_text\<close>, also \<open>nan\<close>); \<open>Json_Grammar\<close>: a grammar of JSON that does not depend on the writers, and
    that emissions are in it.
  \<^item> \<open>Pretty\<close>: \<open>pretty_buffer.cpp\<close> against a reference formatter.

  \<^bold>\<open>Reading JSON.\<close>
  \<^item> \<open>Decode\<close>: \<open>decode_json_string\<close>. \<open>Parser\<close>: \<open>parse_json_nodes\<close> (\<open>parser.cpp\<close>, \<open>parser.hpp\<close>) as a loop over a
    state record with the bindings in an explicit list. \<open>Scanning\<close>: the locale \<open>block_scanner\<close> for the
    code that skips nested text, interpreted on the two scanners of the parser. \<open>Parse_Json\<close>: on the
    text of an object the one pass makes the deliveries of a recursion over the object.
  \<^item> \<open>Bindings\<close>: what a single binding receives; also arbitrary bytes. \<open>Catch_All\<close>: the calls that the callback of
    \<open>json_parser\<close> sees. \<open>Iterate\<close>: iteration over the array of a dynamic binding. \<open>Round_Trip\<close>: emission and
    parsing together; this file holds the end-to-end properties.
  \<^item> \<open>Unit_Tests\<close>: the cases of \<open>src/tests/espbase/stack_json\<close>, evaluated on the definitions of both halves.

  \<^bold>\<open>The system.\<close>
  \<^item> \<open>Result\<close>: \<open>esp_result.hpp\<close>. \<open>Ring\<close>: \<open>circular_history_buffer.cpp\<close> as a window of the history written,
    and the stream handler of \<open>boot/network_logger.cpp\<close>; \<open>Net_Logger\<close>: its hook in the logger of ESP-IDF, its
    initialisation, and its routes over the locale \<open>http_server\<close>.
  \<^item> \<open>Main_Loop\<close>: the command queue and the delayed tasks of \<open>main_loop.hpp\<close> over the locale \<open>kernel\<close>, which extends
    \<open>bounded_fifo\<close>; both are interpreted on the queue of \<open>stdlib_main_loop.hpp\<close>, whose worker is a
    step relation. \<open>Host_Loop\<close>: the condition variables of that file, threads asleep and awake.
  \<^item> \<open>Main_Loop_Task\<close>: the operations of \<open>main_loop_task.cpp\<close>, with the counter of steps in flight and the
    version protocol of \<open>notify\<close>. \<open>Task_System\<close>: any number of these tasks on one loop as a step relation, the
    thread of the loop, owners that notify and destroy them, and other users of the queue interleaved.
    \<open>Task_Frames\<close>: what the locale \<open>platform\<close> promises and what each operation leaves alone; \<open>Task_Invariant\<close>: the
    invariant of the system; \<open>Task_Safety\<close>: the platform of the host build and what follows from the invariant.
  \<^item> \<open>Esp_Task\<close>: the threads of \<open>esp_task.cpp\<close> over the locale \<open>thread_kernel\<close> (what exists in the kernel and who owns it);
    \<open>Yielding_Task\<close>: the class of \<open>yielding_task.hpp\<close>, whose record extends
    that of a thread, and its loop as a function of what its iterations see. \<open>Esp_Timer\<close>, \<open>Pm_Lock\<close>: owners of
    a timer and of a power-management lock; \<open>Pm_Lock_Owners\<close>: any number of locks that are constructed, moved, used and
    destroyed in any order.
  \<^item> \<open>Nvs\<close>, \<open>Nvs_Emulated\<close>: \<open>nvs_store.cpp\<close> and its replacement; \<open>Nvs_Handles\<close>: stores that are opened, moved and
    destroyed in any order, over the locale \<open>nvs_handles\<close>.
  \<^item> \<open>Crash_Loop\<close>, \<open>Ota_Watchdog\<close>, \<open>Delayed_Pm\<close>: the boot files; the last is a step relation in which the reads and
    writes of the button's interrupt interleave with those of the timer's callback.
  \<^item> \<open>Shutdown\<close>, \<open>Mac_Address\<close>, \<open>Favicon\<close>, \<open>Psram_Allocator\<close> (\<open>psram_allocator.h\<close>), \<open>Type_Name\<close> (\<open>type_name_str.hpp\<close>);
    \<open>Json_Deprecated\<close>: the old wrapper of cJSON (\<open>src/deprecated\<close>).

  \<^bold>\<open>What the lemmas show.\<close> The buffers keep their invariant and append exactly the reference text or
  report the failure; escaping and decoding, integers, strings and arrays are read back, integers
  through floating-point targets as far as the significand reaches; the parser never leaves the
  text, hands out only slices of it, and isolates bindings from each other. The system theories
  account for what must not be lost: commands, steps in flight, locks, timers, handles, wake-ups, log
  bytes. Where the code loses one (a full queue, a race), the theorem says when.

  \<^bold>\<open>Loops and bounds.\<close> Loops are structural recursions or functions with a measure (the distance to the end of
    the text, the number of unprinted nodes, what is left of an array that is read); the indentation loop, which may
    not end, is a \<open>partial_function\<close>, and \<open>Pretty.indentation_terminates\<close> says when it does. No fuel is used. The
    counters that wrap in the code (versions, steps in flight, crashes, gates, the ring's 64-bit total) are words,
    and the bounds that appear as hypotheses (\<open>< 2 ^ 32\<close>) are their range.

  \<^bold>\<open>Atomicity.\<close> Code under a mutex or in a critical section is one step. Where threads share a variable
  without a lock the code is cut at its reads and writes (\<open>Delayed_Pm\<close>), or what others do in between is
  an argument (\<open>Main_Loop_Task\<close>, \<open>Esp_Task\<close>). In \<open>Task_System\<close> the threads of owners and other users interleave
  with the loop's between the operations of a task; three cuts within the operations are steps of their own that a run
  includes or not (the set of its hazards): after a step's final decrement, between the check and the push of a
  notify, stop request or timer callback, and a reset that times out with steps of its task pending. The safety
  theorems are about the runs without them; \<open>Task_Safety.final_decrement_races\<close> shows what each of them breaks. In
  \<open>Host_Loop\<close> a wait on a condition variable and the wake-up from it are separate steps. In \<open>Yielding_Task\<close> an
  iteration of the thread's loop sees \<open>timer_handle_\<close> once, where the code reads it several times.

  \<^bold>\<open>A reused argument list.\<close> \<open>log_hook\<close> prints with a \<open>va_list\<close> that has been read; what the platform
  makes of such a list is a parameter of \<open>Net_Logger\<close> (\<open>reused\<close>).

  \<^bold>\<open>Not modelled.\<close> The text of a floating-point number (it is an argument, its place in the output is
  modelled), the single-precision arithmetic of the icon's colours, compile-time traits and
  assertions, the page that the network logger serves, most log lines, the smart pointers of the
  deprecated wrapper, the flag that tells a task it runs on the loop, and everything behind the
  parameters.
\<close>

section \<open>Writing and reading back\<close>

text \<open>What a client does that serialises a document into a \<open>StackBuffer\<close> of capacity \<open>cap\<close>, checks
  \<open>is_bad()\<close> and hands the view to a parser with the bindings \<open>nodes\<close>.\<close>

definition write_and_parse :: "nat \<Rightarrow> jnode list \<Rightarrow> parse_node list \<Rightarrow> parse_node list option" where
  "write_and_parse cap ns nodes =
     do { (b, _) \<leftarrow> stack_json_emit stack_ops ns (stack_buffer_new cap);
          if sb_bad b then None else Some (parser_parse (sb_view b) nodes) }"

lemma write_and_parse_text:
  assumes "jval_ok \<infinity> (Doc ns)" "jsonable (Doc ns)" "length (jtext (Doc ns)) \<le> cap"
  shows "write_and_parse cap ns nodes = Some (parser_parse (json_str (value_json (Doc ns))) nodes)"
proof -
  obtain b' n where w: "stack_json_emit stack_ops ns (stack_buffer_new cap) = Some (b', n)"
    "stackb.emits 0 (stack_buffer_new cap) (jtext (Doc ns)) b'"
    using stackb.stack_json_emit_emits[of "stack_buffer_new cap" ns] assms(1) by (auto simp del: jtext.simps)
  have "\<not> sb_bad b' \<and> sb_view b' = jtext (Doc ns)"
    using stack_outcome(3)[OF w(2)] assms(3) by (simp del: jtext.simps)
  with w(1) jtext_json(1)[OF assms(2)] show ?thesis by (simp add: write_and_parse_def)
qed

text \<open>
  The properties of this section are about what the parser can read back: documents in which no conversion
  fails (\<^const>\<open>jval_ok\<close>) and every value prints as a JSON token or text, without raw \<open>printf\<close> output
  (\<^const>\<open>jsonable\<close>), \<^const>\<open>readable\<close> ones (every path non-empty, without empty keys, none a prefix of another; no empty key
  and no object inside of an array in any value; no key twice in an object), and a binding \<^const>\<open>bound_at\<close> the path
  (spelled as the text spells it, that is escaped, not deeper than \<open>max_path_depth\<close>, and no other binding at or below
  this path). What happens outside of these conditions is in \<open>Parse_Json.array_object_depth_lost\<close> and
  \<open>Bindings.binding_set_from_prefix\<close>.
\<close>

text \<open>C1: A string that a readable document holds at a path is the string that a binding at this path, with no
  other binding at or below it, receives when the document's text fits the buffer and is parsed: emission and
  parsing together preserve arbitrary bytes.\<close>

theorem string_end_to_end:
  assumes "jval_ok \<infinity> (Doc ns)" "jsonable (Doc ns)" "length (jtext (Doc ns)) \<le> cap"
    and "readable ns" "(p, JStr s) \<in> set (entries ns)" "bound_at nodes i p"
    and "pn_class (nodes ! i) = BindNode (TString t)"
  shows "\<exists>nodes'. write_and_parse cap ns nodes = Some nodes' \<and> is_set (nodes' ! i) \<and>
    \<not> is_null (nodes' ! i) \<and> pn_class (nodes' ! i) = BindNode (TString s)"
  using write_and_parse_text[OF assms(1-3)] reads_string[OF assms(4-7)] by (simp add: Let_def)

theorem string_end_to_end_witness:
  "\<exists>nodes'. write_and_parse 64 [jnode_of [''a'', ''b''] (Str [ch_lf, ch_quote]), jnode_of [''c''] (SInt 5)]
     [bind_node [''c''] (TInt (Signed 32) 0), bind_node [''a'', ''b''] (TString [])] = Some nodes' \<and>
     pn_class (nodes' ! 1) = BindNode (TString [ch_lf, ch_quote])"
proof -
  let ?ns = "[jnode_of [''a'', ''b''] (Str [ch_lf, ch_quote]), jnode_of [''c''] (SInt 5)]"
  let ?nodes = "[bind_node [''c''] (TInt (Signed 32) 0), bind_node [''a'', ''b''] (TString [])]"
  have "jval_ok \<infinity> (Doc ?ns)" by (simp add: jnode_of_def paths_ok_def)
  moreover have "jsonable (Doc ?ns)" by (simp add: jnode_of_def)
  moreover have "length (jtext (Doc ?ns)) \<le> 64" by code_simp
  moreover have "readable ?ns"
    by (simp add: readable_def entries_def jnode_of_def prefix_free_def prim_text_int)
  moreover have "([''a'', ''b''], JStr [ch_lf, ch_quote]) \<in> set (entries ?ns)"
    by (simp add: entries_def jnode_of_def)
  moreover have "bound_at ?nodes 1 [''a'', ''b'']"
    by (auto simp: bound_at_def alone_def bind_node_def is_catch_all_def max_path_depth_def less_Suc_eq
      escape_char_def needs_escape_def)
  moreover have "pn_class (?nodes ! 1) = BindNode (TString [])" by (simp add: bind_node_def)
  ultimately show ?thesis using string_end_to_end[of ?ns 64 _ _ ?nodes 1 "[]"] by blast
qed

text \<open>C2: An integer of a readable document whose text fits the buffer is the integer that an integral binding at
  its path, with no other binding at or below it, receives, provided that the type of the binding can represent
  it.\<close>

theorem int_end_to_end:
  assumes "jval_ok \<infinity> (Doc ns)" "jsonable (Doc ns)" "length (jtext (Doc ns)) \<le> cap"
    and "readable ns" "(p, JPrim (int_string v)) \<in> set (entries ns)" "bound_at nodes i p"
    and "pn_class (nodes ! i) = BindNode (TInt ty t)" "in_range ty v"
  shows "\<exists>nodes'. write_and_parse cap ns nodes = Some nodes' \<and> is_set (nodes' ! i) \<and>
    \<not> is_null (nodes' ! i) \<and> pn_class (nodes' ! i) = BindNode (TInt ty v)"
  using write_and_parse_text[OF assms(1-3)] reads_int[OF assms(4-8)] by (simp add: Let_def)

theorem int_end_to_end_witness:
  "\<exists>nodes'. write_and_parse 64 [jnode_of [''a''] (LongLong (-7)), jnode_of [''b''] Null]
     [bind_node [''a''] (TInt (Signed 8) 0)] = Some nodes' \<and>
     pn_class (nodes' ! 0) = BindNode (TInt (Signed 8) (-7))"
proof -
  let ?ns = "[jnode_of [''a''] (LongLong (-7)), jnode_of [''b''] Null]"
  let ?nodes = "[bind_node [''a''] (TInt (Signed 8) 0)]"
  have "jval_ok \<infinity> (Doc ?ns)" by (simp add: jnode_of_def paths_ok_def)
  moreover have "jsonable (Doc ?ns)" by (simp add: jnode_of_def)
  moreover have "length (jtext (Doc ?ns)) \<le> 64" by code_simp
  moreover have "readable ?ns"
    by (simp add: readable_def entries_def jnode_of_def prefix_free_def prim_text_int prim_text_words)
  moreover have "([''a''], JPrim (int_string (-7))) \<in> set (entries ?ns)"
    by (simp add: entries_def jnode_of_def)
  moreover have "bound_at ?nodes 0 [''a'']"
    by (simp add: bound_at_def alone_def bind_node_def is_catch_all_def max_path_depth_def
      escape_char_def needs_escape_def)
  moreover have "pn_class (?nodes ! 0) = BindNode (TInt (Signed 8) 0)" by (simp add: bind_node_def)
  moreover have "in_range (Signed 8) (-7)" by simp
  ultimately show ?thesis using int_end_to_end[of ?ns 64 _ "-7" ?nodes 0 "Signed 8" 0] by blast
qed

text \<open>C3: An integer of a readable document whose text fits the buffer, read through a binding to a \<open>float\<close> or
  \<open>double\<close> at its path with no other binding at or below it, is read exactly when its magnitude is below the power
  of two of the significand (\<open>2 ^ 24\<close>, \<open>2 ^ 53\<close>): the bits that the target receives stand for this integer.\<close>

theorem real_end_to_end:
  assumes "jval_ok \<infinity> (Doc ns)" "jsonable (Doc ns)" "length (jtext (Doc ns)) \<le> cap"
    and "readable ns" "(p, JPrim (int_string v)) \<in> set (entries ns)" "bound_at nodes i p"
    and "pn_class (nodes ! i) = BindNode (TReal fmt t)" "\<bar>v\<bar> < 2 ^ precision fmt"
  shows "\<exists>nodes' w. write_and_parse cap ns nodes = Some nodes' \<and> is_set (nodes' ! i) \<and>
    \<not> is_null (nodes' ! i) \<and> pn_class (nodes' ! i) = BindNode (TReal fmt w) \<and> real_integer fmt w = Some v"
  using write_and_parse_text[OF assms(1-3)] reads_real[OF assms(4-8)] by (auto simp: Let_def)

theorem real_end_to_end_witness:
  "\<exists>nodes' w. write_and_parse 64 [jnode_of [''a''] (LongLong (-255))] [bind_node [''a''] (TReal Float32 0)]
     = Some nodes' \<and> pn_class (nodes' ! 0) = BindNode (TReal Float32 w) \<and> real_integer Float32 w = Some (-255)"
proof -
  let ?ns = "[jnode_of [''a''] (LongLong (-255))]" and ?nodes = "[bind_node [''a''] (TReal Float32 0)]"
  have "jval_ok \<infinity> (Doc ?ns)" by (simp add: jnode_of_def paths_ok_def)
  moreover have "jsonable (Doc ?ns)" by (simp add: jnode_of_def)
  moreover have "length (jtext (Doc ?ns)) \<le> 64"
    by code_simp
  moreover have "readable ?ns"
    by (simp add: readable_def entries_def jnode_of_def prefix_free_def prim_text_int)
  moreover have "([''a''], JPrim (int_string (-255))) \<in> set (entries ?ns)"
    by (simp add: entries_def jnode_of_def)
  moreover have "bound_at ?nodes 0 [''a'']"
    by (simp add: bound_at_def alone_def bind_node_def is_catch_all_def max_path_depth_def
      escape_char_def needs_escape_def)
  moreover have "pn_class (?nodes ! 0) = BindNode (TReal Float32 0)" by (simp add: bind_node_def)
  moreover have "\<bar>- 255 :: int\<bar> < 2 ^ precision Float32" by simp
  ultimately show ?thesis using real_end_to_end[of ?ns 64 _ "-255" ?nodes 0 Float32 0] by blast
qed



end
